(* ===== verification/Spy_Prelude.thy ===== *)
theory Spy_Prelude
  imports Main "HOL-Library.Word" "HOL-Library.Monad_Syntax"
begin

text \<open>
  Shared vocabulary of the chunkserver development: the machine integer types of the C
  sources, byte buffers and pointer arithmetic into them, and the generic facts on lists and
  words that the component theories use.

  Conventions. A \<^emph>\<open>byte buffer\<close> (\<open>char *\<close> or \<open>unsigned char *\<close>) is a list of 8-bit words; a
  pointer \<open>buf + p\<close> into it is the list \<open>drop p buf\<close>. An operation of type \<open>'a option\<close>
  returns \<^term>\<open>None\<close> when the C code does not return normally: a failed \<open>assert\<close>, a call of
  \<open>exit\<close>, a dereference of a null or dangling list pointer, or a loop that can make no more
  progress. C error codes (\<open>-1\<close>, \<open>READ_ERROR\<close>, \dots) are ordinary result values.
\<close>

type_synonym u8 = "8 word"
type_synonym u16 = "16 word"
type_synonym u32 = "32 word"
type_synonym u64 = "64 word"
type_synonym bytes = "u8 list"

unbundle bit_operations_syntax

named_theorems codec_simps \<open>evaluation of the big-endian codec on buffers\<close>
named_theorems rwb_simps \<open>facts on the segmented read/write buffer\<close>
named_theorems store_simps \<open>facts on the chunk store\<close>

subsection \<open>Byte buffers\<close>

text \<open>\<open>at_off p f buf\<close> runs the writer \<open>f\<close> on the pointer \<open>buf + p\<close>.\<close>

definition at_off :: "nat \<Rightarrow> (bytes \<Rightarrow> bytes) \<Rightarrow> bytes \<Rightarrow> bytes" where
  "at_off p f buf = take p buf @ f (drop p buf)"

text \<open>\<open>slice p n buf\<close> are the \<open>n\<close> bytes at \<open>buf + p\<close>.\<close>

definition slice :: "nat \<Rightarrow> nat \<Rightarrow> 'a list \<Rightarrow> 'a list" where
  "slice p n buf = take n (drop p buf)"

text \<open>\<open>poke p bs buf\<close> is \<open>memcpy(buf + p, bs, length bs)\<close>.\<close>

definition poke :: "nat \<Rightarrow> 'a list \<Rightarrow> 'a list \<Rightarrow> 'a list" where
  "poke p bs buf = take p buf @ bs @ drop (p + length bs) buf"

lemma length_slice [simp]: "length (slice p n buf) = min n (length buf - p)"
  by (simp add: slice_def)

lemma length_poke [simp]: "p + length bs \<le> length buf \<Longrightarrow> length (poke p bs buf) = length buf"
  by (simp add: poke_def)

lemma slice_poke_same:
  "p + length bs \<le> length buf \<Longrightarrow> slice p (length bs) (poke p bs buf) = bs"
  by (simp add: slice_def poke_def)

lemma take_poke: "n \<le> p \<Longrightarrow> p \<le> length buf \<Longrightarrow> take n (poke p bs buf) = take n buf"
  by (simp add: poke_def)

lemma drop_poke:
  "p + length bs \<le> n \<Longrightarrow> p + length bs \<le> length buf \<Longrightarrow> drop n (poke p bs buf) = drop n buf"
  by (simp add: poke_def drop_append)

lemma poke_Nil [simp]: "poke p [] buf = buf"
  by (simp add: poke_def)

lemma poke_poke_adjacent:
  assumes "p + length xs + length ys \<le> length buf"
  shows "poke (p + length xs) ys (poke p xs buf) = poke p (xs @ ys) buf"
  using assms by (simp add: poke_def take_append drop_append ac_simps)

lemma slice_append_slice: "slice p m buf @ slice (p + m) n buf = slice p (m + n) buf"
  by (simp add: slice_def take_add drop_drop add.commute)

lemma take_slice: "m \<le> n \<Longrightarrow> take m (slice p n buf) = slice p m buf"
  by (simp add: slice_def min_absorb1)

lemma slice_prefix_eq:
  "take n xs = take n ys \<Longrightarrow> p + m \<le> n \<Longrightarrow> slice p m xs = slice p m ys"
  unfolding slice_def
  by (metis (no_types, lifting) add.commute min_def take_drop take_take)

subsection \<open>List cursors\<close>

text \<open>
  \<open>list_next_entry xs x\<close> is the entry after \<open>x\<close> in the circular list whose entries are \<open>xs\<close>;
  after the last one the C macro yields the list head cast to an entry, which no code may
  touch, hence \<^term>\<open>None\<close>.
\<close>

fun next_entry :: "'a list \<Rightarrow> 'a \<Rightarrow> 'a option" where
  "next_entry [] x = None"
| "next_entry [y] x = None"
| "next_entry (y # z # ys) x = (if y = x then Some z else next_entry (z # ys) x)"

lemma next_entry_append:
  "x \<notin> set us \<Longrightarrow> next_entry (us @ x # z # vs) x = Some z"
proof (induction us)
  case (Cons u us)
  then show ?case by (cases us) auto
qed simp

lemma next_entry_last: "x \<notin> set us \<Longrightarrow> next_entry (us @ [x]) x = None"
proof (induction us)
  case (Cons u us)
  then show ?case by (cases us) auto
qed simp

lemma takeWhile_neq_append [simp]:
  "x \<notin> set us \<Longrightarrow> takeWhile (\<lambda>y. y \<noteq> x) (us @ x # vs) = us"
  by (induction us) auto

subsection \<open>Words\<close>

lemma unat_inc: "unat (x::'a::len word) + 1 < 2 ^ LENGTH('a) \<Longrightarrow> unat (x + 1) = unat x + 1"
  by (simp add: unat_word_ariths)

lemma unat_dec: "0 < unat (x::'a::len word) \<Longrightarrow> unat (x - 1) = unat x - 1"
  by (metis One_nat_def Suc_leI unat_1 unat_gt_0 unat_sub_if' word_le_nat_alt)

text \<open>Conversion of a wider integer to a C \<open>int\<close>.\<close>

definition i32 :: "int \<Rightarrow> int" where
  "i32 x = signed_take_bit 31 x"

lemma i32_small: "- (2 ^ 31) \<le> x \<Longrightarrow> x < 2 ^ 31 \<Longrightarrow> i32 x = x"
  by (simp add: i32_def signed_take_bit_int_eq_self)

end
