(* ===== verification/Spy_Codec.thy ===== *)
theory Spy_Codec
  imports Spy_Prelude
begin

text \<open>
  The byte codec of \<^verbatim>\<open>chunkserver/spy_utils.c\<close>: big-endian fixed-width integers and the
  7-bit variable-length integer. The argument \<open>b\<close> is the memory from the pointer on; a
  write returns the updated memory.
\<close>

subsection \<open>Fixed-width integers\<close>

definition spy_mach_write_to_1 :: "bytes \<Rightarrow> u8 \<Rightarrow> bytes" where
  "spy_mach_write_to_1 b data = b[0 := data AND 0xFF]"

definition spy_mach_read_from_1 :: "bytes \<Rightarrow> u8" where
  "spy_mach_read_from_1 b = b ! 0"

definition spy_mach_write_to_2 :: "bytes \<Rightarrow> u16 \<Rightarrow> bytes" where
  "spy_mach_write_to_2 b data = b[0 := ucast (drop_bit 8 data), 1 := ucast data]"

definition spy_mach_read_from_2 :: "bytes \<Rightarrow> u16" where
  "spy_mach_read_from_2 b = ucast (push_bit 8 (ucast (b ! 0) :: u32)) OR ucast (b ! 1)"

definition spy_mach_write_to_4 :: "bytes \<Rightarrow> u32 \<Rightarrow> bytes" where
  "spy_mach_write_to_4 b data =
     b[0 := ucast (drop_bit 24 data), 1 := ucast (drop_bit 16 data),
       2 := ucast (drop_bit 8 data), 3 := ucast data]"

definition spy_mach_read_from_4 :: "bytes \<Rightarrow> u32" where
  "spy_mach_read_from_4 b =
     push_bit 24 (ucast (b ! 0)) OR push_bit 16 (ucast (b ! 1)) OR
     push_bit 8 (ucast (b ! 2)) OR ucast (b ! 3)"

definition spy_mach_write_to_8 :: "bytes \<Rightarrow> u64 \<Rightarrow> bytes" where
  "spy_mach_write_to_8 b data =
     b[0 := ucast (drop_bit 56 data), 1 := ucast (drop_bit 48 data),
       2 := ucast (drop_bit 40 data), 3 := ucast (drop_bit 32 data),
       4 := ucast (drop_bit 24 data), 5 := ucast (drop_bit 16 data),
       6 := ucast (drop_bit 8 data), 7 := ucast data]"

definition spy_mach_read_from_8 :: "bytes \<Rightarrow> u64" where
  "spy_mach_read_from_8 b =
     push_bit 56 (ucast (b ! 0)) OR push_bit 48 (ucast (b ! 1)) OR
     push_bit 40 (ucast (b ! 2)) OR push_bit 32 (ucast (b ! 3)) OR
     push_bit 24 (ucast (b ! 4)) OR push_bit 16 (ucast (b ! 5)) OR
     push_bit 8 (ucast (b ! 6)) OR ucast (b ! 7)"

subsection \<open>The contract of a fixed-width codec\<close>

text \<open>
  What every record layout of the store relies on: a write changes exactly \<open>width\<close> bytes and
  keeps the buffer's length, a read depends on these bytes only, and the two are inverse to
  each other.
\<close>

locale fixed_codec =
  fixes width :: nat
    and wr :: "bytes \<Rightarrow> 'a \<Rightarrow> bytes"
    and rd :: "bytes \<Rightarrow> 'a"
  assumes length_wr: "length (wr b v) = length b"
    and drop_wr: "width \<le> n \<Longrightarrow> drop n (wr b v) = drop n b"
    and rd_wr: "width \<le> length b \<Longrightarrow> rd (wr b v) = v"
    and rd_take: "width \<le> n \<Longrightarrow> width \<le> length b \<Longrightarrow> rd (take n b) = rd b"
    and wr_rd: "width \<le> length b \<Longrightarrow> wr b (rd b) = b"
    and wr_local: "width \<le> length b \<Longrightarrow> wr b v = wr (take width b) v @ drop width b"
    and wr_full: "length b = width \<Longrightarrow> length b' = width \<Longrightarrow> wr b v = wr b' v"
begin

text \<open>The encoding as a value: what a write leaves in a buffer of exactly \<open>width\<close> bytes.\<close>

definition enc :: "'a \<Rightarrow> bytes" where
  "enc v = wr (replicate width 0) v"

lemma length_enc [simp]: "length (enc v) = width"
  by (simp add: enc_def length_wr)

lemma wr_eq_enc: "width \<le> length b \<Longrightarrow> wr b v = enc v @ drop width b"
  using wr_local [of b v] wr_full [of "take width b" "replicate width 0" v]
  by (simp add: enc_def)

lemma rd_append: "width \<le> length xs \<Longrightarrow> rd (xs @ ys) = rd xs"
  using rd_take [of "length xs" "xs @ ys"] by simp

lemma rd_enc: "rd (enc v @ ys) = v"
  using rd_wr [of "replicate width 0" v] rd_append [of "enc v" ys]
  by (simp add: enc_def length_wr)

lemma enc_rd: "length b = width \<Longrightarrow> enc (rd b) = b"
  using wr_eq_enc [of b "rd b"] wr_rd [of b] by simp

lemma enc_inj: "enc v = enc w \<longleftrightarrow> v = w"
  by (metis rd_enc)

text \<open>Writing through the pointer \<open>b + p\<close> and then reading there.\<close>

lemma at_off_wr:
  assumes "p + width \<le> length b"
  shows "at_off p (\<lambda>q. wr q v) b = poke p (enc v) b"
proof -
  have "width \<le> length (drop p b)" using assms by simp
  then show ?thesis
    by (simp add: at_off_def poke_def wr_eq_enc add.commute)
qed

lemma at_off_roundtrip:
  assumes "p + width \<le> length b"
  shows "rd (drop p (at_off p (\<lambda>q. wr q v) b)) = v \<and>
    take p (at_off p (\<lambda>q. wr q v) b) = take p b \<and>
    drop (p + width) (at_off p (\<lambda>q. wr q v) b) = drop (p + width) b \<and>
    at_off p (\<lambda>q. wr q (rd (drop p b))) b = b"
proof -
  have w: "width \<le> length (drop p b)" using assms by simp
  show ?thesis
    using assms by (simp add: at_off_def rd_wr [OF w] wr_rd [OF w] drop_wr add.commute)
qed

end

subsection \<open>The four widths satisfy the contract\<close>

lemma length_ge_2: "2 \<le> length b \<Longrightarrow> \<exists>x0 x1 r. b = x0 # x1 # r"
  by (auto simp: numeral_eq_Suc Suc_le_length_iff)

lemma length_ge_4: "4 \<le> length b \<Longrightarrow> \<exists>x0 x1 x2 x3 r. b = x0 # x1 # x2 # x3 # r"
  by (auto simp: numeral_eq_Suc Suc_le_length_iff)

lemma length_ge_8:
  "8 \<le> length b \<Longrightarrow>
   \<exists>x0 x1 x2 x3 x4 x5 x6 x7 r. b = x0 # x1 # x2 # x3 # x4 # x5 # x6 # x7 # r"
  by (auto simp: numeral_eq_Suc Suc_le_length_iff)

text \<open>Bytes of a word: gluing them from the low end, and cutting one out.\<close>

lemma byte_glue:
  fixes v :: "'a::len word"
  shows "push_bit k (ucast (ucast (drop_bit k v) :: u8)) OR take_bit k v = take_bit (k + 8) v"
  by (rule bit_word_eqI) (auto simp: bit_simps)

lemma byte_glue_0: "ucast (ucast (v :: 'a::len word) :: u8) = take_bit 8 v"
  by (rule bit_word_eqI) (auto simp: bit_simps)

lemma byte_cut:
  fixes x :: u8
  assumes "8 + k \<le> LENGTH('a)"
  shows "ucast (drop_bit k (push_bit k (ucast x) :: 'a::len word)) = x"
  using assms by (intro bit_word_eqI) (auto simp: bit_simps)

lemma byte_cut_0:
  fixes x :: u8
  assumes "8 \<le> LENGTH('a)"
  shows "ucast (ucast x :: 'a::len word) = x"
  using assms by (intro bit_word_eqI) (auto simp: bit_simps)

lemma byte_cut_low:
  fixes x :: u8
  assumes "j + 8 \<le> k"
  shows "drop_bit k (push_bit j (ucast x) :: 'a::len word) = 0"
  using assms by (intro bit_word_eqI) (auto simp: bit_simps dest: bit_imp_le_length)

lemma byte_cut_low_0:
  fixes x :: u8
  assumes "8 \<le> k"
  shows "drop_bit k (ucast x :: 'a::len word) = 0"
  using assms by (intro bit_word_eqI) (auto simp: bit_simps dest: bit_imp_le_length)

lemma byte_cut_high:
  fixes w :: "'a::len word"
  assumes "k + 8 \<le> j"
  shows "(ucast (drop_bit k (push_bit j w)) :: u8) = 0"
  using assms by (intro bit_word_eqI) (auto simp: bit_simps)

lemma byte_cut_high_0:
  fixes w :: "'a::len word"
  assumes "8 \<le> j"
  shows "(ucast (push_bit j w) :: u8) = 0"
  using assms by (intro bit_word_eqI) (auto simp: bit_simps)

lemmas byte_cuts = byte_cut byte_cut_0 byte_cut_low byte_cut_low_0 byte_cut_high byte_cut_high_0
  drop_bit_or unsigned_or_eq

lemma join_16:
  "ucast (push_bit 8 (ucast (ucast (drop_bit 8 v) :: u8) :: u32)) OR ucast (ucast v :: u8) = (v :: u16)"
  by (rule bit_word_eqI) (auto simp: bit_simps)

lemma split_16:
  fixes x y :: u8
  defines "v \<equiv> ucast (push_bit 8 (ucast x :: u32)) OR ucast y :: u16"
  shows "ucast (drop_bit 8 v) = x" and "ucast v = y"
  unfolding v_def by (rule bit_word_eqI; auto simp: bit_simps dest: bit_imp_le_length)+

lemma join_32:
  "push_bit 24 (ucast (ucast (drop_bit 24 v) :: u8)) OR push_bit 16 (ucast (ucast (drop_bit 16 v) :: u8)) OR
   push_bit 8 (ucast (ucast (drop_bit 8 v) :: u8)) OR ucast (ucast v :: u8) = (v :: u32)"
  using byte_glue [of 8 v] byte_glue [of 16 v] byte_glue [of 24 v]
  by (simp add: byte_glue_0 take_bit_length_eq [where 'a = 32, simplified])

lemma split_32:
  fixes x y z w :: u8
  defines "v \<equiv> push_bit 24 (ucast x) OR push_bit 16 (ucast y) OR push_bit 8 (ucast z) OR ucast w :: u32"
  shows "ucast (drop_bit 24 v) = x" and "ucast (drop_bit 16 v) = y"
    and "ucast (drop_bit 8 v) = z" and "ucast v = w"
  unfolding v_def by (simp_all add: byte_cuts del: drop_bit_push_bit)

lemma join_64:
  "push_bit 56 (ucast (ucast (drop_bit 56 v) :: u8)) OR push_bit 48 (ucast (ucast (drop_bit 48 v) :: u8)) OR
   push_bit 40 (ucast (ucast (drop_bit 40 v) :: u8)) OR push_bit 32 (ucast (ucast (drop_bit 32 v) :: u8)) OR
   push_bit 24 (ucast (ucast (drop_bit 24 v) :: u8)) OR push_bit 16 (ucast (ucast (drop_bit 16 v) :: u8)) OR
   push_bit 8 (ucast (ucast (drop_bit 8 v) :: u8)) OR ucast (ucast v :: u8) = (v :: u64)"
  using byte_glue [of 8 v] byte_glue [of 16 v] byte_glue [of 24 v] byte_glue [of 32 v]
    byte_glue [of 40 v] byte_glue [of 48 v] byte_glue [of 56 v]
  by (simp add: byte_glue_0 take_bit_length_eq [where 'a = 64, simplified])

lemma split_64:
  fixes a b c d x y z w :: u8
  defines "v \<equiv> push_bit 56 (ucast a) OR push_bit 48 (ucast b) OR push_bit 40 (ucast c) OR
    push_bit 32 (ucast d) OR push_bit 24 (ucast x) OR push_bit 16 (ucast y) OR
    push_bit 8 (ucast z) OR ucast w :: u64"
  shows "ucast (drop_bit 56 v) = a" and "ucast (drop_bit 48 v) = b"
    and "ucast (drop_bit 40 v) = c" and "ucast (drop_bit 32 v) = d"
    and "ucast (drop_bit 24 v) = x" and "ucast (drop_bit 16 v) = y"
    and "ucast (drop_bit 8 v) = z" and "ucast v = w"
  unfolding v_def by (simp_all add: byte_cuts del: drop_bit_push_bit)

lemma byte_and_255 [simp]: "(x :: u8) AND 0xFF = x"
proof -
  have "(0xFF :: u8) = - 1" by simp
  then show ?thesis by (metis and.right_neutral)
qed

interpretation be1: fixed_codec 1 spy_mach_write_to_1 spy_mach_read_from_1
proof (unfold_locales, goal_cases)
  case (3 b v)
  then show ?case by (cases b) (auto simp: spy_mach_write_to_1_def spy_mach_read_from_1_def)
next
  case (6 b v)
  then show ?case by (cases b) (auto simp: spy_mach_write_to_1_def)
next
  case (7 b b' v)
  then show ?case by (cases b; cases b') (auto simp: spy_mach_write_to_1_def)
qed (auto simp: spy_mach_write_to_1_def spy_mach_read_from_1_def)

interpretation be2: fixed_codec 2 spy_mach_write_to_2 spy_mach_read_from_2
proof (unfold_locales, goal_cases)
  case (3 b v)
  then show ?case
    by (auto dest!: length_ge_2 simp: spy_mach_write_to_2_def spy_mach_read_from_2_def join_16)
next
  case (5 b)
  then show ?case
    by (auto dest!: length_ge_2 simp: spy_mach_write_to_2_def spy_mach_read_from_2_def split_16
      simp del: drop_bit_or)
next
  case (6 b v)
  then show ?case by (auto dest!: length_ge_2 simp: spy_mach_write_to_2_def)
next
  case (7 b b' v)
  then show ?case
    using length_ge_2 [of b] length_ge_2 [of b'] by (auto simp: spy_mach_write_to_2_def)
qed (auto simp: spy_mach_write_to_2_def spy_mach_read_from_2_def)

interpretation be4: fixed_codec 4 spy_mach_write_to_4 spy_mach_read_from_4
proof (unfold_locales, goal_cases)
  case (3 b v)
  then show ?case
    by (auto dest!: length_ge_4 simp: spy_mach_write_to_4_def spy_mach_read_from_4_def join_32)
next
  case (5 b)
  then show ?case
    by (auto dest!: length_ge_4 simp: spy_mach_write_to_4_def spy_mach_read_from_4_def split_32
      simp del: drop_bit_or)
next
  case (6 b v)
  then show ?case by (auto dest!: length_ge_4 simp: spy_mach_write_to_4_def)
next
  case (7 b b' v)
  then show ?case
    using length_ge_4 [of b] length_ge_4 [of b'] by (auto simp: spy_mach_write_to_4_def)
qed (auto simp: spy_mach_write_to_4_def spy_mach_read_from_4_def)

interpretation be8: fixed_codec 8 spy_mach_write_to_8 spy_mach_read_from_8
proof (unfold_locales, goal_cases)
  case (3 b v)
  then show ?case
    by (auto dest!: length_ge_8 simp: spy_mach_write_to_8_def spy_mach_read_from_8_def join_64)
next
  case (5 b)
  then show ?case
    by (auto dest!: length_ge_8 simp: spy_mach_write_to_8_def spy_mach_read_from_8_def split_64
      simp del: drop_bit_or)
next
  case (6 b v)
  then show ?case by (auto dest!: length_ge_8 simp: spy_mach_write_to_8_def)
next
  case (7 b b' v)
  then show ?case
    using length_ge_8 [of b] length_ge_8 [of b'] by (auto simp: spy_mach_write_to_8_def)
qed (auto simp: spy_mach_write_to_8_def spy_mach_read_from_8_def)

subsection \<open>Variable-length integers\<close>

definition VARIANT_HEAD :: u8 where
  "VARIANT_HEAD = 0x80"

text \<open>Returns the written memory and the number of bytes of the encoding.\<close>

definition spy_mach_write_variant_4 :: "bytes \<Rightarrow> u32 \<Rightarrow> bytes \<times> nat" where
  "spy_mach_write_variant_4 b data =
     (if data < 2 ^ 7 then
        (b[0 := ucast data], 1)
      else if data < 2 ^ 14 then
        (b[0 := ucast data OR VARIANT_HEAD,
           1 := ucast (drop_bit 7 data)], 2)
      else if data < 2 ^ 21 then
        (b[0 := ucast data OR VARIANT_HEAD,
           1 := ucast (drop_bit 7 data) OR VARIANT_HEAD,
           2 := ucast (drop_bit 14 data)], 3)
      else if data < 2 ^ 28 then
        (b[0 := ucast data OR VARIANT_HEAD,
           1 := ucast (drop_bit 7 data) OR VARIANT_HEAD,
           2 := ucast (drop_bit 14 data) OR VARIANT_HEAD,
           3 := ucast (drop_bit 21 data)], 4)
      else
        (b[0 := ucast data OR VARIANT_HEAD,
           1 := ucast (drop_bit 7 data) OR VARIANT_HEAD,
           2 := ucast (drop_bit 14 data) OR VARIANT_HEAD,
           3 := ucast (drop_bit 21 data) OR VARIANT_HEAD,
           4 := ucast (drop_bit 28 data)], 5))"

text \<open>
  The reading loop \<open>for (shift = 0; shift <= 28; shift += 7)\<close>: \<open>i\<close> is \<open>p - b\<close>. The second
  component is what is stored through \<open>value\<close>, \<^term>\<open>None\<close> if nothing is.
\<close>

function read_variant_loop :: "bytes \<Rightarrow> nat \<Rightarrow> nat \<Rightarrow> u32 \<Rightarrow> nat \<times> u32 option" where
  "read_variant_loop b i shift res =
     (if shift \<le> 28 then
        if b ! i AND VARIANT_HEAD = 0
        then (i, Some (res OR push_bit shift (ucast (b ! i))))
        else read_variant_loop b (i + 1) (shift + 7)
               (res OR push_bit shift (ucast (b ! i AND (VARIANT_HEAD - 1))))
      else (i, None))"
  by pat_completeness auto
termination
  by (relation "measure (\<lambda>(b, i, shift, res). 29 - shift)") auto

declare read_variant_loop.simps [simp del]

definition spy_mach_read_variant_4 :: "bytes \<Rightarrow> nat \<times> u32 option" where
  "spy_mach_read_variant_4 b = (case read_variant_loop b 0 0 0 of (i, v) \<Rightarrow> (i + 1, v))"

text \<open>A continuation byte carries seven bits of the number, the last byte the rest.\<close>

lemma bit_VARIANT_HEAD [bit_simps]: "bit VARIANT_HEAD n \<longleftrightarrow> n = 7"
proof -
  have "VARIANT_HEAD = push_bit 7 1" by (simp add: VARIANT_HEAD_def)
  show ?thesis unfolding \<open>VARIANT_HEAD = push_bit 7 1\<close> bit_push_bit_iff bit_1_iff by auto
qed

lemma VARIANT_HEAD_nonzero: "VARIANT_HEAD \<noteq> 0"
  by (simp add: VARIANT_HEAD_def)

lemma VARIANT_HEAD_mask: "VARIANT_HEAD - 1 = mask 7"
  by (simp add: VARIANT_HEAD_def mask_eq_exp_minus_1)

lemma variant_more:
  "(ucast (w :: u32) OR VARIANT_HEAD :: u8) AND VARIANT_HEAD \<noteq> 0"
  "(ucast ((ucast w OR VARIANT_HEAD :: u8) AND mask 7) :: u32) = take_bit 7 w"
proof -
  have "bit ((ucast w OR VARIANT_HEAD :: u8) AND VARIANT_HEAD) 7"
    by (simp add: bit_simps)
  then show "(ucast w OR VARIANT_HEAD :: u8) AND VARIANT_HEAD \<noteq> 0"
    by (metis bit_0_eq bot_fun_def bot_bool_def)
  show "(ucast ((ucast w OR VARIANT_HEAD :: u8) AND mask 7) :: u32) = take_bit 7 w"
    by (rule bit_word_eqI) (auto simp: bit_simps)
qed

lemma variant_last:
  assumes "(w :: u32) < 2 ^ 7"
  shows "(ucast w :: u8) AND VARIANT_HEAD = 0" and "(ucast (ucast w :: u8) :: u32) = w"
proof -
  have w: "take_bit 7 w = w" using assms by (simp add: less_mask_eq take_bit_eq_mask)
  then have b: "bit w n \<Longrightarrow> n < 7" for n
    by (metis bit_take_bit_iff)
  show "(ucast w :: u8) AND VARIANT_HEAD = 0"
    by (rule bit_word_eqI) (auto simp: bit_simps dest: b)
  show "(ucast (ucast w :: u8) :: u32) = w"
    by (rule bit_word_eqI) (auto simp: bit_simps dest: b)
qed

lemma variant_glue:
  "take_bit k (w :: u32) OR push_bit k (take_bit n (drop_bit k w)) = take_bit (k + n) w"
  by (rule bit_word_eqI) (auto simp: bit_simps)

lemma variant_glue_last: "take_bit k (w :: u32) OR push_bit k (drop_bit k w) = w"
  by (rule bit_word_eqI, simp add: bit_simps) (metis le_add_diff_inverse not_less)

lemma variant_rest:
  assumes "unat (w :: u32) < 2 ^ (k + 7)"
  shows "drop_bit k w < 2 ^ 7"
proof -
  have "unat (drop_bit k w) = unat w div 2 ^ k"
    by (simp only: unat_drop_bit_eq drop_bit_eq_div [of k "unat w"])
  also have "\<dots> < 2 ^ 7"
    using assms by (simp add: less_mult_imp_div_less power_add mult.commute)
  finally show ?thesis by (simp add: word_less_nat_alt)
qed

lemma variant_rests:
  "(w :: u32) < 2 ^ 14 \<Longrightarrow> drop_bit 7 w < 2 ^ 7"
  "w < 2 ^ 21 \<Longrightarrow> drop_bit 14 w < 2 ^ 7"
  "w < 2 ^ 28 \<Longrightarrow> drop_bit 21 w < 2 ^ 7"
  "drop_bit 28 w < 2 ^ 7"
  using variant_rest [of w 7] variant_rest [of w 14] variant_rest [of w 21] variant_rest [of w 28]
    unsigned_less [of w, where ?'a = nat]
  by (simp_all add: word_less_nat_alt)

lemma length_ge_5: "5 \<le> length b \<Longrightarrow> \<exists>x0 x1 x2 x3 x4 r. b = x0 # x1 # x2 # x3 # x4 # r"
  by (auto simp: numeral_eq_Suc Suc_le_length_iff)

lemmas variant_facts = VARIANT_HEAD_nonzero VARIANT_HEAD_mask variant_more variant_last variant_glue variant_glue_last
  read_variant_loop.simps spy_mach_read_variant_4_def spy_mach_write_variant_4_def

text \<open>(C39) Variable-length integers: whatever 32-bit value is encoded into a buffer with room for
  five bytes, decoding returns it, together with exactly the number of bytes the encoder
  reported.\<close>

theorem variant_roundtrip:
  assumes "5 \<le> length b"
  shows "spy_mach_read_variant_4 (fst (spy_mach_write_variant_4 b v)) =
           (snd (spy_mach_write_variant_4 b v), Some v)"
proof -
  obtain x0 x1 x2 x3 x4 r where b: "b = x0 # x1 # x2 # x3 # x4 # r"
    using length_ge_5 [OF assms] by blast
  consider "v < 2 ^ 7" | "\<not> v < 2 ^ 7" "v < 2 ^ 14" | "\<not> v < 2 ^ 7" "\<not> v < 2 ^ 14" "v < 2 ^ 21"
    | "\<not> v < 2 ^ 7" "\<not> v < 2 ^ 14" "\<not> v < 2 ^ 21" "v < 2 ^ 28"
    | "\<not> v < 2 ^ 7" "\<not> v < 2 ^ 14" "\<not> v < 2 ^ 21" "\<not> v < 2 ^ 28"
    by blast
  then show ?thesis
  proof cases
    case 1
    then show ?thesis by (simp add: b variant_facts)
  next
    case 2
    then show ?thesis using variant_rests [of v] by (simp add: b variant_facts)
  next
    case 3
    then show ?thesis using variant_rests [of v] by (simp add: b variant_facts)
  next
    case 4
    then show ?thesis using variant_rests [of v] by (simp add: b variant_facts)
  next
    case 5
    then show ?thesis using variant_rests [of v] by (simp add: b variant_facts)
  qed
qed

theorem variant_roundtrip_witness:
  "spy_mach_read_variant_4 (fst (spy_mach_write_variant_4 (replicate 5 0) 300)) =
     (snd (spy_mach_write_variant_4 (replicate 5 0) 300), Some 300)
   \<and> snd (spy_mach_write_variant_4 (replicate 5 0) 300) = 2"
  using variant_roundtrip [of "replicate 5 0" 300] by (simp add: spy_mach_write_variant_4_def)

text \<open>(C38) Fixed-width integers: a 64-bit value written big-endian through a pointer into a
  buffer is read back unchanged, every byte before and after the eight written ones keeps its
  value, and conversely rewriting what was read changes nothing.\<close>

theorem mach_8_roundtrip:
  assumes "p + 8 \<le> length buf"
  shows "spy_mach_read_from_8 (drop p (at_off p (\<lambda>q. spy_mach_write_to_8 q v) buf)) = v \<and>
    take p (at_off p (\<lambda>q. spy_mach_write_to_8 q v) buf) = take p buf \<and>
    drop (p + 8) (at_off p (\<lambda>q. spy_mach_write_to_8 q v) buf) = drop (p + 8) buf \<and>
    at_off p (\<lambda>q. spy_mach_write_to_8 q (spy_mach_read_from_8 (drop p buf))) buf = buf"
  using assms by (rule be8.at_off_roundtrip)

theorem mach_8_roundtrip_witness:
  "(2::nat) + 8 \<le> length (replicate 12 (7::u8)) \<and>
   spy_mach_read_from_8 (drop 2 (at_off 2 (\<lambda>q. spy_mach_write_to_8 q 0x0102030405060708)
     (replicate 12 7))) = 0x0102030405060708"
  using mach_8_roundtrip [of 2 "replicate 12 7" "0x0102030405060708"] by simp

end
