(* ===== verification/Spy_List.thy ===== *)
theory Spy_List
  imports Spy_Prelude
begin

text \<open>
  The intrusive lists of \<^verbatim>\<open>chunkserver/spy_list.h\<close> at pointer level. A heap maps the address of a
  \<open>struct list_head\<close> to its two fields; every macro and inline function is the same sequence of
  field assignments as in the header. \<open>ring h hn xs\<close> says that the circular list with head node
  \<open>hn\<close> holds exactly the entries \<open>xs\<close>; the lemmas show that each operation does on \<open>xs\<close> what the
  other theories of this development do on HOL lists, and that it leaves every list it does not
  touch alone.
\<close>

section \<open>Circular doubly linked lists\<close>

type_synonym addr = nat

record list_head =
  l_next :: addr
  l_prev :: addr

type_synonym lheap = "addr \<Rightarrow> list_head"

definition set_next :: "addr \<Rightarrow> addr \<Rightarrow> lheap \<Rightarrow> lheap" where
  "set_next a b h = h(a := (h a)\<lparr>l_next := b\<rparr>)"

definition set_prev :: "addr \<Rightarrow> addr \<Rightarrow> lheap \<Rightarrow> lheap" where
  "set_prev a b h = h(a := (h a)\<lparr>l_prev := b\<rparr>)"

definition LIST_POISON1 :: addr where "LIST_POISON1 = 0x00100100"
definition LIST_POISON2 :: addr where "LIST_POISON2 = 0x00200200"

definition INIT_LIST_HEAD :: "addr \<Rightarrow> lheap \<Rightarrow> lheap" where
  "INIT_LIST_HEAD list h = set_prev list list (set_next list list h)"

text \<open>\<open>__list_add(new, prev, next)\<close>\<close>

definition list_add_between :: "addr \<Rightarrow> addr \<Rightarrow> addr \<Rightarrow> lheap \<Rightarrow> lheap" where
  "list_add_between new prv nxt h =
     (let h = set_prev nxt new h;
          h = set_next new nxt h;
          h = set_prev new prv h
      in set_next prv new h)"

definition list_add :: "addr \<Rightarrow> addr \<Rightarrow> lheap \<Rightarrow> lheap" where
  "list_add new head h = list_add_between new head (l_next (h head)) h"

definition list_add_tail :: "addr \<Rightarrow> addr \<Rightarrow> lheap \<Rightarrow> lheap" where
  "list_add_tail new head h = list_add_between new (l_prev (h head)) head h"

text \<open>\<open>__list_del(prev, next)\<close> and \<open>__list_del_entry(entry)\<close>\<close>

definition list_del_between :: "addr \<Rightarrow> addr \<Rightarrow> lheap \<Rightarrow> lheap" where
  "list_del_between prv nxt h = set_next prv nxt (set_prev nxt prv h)"

definition list_del_entry :: "addr \<Rightarrow> lheap \<Rightarrow> lheap" where
  "list_del_entry entry h = list_del_between (l_prev (h entry)) (l_next (h entry)) h"

definition list_del :: "addr \<Rightarrow> lheap \<Rightarrow> lheap" where
  "list_del entry h =
     set_prev entry LIST_POISON2 (set_next entry LIST_POISON1 (list_del_entry entry h))"

definition list_replace :: "addr \<Rightarrow> addr \<Rightarrow> lheap \<Rightarrow> lheap" where
  "list_replace old new h =
     (let h = set_next new (l_next (h old)) h;
          h = set_prev (l_next (h new)) new h;
          h = set_prev new (l_prev (h old)) h
      in set_next (l_prev (h new)) new h)"

definition list_replace_init :: "addr \<Rightarrow> addr \<Rightarrow> lheap \<Rightarrow> lheap" where
  "list_replace_init old new h = INIT_LIST_HEAD old (list_replace old new h)"

definition list_del_init :: "addr \<Rightarrow> lheap \<Rightarrow> lheap" where
  "list_del_init entry h = INIT_LIST_HEAD entry (list_del_entry entry h)"

definition list_move :: "addr \<Rightarrow> addr \<Rightarrow> lheap \<Rightarrow> lheap" where
  "list_move list head h = list_add list head (list_del_entry list h)"

definition list_move_tail :: "addr \<Rightarrow> addr \<Rightarrow> lheap \<Rightarrow> lheap" where
  "list_move_tail list head h = list_add_tail list head (list_del_entry list h)"

definition list_is_last :: "addr \<Rightarrow> addr \<Rightarrow> lheap \<Rightarrow> bool" where
  "list_is_last list head h \<longleftrightarrow> l_next (h list) = head"

definition list_empty :: "addr \<Rightarrow> lheap \<Rightarrow> bool" where
  "list_empty head h \<longleftrightarrow> l_next (h head) = head"

definition list_empty_careful :: "addr \<Rightarrow> lheap \<Rightarrow> bool" where
  "list_empty_careful head h \<longleftrightarrow>
     (let nxt = l_next (h head) in nxt = head \<and> nxt = l_prev (h head))"

definition list_rotate_left :: "addr \<Rightarrow> lheap \<Rightarrow> lheap" where
  "list_rotate_left head h =
     (if \<not> list_empty head h then list_move_tail (l_next (h head)) head h else h)"

definition list_is_singular :: "addr \<Rightarrow> lheap \<Rightarrow> bool" where
  "list_is_singular head h \<longleftrightarrow> \<not> list_empty head h \<and> l_next (h head) = l_prev (h head)"

text \<open>\<open>__list_cut_position(list, head, entry)\<close>\<close>

definition list_cut_between :: "addr \<Rightarrow> addr \<Rightarrow> addr \<Rightarrow> lheap \<Rightarrow> lheap" where
  "list_cut_between list head entry h =
     (let new_first = l_next (h entry);
          h = set_next list (l_next (h head)) h;
          h = set_prev (l_next (h list)) list h;
          h = set_prev list entry h;
          h = set_next entry list h;
          h = set_next head new_first h
      in set_prev new_first head h)"

definition list_cut_position :: "addr \<Rightarrow> addr \<Rightarrow> addr \<Rightarrow> lheap \<Rightarrow> lheap" where
  "list_cut_position list head entry h =
     (if list_empty head h then h
      else if list_is_singular head h \<and> (l_next (h head) \<noteq> entry \<and> head \<noteq> entry) then h
      else if entry = head then INIT_LIST_HEAD list h
      else list_cut_between list head entry h)"

text \<open>\<open>__list_splice(list, prev, next)\<close>\<close>

definition list_splice_between :: "addr \<Rightarrow> addr \<Rightarrow> addr \<Rightarrow> lheap \<Rightarrow> lheap" where
  "list_splice_between list prv nxt h =
     (let first = l_next (h list);
          last = l_prev (h list);
          h = set_prev first prv h;
          h = set_next prv first h;
          h = set_next last nxt h
      in set_prev nxt last h)"

definition list_splice :: "addr \<Rightarrow> addr \<Rightarrow> lheap \<Rightarrow> lheap" where
  "list_splice list head h =
     (if \<not> list_empty list h then list_splice_between list head (l_next (h head)) h else h)"

definition list_splice_tail :: "addr \<Rightarrow> addr \<Rightarrow> lheap \<Rightarrow> lheap" where
  "list_splice_tail list head h =
     (if \<not> list_empty list h then list_splice_between list (l_prev (h head)) head h else h)"

definition list_splice_init :: "addr \<Rightarrow> addr \<Rightarrow> lheap \<Rightarrow> lheap" where
  "list_splice_init list head h =
     (if \<not> list_empty list h
      then INIT_LIST_HEAD list (list_splice_between list head (l_next (h head)) h) else h)"

definition list_splice_tail_init :: "addr \<Rightarrow> addr \<Rightarrow> lheap \<Rightarrow> lheap" where
  "list_splice_tail_init list head h =
     (if \<not> list_empty list h
      then INIT_LIST_HEAD list (list_splice_between list (l_prev (h head)) head h) else h)"

definition list_first_entry :: "addr \<Rightarrow> lheap \<Rightarrow> addr" where
  "list_first_entry head h = l_next (h head)"

definition list_last_entry :: "addr \<Rightarrow> lheap \<Rightarrow> addr" where
  "list_last_entry head h = l_prev (h head)"

text \<open>
  The loop \<open>for (pos = head->next; pos != head; pos = pos->next)\<close>, as the list of entries it
  visits; a walk that never comes back to the head does not return.
\<close>

partial_function (option) list_for_each_from :: "lheap \<Rightarrow> addr \<Rightarrow> addr \<Rightarrow> addr list option" where
  "list_for_each_from h head pos =
     (if pos = head then Some []
      else Option.bind (list_for_each_from h head (l_next (h pos))) (\<lambda>r. Some (pos # r)))"

definition list_for_each :: "lheap \<Rightarrow> addr \<Rightarrow> addr list option" where
  "list_for_each h head = list_for_each_from h head (l_next (h head))"

text \<open>
  The loop \<open>while (!list_empty(head)) { e = list_first_entry(head); list_del(e); ... }\<close> with which
  the server empties a list, as the entries it takes, in order, and the final heap.
\<close>

partial_function (option) list_drain :: "addr \<Rightarrow> lheap \<Rightarrow> (addr list \<times> lheap) option" where
  "list_drain head h =
     (if list_empty head h then Some ([], h)
      else Option.bind (list_drain head (list_del (list_first_entry head h) h))
             (\<lambda>r. Some (list_first_entry head h # fst r, snd r)))"

subsection \<open>Abstraction\<close>

fun links :: "lheap \<Rightarrow> addr list \<Rightarrow> bool" where
  "links h (a # b # r) \<longleftrightarrow> l_next (h a) = b \<and> l_prev (h b) = a \<and> links h (b # r)"
| "links h _ \<longleftrightarrow> True"

definition ring :: "lheap \<Rightarrow> addr \<Rightarrow> addr list \<Rightarrow> bool" where
  "ring h hn xs \<longleftrightarrow> distinct (hn # xs) \<and> links h (hn # xs @ [hn])"

lemma set_next_simps [simp]:
  "l_next (set_next a b h x) = (if x = a then b else l_next (h x))"
  "l_prev (set_next a b h x) = l_prev (h x)"
  by (simp_all add: set_next_def)

lemma set_prev_simps [simp]:
  "l_prev (set_prev a b h x) = (if x = a then b else l_prev (h x))"
  "l_next (set_prev a b h x) = l_next (h x)"
  by (simp_all add: set_prev_def)

lemma links_append:
  "links h (us @ a # vs) \<longleftrightarrow> links h (us @ [a]) \<and> links h (a # vs)"
proof (induction us)
  case (Cons u us)
  then show ?case by (cases us) auto
qed simp

lemma links_cong:
  assumes "\<And>x. x \<in> set (butlast xs) \<Longrightarrow> l_next (h' x) = l_next (h x)"
    and "\<And>x. x \<in> set (tl xs) \<Longrightarrow> l_prev (h' x) = l_prev (h x)"
  shows "links h' xs \<longleftrightarrow> links h xs"
  using assms
proof (induction h xs rule: links.induct)
  case (1 h a b r)
  then show ?case by (cases r) auto
qed auto

text \<open>A list is determined by the fields of its own nodes: operations elsewhere keep it.\<close>

lemma ring_frame:
  assumes "\<And>x. x \<in> set (hn # xs) \<Longrightarrow> h' x = h x"
  shows "ring h' hn xs \<longleftrightarrow> ring h hn xs"
  unfolding ring_def
  using links_cong [of "hn # xs @ [hn]" h' h] assms by (auto simp: butlast_append)

lemma ring_distinct: "ring h hn xs \<Longrightarrow> distinct (hn # xs)"
  by (simp add: ring_def)

lemma links_next: "links h (a # b # r) \<Longrightarrow> l_next (h a) = b \<and> l_prev (h b) = a"
  by simp

lemma ring_ends:
  assumes "ring h hn xs"
  shows "l_next (h hn) = (case xs of [] \<Rightarrow> hn | x # _ \<Rightarrow> x)"
    and "l_prev (h hn) = (if xs = [] then hn else last xs)"
proof -
  show "l_next (h hn) = (case xs of [] \<Rightarrow> hn | x # _ \<Rightarrow> x)"
    using assms by (cases xs) (auto simp: ring_def)
  show "l_prev (h hn) = (if xs = [] then hn else last xs)"
  proof (cases xs rule: rev_cases)
    case Nil
    then show ?thesis using assms by (simp add: ring_def)
  next
    case (snoc ys y)
    then have "links h ((hn # ys) @ y # [hn])" using assms by (simp add: ring_def)
    then show ?thesis using snoc links_append [of h "hn # ys" y "[hn]"] by simp
  qed
qed

lemma ring_mid:
  assumes "ring h hn (us @ e # vs)"
  shows "l_prev (h e) = (if us = [] then hn else last us)"
    and "l_next (h e) = (case vs of [] \<Rightarrow> hn | v # _ \<Rightarrow> v)"
proof -
  have l: "links h ((hn # us) @ e # (vs @ [hn]))" using assms by (simp add: ring_def)
  then have 1: "links h ((hn # us) @ [e])" and 2: "links h (e # vs @ [hn])"
    using links_append [of h "hn # us" e "vs @ [hn]"] by simp_all
  show "l_next (h e) = (case vs of [] \<Rightarrow> hn | v # _ \<Rightarrow> v)"
    using 2 by (cases vs) auto
  show "l_prev (h e) = (if us = [] then hn else last us)"
  proof (cases us rule: rev_cases)
    case Nil
    then show ?thesis using 1 by simp
  next
    case (snoc ys y)
    then have "links h ((hn # ys) @ y # [e])" using 1 by simp
    then show ?thesis using snoc links_append [of h "hn # ys" y "[e]"] by simp
  qed
qed

subsection \<open>Joining two chains\<close>

text \<open>
  Every operation cuts the ring into chains and joins chains by one assignment of \<open>next\<close> and one
  of \<open>prev\<close>.
\<close>

lemma ring_split:
  assumes "ring h hn (us @ vs)"
  shows "links h (hn # us)" and "links h (vs @ [hn])"
proof -
  show "links h (hn # us)"
  proof (cases us rule: rev_cases)
    case (snoc ys y)
    then show ?thesis
      using assms links_append [of h "hn # ys" y "vs @ [hn]"] by (simp add: ring_def)
  qed simp
  show "links h (vs @ [hn])"
  proof (cases vs)
    case (Cons y ys)
    then show ?thesis
      using assms links_append [of h "hn # us" y "ys @ [hn]"] by (simp add: ring_def)
  qed simp
qed

lemma last_notin_butlast: "distinct xs \<Longrightarrow> xs \<noteq> [] \<Longrightarrow> last xs \<notin> set (butlast xs)"
  by (cases xs rule: rev_cases) auto

lemma hd_notin_tl: "distinct xs \<Longrightarrow> xs \<noteq> [] \<Longrightarrow> hd xs \<notin> set (tl xs)"
  by (cases xs) auto

lemma links_bridge:
  assumes "links h xs" and "links h ys" and "xs \<noteq> []" and "ys \<noteq> []"
    and "l_next (h (last xs)) = hd ys" and "l_prev (h (hd ys)) = last xs"
  shows "links h (xs @ ys)"
proof -
  obtain us p where xs: "xs = us @ [p]" using assms(3) by (cases xs rule: rev_cases) auto
  obtain n vs where ys: "ys = n # vs" using assms(4) by (cases ys) auto
  show ?thesis
    using assms links_append [of h us p "n # vs"] by (simp add: xs ys)
qed

text \<open>Putting a segment \<open>ys\<close> between \<open>us\<close> and \<open>vs\<close>.\<close>

lemma ring_put:
  assumes r: "ring h hn (us @ vs)" and ys: "links h' ys" "ys \<noteq> []" "distinct ys"
    and dj: "set ys \<inter> set (hn # us @ vs) = {}"
    and pn: "l_next (h' (last (hn # us))) = hd ys" "l_prev (h' (hd ys)) = last (hn # us)"
    and nn: "l_next (h' (last ys)) = hd (vs @ [hn])" "l_prev (h' (hd (vs @ [hn]))) = last ys"
    and fn: "\<And>x. x \<noteq> last (hn # us) \<Longrightarrow> x \<notin> set ys \<Longrightarrow> l_next (h' x) = l_next (h x)"
    and fp: "\<And>x. x \<noteq> hd (vs @ [hn]) \<Longrightarrow> x \<notin> set ys \<Longrightarrow> l_prev (h' x) = l_prev (h x)"
  shows "ring h' hn (us @ ys @ vs)"
proof -
  have d: "distinct (hn # us @ vs)" using r by (simp add: ring_def)
  have lp: "last (hn # us) \<notin> set (butlast (hn # us))" "last (hn # us) \<notin> set vs"
    using d last_notin_butlast [of "hn # us"] by (auto simp: disjoint_iff)
  have ln: "hd (vs @ [hn]) \<notin> set us" "hd (vs @ [hn]) \<notin> set (tl (vs @ [hn]))"
    using d hd_notin_tl [of "vs @ [hn]"] by (auto simp: hd_append)
  have "links h' (hn # us)"
  proof (rule links_cong [THEN iffD2, OF _ _ ring_split(1) [OF r]])
    fix x assume x: "x \<in> set (butlast (hn # us))"
    then have "x \<notin> set ys" using dj in_set_butlastD [OF x] by auto
    with x lp show "l_next (h' x) = l_next (h x)" by (intro fn) blast+
  next
    fix x assume "x \<in> set (tl (hn # us))"
    then show "l_prev (h' x) = l_prev (h x)" using dj ln by (intro fp) auto
  qed
  moreover have "links h' (vs @ [hn])"
  proof (rule links_cong [THEN iffD2, OF _ _ ring_split(2) [OF r]])
    fix x assume "x \<in> set (butlast (vs @ [hn]))"
    then show "l_next (h' x) = l_next (h x)" using dj lp by (intro fn) auto
  next
    fix x assume x: "x \<in> set (tl (vs @ [hn]))"
    then have "x \<notin> set ys" using dj list.set_sel(2) [of "vs @ [hn]" x] by auto
    with x ln show "l_prev (h' x) = l_prev (h x)" by (intro fp) blast+
  qed
  moreover from this have "links h' (ys @ (vs @ [hn]))"
    using ys nn by (intro links_bridge [OF ys(1)]) simp_all
  ultimately have "links h' ((hn # us) @ (ys @ vs @ [hn]))"
    using ys pn by (intro links_bridge [of h' "hn # us"]) simp_all
  then show ?thesis using d ys dj by (auto simp: ring_def)
qed

text \<open>Taking the entry \<open>e\<close> out.\<close>

lemma ring_drop:
  assumes r: "ring h hn (us @ e # vs)"
    and pn: "l_next (h' (last (hn # us))) = hd (vs @ [hn])"
      "l_prev (h' (hd (vs @ [hn]))) = last (hn # us)"
    and fn: "\<And>x. x \<noteq> last (hn # us) \<Longrightarrow> x \<noteq> e \<Longrightarrow> l_next (h' x) = l_next (h x)"
    and fp: "\<And>x. x \<noteq> hd (vs @ [hn]) \<Longrightarrow> x \<noteq> e \<Longrightarrow> l_prev (h' x) = l_prev (h x)"
  shows "ring h' hn (us @ vs)"
proof -
  have d: "distinct (hn # us @ e # vs)" using r by (simp add: ring_def)
  have lp: "last (hn # us) \<notin> set (butlast (hn # us))" "last (hn # us) \<notin> set vs"
    using d last_notin_butlast [of "hn # us"] by (auto simp: disjoint_iff)
  have ln: "hd (vs @ [hn]) \<notin> set us" "hd (vs @ [hn]) \<notin> set (tl (vs @ [hn]))"
    using d hd_notin_tl [of "vs @ [hn]"] by (auto simp: hd_append)
  have r': "ring h hn ((us @ [e]) @ vs)" using r by simp
  have "links h' (hn # us)"
  proof (rule links_cong [THEN iffD2, OF _ _ ring_split(1) [OF r]])
    fix x assume x: "x \<in> set (butlast (hn # us))"
    then have "x \<noteq> e" using d in_set_butlastD [OF x] by auto
    with x lp show "l_next (h' x) = l_next (h x)" by (intro fn) blast+
  next
    fix x assume "x \<in> set (tl (hn # us))"
    then show "l_prev (h' x) = l_prev (h x)" using d ln by (intro fp) auto
  qed
  moreover have "links h' (vs @ [hn])"
  proof (rule links_cong [THEN iffD2, OF _ _ ring_split(2) [OF r']])
    fix x assume "x \<in> set (butlast (vs @ [hn]))"
    then show "l_next (h' x) = l_next (h x)" using d lp by (intro fn) auto
  next
    fix x assume x: "x \<in> set (tl (vs @ [hn]))"
    then have "x \<noteq> e" using d list.set_sel(2) [of "vs @ [hn]" x] by auto
    with x ln show "l_prev (h' x) = l_prev (h x)" by (intro fp) blast+
  qed
  ultimately have "links h' ((hn # us) @ vs @ [hn])"
    using pn by (intro links_bridge [of h' "hn # us"]) simp_all
  then show ?thesis using d by (auto simp: ring_def)
qed

subsection \<open>The operations on the abstraction\<close>

lemma ring_INIT: "ring (INIT_LIST_HEAD hn h) hn []"
  by (simp add: ring_def INIT_LIST_HEAD_def)

lemma ring_add_between:
  assumes "ring h hn (us @ vs)" and "new \<notin> set (hn # us @ vs)"
  shows "ring (list_add_between new (last (hn # us)) (hd (vs @ [hn])) h) hn (us @ new # vs)"
proof -
  have ne: "last (hn # us) \<noteq> new" "hd (vs @ [hn]) \<noteq> new"
    using assms(2) last_in_set [of us] by (auto simp: hd_append split: if_splits)
  show ?thesis
    using ring_put [of h hn us vs
        "list_add_between new (last (hn # us)) (hd (vs @ [hn])) h" "[new]"] assms ne
    by (simp add: list_add_between_def Let_def)
qed

lemma ring_add:
  assumes "ring h hn xs" and "new \<notin> set (hn # xs)"
  shows "ring (list_add new hn h) hn (new # xs)"
proof -
  have "l_next (h hn) = hd (xs @ [hn])"
    using ring_ends(1) [OF assms(1)] by (simp split: list.splits)
  then show ?thesis
    using ring_add_between [of h hn "[]" xs new] assms by (simp add: list_add_def)
qed

lemma ring_add_tail:
  assumes "ring h hn xs" and "new \<notin> set (hn # xs)"
  shows "ring (list_add_tail new hn h) hn (xs @ [new])"
  using ring_add_between [of h hn xs "[]" new] assms ring_ends(2) [OF assms(1)]
  by (simp add: list_add_tail_def)

lemma ring_neighbours:
  assumes "ring h hn (us @ e # vs)"
  shows "l_prev (h e) = last (hn # us)" and "l_next (h e) = hd (vs @ [hn])"
  using ring_mid [OF assms] by (auto split: list.splits)

lemma ring_del_entry:
  assumes "ring h hn (us @ e # vs)"
  shows "ring (list_del_entry e h) hn (us @ vs)"
  by (rule ring_drop [OF assms])
    (simp_all add: list_del_entry_def list_del_between_def ring_neighbours [OF assms])

lemma list_del_entry_frame:
  assumes "ring h hn (us @ e # vs)" and "x \<notin> set (hn # us @ vs)"
  shows "list_del_entry e h x = h x"
proof -
  have "last (hn # us) \<noteq> x" "hd (vs @ [hn]) \<noteq> x"
    using assms(2) last_in_set [of us] by (auto simp: hd_append split: if_splits)
  then show ?thesis
    by (simp add: list_del_entry_def list_del_between_def ring_neighbours [OF assms(1)]
        set_next_def set_prev_def)
qed

lemma list_add_frame:
  assumes "ring h hn xs" and "x \<notin> set (new # hn # xs)"
  shows "list_add new hn h x = h x" and "list_add_tail new hn h x = h x"
  using assms ring_ends [OF assms(1)]
  by (auto simp: list_add_def list_add_tail_def list_add_between_def Let_def set_next_def
      set_prev_def split: list.splits)

lemma ring_other:
  assumes "ring h hn xs" and "x \<notin> set (hn # xs)" and "\<And>y. y \<noteq> x \<Longrightarrow> h' y = h y"
  shows "ring h' hn xs"
  using assms ring_frame [of hn xs h' h] by (metis (no_types, lifting))

lemma ring_del:
  assumes "ring h hn (us @ e # vs)"
  shows "ring (list_del e h) hn (us @ vs)"
  by (rule ring_other [OF ring_del_entry [OF assms], of e])
    (use ring_distinct [OF assms] in \<open>auto simp: list_del_def set_next_def set_prev_def\<close>)

lemma ring_del_init:
  assumes "ring h hn (us @ e # vs)"
  shows "ring (list_del_init e h) hn (us @ vs) \<and> ring (list_del_init e h) e []"
proof
  show "ring (list_del_init e h) hn (us @ vs)"
    by (rule ring_other [OF ring_del_entry [OF assms], of e])
      (use ring_distinct [OF assms] in
        \<open>auto simp: list_del_init_def INIT_LIST_HEAD_def set_next_def set_prev_def\<close>)
  show "ring (list_del_init e h) e []"
    by (simp add: list_del_init_def ring_INIT)
qed

lemma list_empty_iff: "ring h hn xs \<Longrightarrow> list_empty hn h \<longleftrightarrow> xs = []"
  using ring_ends(1) [of h hn xs] ring_distinct [of h hn xs]
  by (auto simp: list_empty_def split: list.splits)

lemma list_first_entry_hd: "ring h hn xs \<Longrightarrow> xs \<noteq> [] \<Longrightarrow> list_first_entry hn h = hd xs"
  using ring_ends(1) [of h hn xs] by (auto simp: list_first_entry_def split: list.splits)

lemma list_last_entry_last: "ring h hn xs \<Longrightarrow> xs \<noteq> [] \<Longrightarrow> list_last_entry hn h = last xs"
  using ring_ends(2) [of h hn xs] by (simp add: list_last_entry_def)

lemma list_is_singular_iff: "ring h hn xs \<Longrightarrow> list_is_singular hn h \<longleftrightarrow> length xs = 1"
proof -
  assume r: "ring h hn xs"
  show ?thesis
  proof (cases xs)
    case (Cons y ys)
    then show ?thesis
      using ring_ends [OF r] list_empty_iff [OF r] ring_distinct [OF r] last_in_set [of ys]
      by (auto simp: list_is_singular_def)
  qed (use list_empty_iff [OF r] in \<open>simp add: list_is_singular_def\<close>)
qed

lemma list_is_last_iff:
  "ring h hn (us @ e # vs) \<Longrightarrow> list_is_last e hn h \<longleftrightarrow> vs = []"
  using ring_neighbours(2) [of h hn us e vs] ring_distinct [of h hn "us @ e # vs"]
  by (auto simp: list_is_last_def hd_append split: if_splits)

lemma list_for_each_from_links:
  assumes "links h (pos # xs @ [hn])" and "hn \<notin> set (pos # xs)"
  shows "list_for_each_from h hn pos = Some (pos # xs)"
  using assms
proof (induction xs arbitrary: pos)
  case Nil
  then show ?case by (simp add: list_for_each_from.simps)
next
  case (Cons y ys)
  then show ?case by (auto simp: list_for_each_from.simps [of h hn pos])
qed

lemma list_for_each_ring: "ring h hn xs \<Longrightarrow> list_for_each h hn = Some xs"
proof (cases xs)
  case Nil
  assume "ring h hn xs"
  then show ?thesis using Nil
    by (simp add: ring_def list_for_each_def list_for_each_from.simps)
next
  case (Cons y ys)
  assume "ring h hn xs"
  then show ?thesis
    using Cons list_for_each_from_links [of h y ys hn] by (auto simp: ring_def list_for_each_def)
qed

text \<open>Moving an entry to the same list or to another one.\<close>

lemma ring_move_same:
  assumes "ring h hn (us @ e # vs)"
  shows "ring (list_move e hn h) hn (e # us @ vs)"
    and "ring (list_move_tail e hn h) hn (us @ vs @ [e])"
  using ring_add [OF ring_del_entry [OF assms], of e]
    ring_add_tail [OF ring_del_entry [OF assms], of e] ring_distinct [OF assms]
  by (auto simp: list_move_def list_move_tail_def)

lemma ring_move_other:
  assumes r: "ring h hn (us @ e # vs)" and r2: "ring h hn2 ys"
    and dj: "set (hn # us @ e # vs) \<inter> set (hn2 # ys) = {}"
  shows "ring (list_move e hn2 h) hn (us @ vs) \<and> ring (list_move e hn2 h) hn2 (e # ys)"
    and "ring (list_move_tail e hn2 h) hn (us @ vs) \<and> ring (list_move_tail e hn2 h) hn2 (ys @ [e])"
proof -
  let ?h = "list_del_entry e h"
  have 1: "ring ?h hn (us @ vs)" by (rule ring_del_entry [OF r])
  have 2: "ring ?h hn2 ys"
    using r2 dj by (subst ring_frame [of hn2 ys ?h h]) (auto intro!: list_del_entry_frame [OF r])
  have e: "e \<notin> set (hn2 # ys)" "e \<notin> set (hn # us @ vs)"
    using dj ring_distinct [OF r] by auto
  show "ring (list_move e hn2 h) hn (us @ vs) \<and> ring (list_move e hn2 h) hn2 (e # ys)"
    unfolding list_move_def
    using ring_add [OF 2 e(1)] 1 dj e
    by (subst ring_frame [of hn "us @ vs" _ ?h]) (auto intro!: list_add_frame [OF 2])
  show "ring (list_move_tail e hn2 h) hn (us @ vs) \<and> ring (list_move_tail e hn2 h) hn2 (ys @ [e])"
    unfolding list_move_tail_def
    using ring_add_tail [OF 2 e(1)] 1 dj e
    by (subst ring_frame [of hn "us @ vs" _ ?h]) (auto intro!: list_add_frame [OF 2])
qed

lemma ring_rotate_left:
  assumes "ring h hn xs"
  shows "ring (list_rotate_left hn h) hn (rotate1 xs)"
proof (cases xs)
  case Nil
  then show ?thesis using assms list_empty_iff [OF assms] by (simp add: list_rotate_left_def)
next
  case (Cons y ys)
  then show ?thesis
    using assms list_empty_iff [OF assms] ring_ends(1) [OF assms]
      ring_move_same(2) [of h hn "[]" y ys]
    by (simp add: list_rotate_left_def)
qed

subsection \<open>Splicing one list into another\<close>

lemma ring_links_body: "ring h hn xs \<Longrightarrow> links h xs"
proof (cases xs)
  case (Cons y ys)
  assume "ring h hn xs"
  then have "links h (hn # xs)" using ring_split(1) [of h hn xs "[]"] by simp
  then show ?thesis using Cons by simp
qed simp

lemma ring_splice_between:
  assumes r: "ring h hn (us @ vs)" and rl: "ring h hl ys" and ne: "ys \<noteq> []"
    and dj: "set (hl # ys) \<inter> set (hn # us @ vs) = {}"
  shows "ring (list_splice_between hl (last (hn # us)) (hd (vs @ [hn])) h) hn (us @ ys @ vs)"
proof -
  let ?p = "last (hn # us)" and ?n = "hd (vs @ [hn])"
  let ?h = "list_splice_between hl ?p ?n h"
  have fl: "l_next (h hl) = hd ys" "l_prev (h hl) = last ys"
    using ring_ends [OF rl] ne by (auto split: list.splits)
  have pn: "?p \<in> set (hn # us)" "?n \<in> set (hn # vs)"
    by (auto simp: hd_append)
  then have neq: "?p \<notin> set ys" "?n \<notin> set ys" using dj by auto
  have in_ys: "hd ys \<in> set ys" "last ys \<in> set ys" using ne by simp_all
  have dy: "distinct ys" using rl by (simp add: ring_def)
  have ly: "links ?h ys"
  proof (rule links_cong [THEN iffD2, OF _ _ ring_links_body [OF rl]])
    fix x assume x: "x \<in> set (butlast ys)"
    then have "x \<noteq> last ys" "x \<noteq> ?p"
      using last_notin_butlast [OF dy ne] in_set_butlastD [OF x] neq by auto
    then show "l_next (?h x) = l_next (h x)" by (simp add: list_splice_between_def Let_def fl)
  next
    fix x assume x: "x \<in> set (tl ys)"
    then have "x \<noteq> hd ys" "x \<noteq> ?n"
      using hd_notin_tl [OF dy ne] list.set_sel(2) [OF ne x] neq by auto
    then show "l_prev (?h x) = l_prev (h x)" by (simp add: list_splice_between_def Let_def fl)
  qed
  show ?thesis
  proof (rule ring_put [OF r ly ne dy])
    show "set ys \<inter> set (hn # us @ vs) = {}" using dj by auto
  qed (use neq in_ys in \<open>auto simp: list_splice_between_def Let_def fl\<close>)
qed

lemma ring_INIT_other:
  assumes "ring h hn xs" and "hl \<notin> set (hn # xs)"
  shows "ring (INIT_LIST_HEAD hl h) hn xs"
  by (rule ring_other [OF assms]) (simp add: INIT_LIST_HEAD_def set_next_def set_prev_def)

text \<open>
  \<open>list_splice_init\<close> and its variants move all entries of \<open>hl\<close> to the front or the back of \<open>hn\<close>.
\<close>

lemma ring_splice:
  assumes r: "ring h hn xs" and rl: "ring h hl ys" and dj: "set (hl # ys) \<inter> set (hn # xs) = {}"
  shows "ring (list_splice hl hn h) hn (ys @ xs)"
    and "ring (list_splice_tail hl hn h) hn (xs @ ys)"
    and "ring (list_splice_init hl hn h) hn (ys @ xs) \<and> ring (list_splice_init hl hn h) hl []"
    and "ring (list_splice_tail_init hl hn h) hn (xs @ ys) \<and> ring (list_splice_tail_init hl hn h) hl []"
proof -
  have n: "l_next (h hn) = hd (xs @ [hn])" and p: "l_prev (h hn) = last (hn # xs)"
    using ring_ends [OF r] by (auto split: list.splits)
  have e: "list_empty hl h \<longleftrightarrow> ys = []" by (rule list_empty_iff [OF rl])
  have hl: "hl \<notin> set (hn # ys @ xs)" "hl \<notin> set (hn # xs @ ys)"
    using dj ring_distinct [OF rl] by auto
  have front: "ring (list_splice hl hn h) hn (ys @ xs)"
    using r rl dj e ring_splice_between [of h hn "[]" xs hl ys] by (auto simp: list_splice_def n)
  have rear: "ring (list_splice_tail hl hn h) hn (xs @ ys)"
    using r rl dj e ring_splice_between [of h hn xs "[]" hl ys]
    by (auto simp: list_splice_tail_def p)
  show "ring (list_splice hl hn h) hn (ys @ xs)" by (rule front)
  show "ring (list_splice_tail hl hn h) hn (xs @ ys)" by (rule rear)
  show "ring (list_splice_init hl hn h) hn (ys @ xs) \<and> ring (list_splice_init hl hn h) hl []"
    using ring_INIT_other [OF front hl(1)] ring_INIT r rl e
    by (auto simp: list_splice_init_def list_splice_def split: if_splits)
  show "ring (list_splice_tail_init hl hn h) hn (xs @ ys) \<and>
      ring (list_splice_tail_init hl hn h) hl []"
    using ring_INIT_other [OF rear hl(2)] ring_INIT r rl e
    by (auto simp: list_splice_tail_init_def list_splice_tail_def split: if_splits)
qed

subsection \<open>Replacing an entry, cutting a list in two\<close>

lemma ring_replace:
  assumes r: "ring h hn (us @ old # vs)" and new: "new \<notin> set (hn # us @ old # vs)"
  shows "ring (list_replace old new h) hn (us @ new # vs)"
    and "ring (list_replace_init old new h) hn (us @ new # vs) \<and>
      ring (list_replace_init old new h) old []"
proof -
  let ?p = "last (hn # us)" and ?n = "hd (vs @ [hn])" and ?h1 = "list_del_entry old h"
  have pn: "?p \<in> set (hn # us)" "?n \<in> set (hn # vs)"
    by (auto simp: hd_append)
  then have ne: "?p \<noteq> new" "?n \<noteq> new" "?p \<noteq> old" "?n \<noteq> old" "old \<noteq> new"
    using new ring_distinct [OF r] by auto
  note nb = ring_neighbours [OF r]
  have 1: "ring (list_replace old new h) hn (us @ [new] @ vs)"
    by (rule ring_put [OF ring_del_entry [OF r], of "list_replace old new h" "[new]"])
      (use new ne in \<open>simp_all add: list_replace_def Let_def nb list_del_entry_def
        list_del_between_def\<close>)
  then show "ring (list_replace old new h) hn (us @ new # vs)" by simp
  show "ring (list_replace_init old new h) hn (us @ new # vs) \<and>
      ring (list_replace_init old new h) old []"
    using 1 ring_INIT_other [of _ hn "us @ new # vs" old] ring_INIT ne(5) ring_distinct [OF r]
    by (auto simp: list_replace_init_def)
qed

lemma ring_body_iff:
  assumes "xs \<noteq> []"
  shows "ring h hn xs \<longleftrightarrow> distinct (hn # xs) \<and> links h xs \<and> l_next (h hn) = hd xs \<and>
    l_prev (h (hd xs)) = hn \<and> l_next (h (last xs)) = hn \<and> l_prev (h hn) = last xs" (is "?L \<longleftrightarrow> ?R")
proof
  assume r: ?L
  obtain us y where xs: "xs = us @ [y]" using assms by (cases xs rule: rev_cases) auto
  obtain x vs where xs': "xs = x # vs" using assms by (cases xs) auto
  have "l_prev (h (hd xs)) = hn" "l_next (h hn) = hd xs"
    using r ring_neighbours(1) [of h hn "[]" x vs] ring_ends(1) [OF r] by (simp_all add: xs')
  moreover have "l_next (h (last xs)) = hn" "l_prev (h hn) = last xs"
    using r ring_neighbours(2) [of h hn us y "[]"] ring_ends(2) [OF r] by (simp_all add: xs)
  ultimately show ?R
    using ring_distinct [OF r] ring_links_body [OF r] by blast
next
  assume R: ?R
  then have "links h (xs @ [hn])" using assms by (intro links_bridge) simp_all
  then have "links h ([hn] @ (xs @ [hn]))" using R assms by (intro links_bridge) simp_all
  then show ?L using R by (simp add: ring_def)
qed

lemma ring_cut_between:
  assumes r: "ring h hn (us @ e # vs)" and hl: "hl \<notin> set (hn # us @ e # vs)"
  shows "ring (list_cut_between hl hn e h) hl (us @ [e]) \<and> ring (list_cut_between hl hn e h) hn vs"
proof
  let ?h = "list_cut_between hl hn e h"
  obtain f where f: "f = hd (us @ [e])" by blast
  obtain m where m: "m = hd (vs @ [hn])" by blast
  have d: "distinct (hn # us @ e # vs)" by (rule ring_distinct [OF r])
  have fX: "l_next (h hn) = f"
    using ring_ends(1) [OF r] f by (cases us) auto
  have nf: "l_next (h e) = m" using ring_neighbours(2) [OF r] m by simp
  have in_sets: "f \<in> set (us @ [e])" "m \<in> set (hn # vs)" using f m by (auto simp: hd_append)
  then have ne: "f \<noteq> hn" "f \<noteq> hl" "m \<noteq> hl" "m \<noteq> f" "e \<noteq> hn" "e \<noteq> hl" "hl \<noteq> hn" "m \<noteq> e"
    "m \<notin> set us" "f \<notin> set vs" "m \<notin> set (tl vs)"
    using d hl m hd_notin_tl [of vs] list.set_sel(2) [of vs hn] by (auto simp: hd_append split: if_splits)
  have N: "l_next (?h x) = (if x = hn then m else if x = e then hl
      else if x = hl then f else l_next (h x))" for x
    using ne by (simp add: list_cut_between_def Let_def fX nf)
  have P: "l_prev (?h x) = (if x = m then hn else if x = hl then e
      else if x = f then hl else l_prev (h x))" for x
    using ne by (simp add: list_cut_between_def Let_def fX nf)
  have lX: "links h (us @ [e])" and lv: "links h vs"
  proof -
    have "links h (hn # us @ [e])" using ring_split(1) [of h hn "us @ [e]" vs] r by simp
    then show "links h (us @ [e])" by (cases us) auto
    have "links h (e # vs)"
      using ring_links_body [OF r] links_append [of h us e vs] by simp
    then show "links h vs" by (cases vs) auto
  qed
  have "links ?h (us @ [e])"
  proof (rule links_cong [THEN iffD2, OF _ _ lX])
    fix x assume "x \<in> set (butlast (us @ [e]))"
    then show "l_next (?h x) = l_next (h x)" using d hl by (auto simp: N)
  next
    fix x assume x: "x \<in> set (tl (us @ [e]))"
    then have "x \<in> set (us @ [e])" "x \<noteq> f"
      using d f hd_notin_tl [of "us @ [e]"] list.set_sel(2) [of "us @ [e]" x] by auto
    then show "l_prev (?h x) = l_prev (h x)" using hl ne by (auto simp: P)
  qed
  moreover have "distinct (hl # us @ [e])" using d hl by auto
  moreover have "l_next (?h hl) = f" "l_prev (?h f) = hl" "l_next (?h e) = hl" "l_prev (?h hl) = e"
    using ne by (simp_all add: N P)
  ultimately show "ring ?h hl (us @ [e])"
    by (subst ring_body_iff) (simp_all add: f [symmetric])
  show "ring ?h hn vs"
  proof (cases "vs = []")
    case True
    then show ?thesis using m by (simp add: ring_def N P)
  next
    case False
    then have m': "m = hd vs" using m by simp
    have "links ?h vs"
    proof (rule links_cong [THEN iffD2, OF _ _ lv])
      fix x assume "x \<in> set (butlast vs)"
      then have "x \<in> set vs" by (rule in_set_butlastD)
      then show "l_next (?h x) = l_next (h x)" using d hl by (auto simp: N)
    next
      fix x assume x: "x \<in> set (tl vs)"
      then have "x \<in> set vs" using False list.set_sel(2) [of vs x] by simp
      with x show "l_prev (?h x) = l_prev (h x)" using d hl ne by (auto simp: P)
    qed
    moreover have "l_next (h (last vs)) = hn" "l_prev (h hn) = last vs"
      using r False ring_body_iff [of "us @ e # vs" h hn] by simp_all
    moreover have "last vs \<noteq> hn" "last vs \<noteq> e" "last vs \<noteq> hl" "m \<noteq> hn"
      using d hl False last_in_set [of vs] hd_in_set [of vs] m' by auto
    ultimately have "l_next (?h hn) = hd vs" "l_prev (?h (hd vs)) = hn"
      "l_next (?h (last vs)) = hn" "l_prev (?h hn) = last vs" "links ?h vs"
      using ne m' by (simp_all add: N P)
    then show ?thesis using d False by (subst ring_body_iff) simp_all
  qed
qed

lemma ring_cut_position:
  assumes r: "ring h hn (us @ e # vs)" and hl: "hl \<notin> set (hn # us @ e # vs)"
  shows "ring (list_cut_position hl hn e h) hl (us @ [e]) \<and> ring (list_cut_position hl hn e h) hn vs"
proof -
  have "\<not> list_empty hn h" using list_empty_iff [OF r] by simp
  moreover have "list_is_singular hn h \<Longrightarrow> l_next (h hn) = e"
    using list_is_singular_iff [OF r] ring_ends(1) [OF r] by (cases us) auto
  moreover have "e \<noteq> hn" using ring_distinct [OF r] by auto
  ultimately have "list_cut_position hl hn e h = list_cut_between hl hn e h"
    by (auto simp: list_cut_position_def)
  then show ?thesis using ring_cut_between [OF r hl] by simp
qed

section \<open>The queue contract\<close>

text \<open>
  What the clients of the header rely on when they use a list as a queue: entries are appended
  at the back, and the front entry is looked at and unlinked. The clients' argument (entries
  come out in the order they went in, none lost, none twice) is made once, here.
\<close>

locale intrusive_queue =
  fixes repr :: "'h \<Rightarrow> 'a \<Rightarrow> 'a list \<Rightarrow> bool"
    and init :: "'a \<Rightarrow> 'h \<Rightarrow> 'h"
    and push_back :: "'a \<Rightarrow> 'a \<Rightarrow> 'h \<Rightarrow> 'h"
    and unlink :: "'a \<Rightarrow> 'h \<Rightarrow> 'h"
    and is_empty :: "'a \<Rightarrow> 'h \<Rightarrow> bool"
    and front :: "'a \<Rightarrow> 'h \<Rightarrow> 'a"
  assumes repr_init: "repr (init hn h) hn []"
    and repr_push_back: "repr h hn xs \<Longrightarrow> x \<notin> set (hn # xs) \<Longrightarrow> repr (push_back x hn h) hn (xs @ [x])"
    and repr_unlink: "repr h hn (x # xs) \<Longrightarrow> repr (unlink x h) hn xs"
    and repr_is_empty: "repr h hn xs \<Longrightarrow> is_empty hn h \<longleftrightarrow> xs = []"
    and repr_front: "repr h hn (x # xs) \<Longrightarrow> front hn h = x"
begin

lemma repr_push_all:
  assumes "repr h hn ys" and "distinct (hn # ys @ xs)"
  shows "repr (fold (\<lambda>x. push_back x hn) xs h) hn (ys @ xs)"
  using assms
proof (induction xs arbitrary: h ys)
  case (Cons x xs)
  then have "repr (push_back x hn h) hn (ys @ [x])" by (intro repr_push_back) auto
  then have "repr (fold (\<lambda>x. push_back x hn) xs (push_back x hn h)) hn ((ys @ [x]) @ xs)"
    using Cons.prems by (intro Cons.IH) auto
  then show ?case by simp
qed simp

primrec pops :: "nat \<Rightarrow> 'a \<Rightarrow> 'h \<Rightarrow> 'a list \<times> 'h" where
  "pops 0 hn h = ([], h)"
| "pops (Suc n) hn h =
     (let r = pops n hn (unlink (front hn h) h) in (front hn h # fst r, snd r))"

lemma pops_all: "repr h hn xs \<Longrightarrow> fst (pops (length xs) hn h) = xs \<and> repr (snd (pops (length xs) hn h)) hn []"
proof (induction xs arbitrary: h)
  case (Cons x xs)
  have "fst (pops (length xs) hn (unlink x h)) = xs \<and>
      repr (snd (pops (length xs) hn (unlink x h))) hn []"
    by (rule Cons.IH [OF repr_unlink [OF Cons.prems]])
  then show ?case using repr_front [OF Cons.prems] by (simp add: Let_def)
qed simp

lemma first_in_first_out:
  assumes "distinct (hn # xs)"
  shows "fst (pops (length xs) hn (fold (\<lambda>x. push_back x hn) xs (init hn h))) = xs \<and>
    repr (snd (pops (length xs) hn (fold (\<lambda>x. push_back x hn) xs (init hn h)))) hn []"
  using pops_all repr_push_all [OF repr_init, of hn xs h] assms by simp

end

interpretation circ: intrusive_queue ring INIT_LIST_HEAD list_add_tail list_del list_empty list_first_entry
proof unfold_locales
  show "ring h hn (x # xs) \<Longrightarrow> ring (list_del x h) hn xs" for h hn x xs
    using ring_del [of h hn "[]" x xs] by simp
  show "ring h hn (x # xs) \<Longrightarrow> list_first_entry hn h = x" for h hn x xs
    using list_first_entry_hd [of h hn "x # xs"] by simp
qed (auto simp: ring_INIT ring_add_tail list_empty_iff)

lemma list_drain_pops:
  "ring h hn xs \<Longrightarrow> list_drain hn h = Some (circ.pops (length xs) hn h)"
proof (induction xs arbitrary: h)
  case Nil
  then show ?case by (simp add: list_drain.simps circ.repr_is_empty)
next
  case (Cons x xs)
  have "\<not> list_empty hn h" "list_first_entry hn h = x"
    using circ.repr_is_empty [OF Cons.prems] circ.repr_front [OF Cons.prems] by simp_all
  then show ?case
    using Cons.IH [OF circ.repr_unlink [OF Cons.prems]]
    by (simp add: list_drain.simps [of hn h] Let_def)
qed

text \<open>(C23) Pointer-level queue: appending any distinct entries with \<open>list_add_tail\<close> to an initialised
  list and then emptying it with the \<open>list_empty\<close>/\<open>list_first_entry\<close>/\<open>list_del\<close> loop ends, takes
  every entry exactly once in the order of insertion, and leaves a well-formed empty list.\<close>

theorem list_queue_fifo:
  assumes "distinct (hn # xs)"
  shows "\<exists>h'. list_drain hn (fold (\<lambda>x. list_add_tail x hn) xs (INIT_LIST_HEAD hn h)) = Some (xs, h')
    \<and> ring h' hn []"
proof -
  let ?h = "fold (\<lambda>x. list_add_tail x hn) xs (INIT_LIST_HEAD hn h)"
  have "ring ?h hn xs"
    using circ.repr_push_all [OF circ.repr_init, of hn xs h] assms by simp
  from list_drain_pops [OF this] circ.first_in_first_out [OF assms, of h] show ?thesis
    by (metis prod.collapse)
qed

theorem list_queue_fifo_witness:
  "\<exists>h'. list_drain 100 (fold (\<lambda>x. list_add_tail x 100) [1, 2, 3]
      (INIT_LIST_HEAD 100 (\<lambda>_. \<lparr>l_next = 0, l_prev = 0\<rparr>))) = Some ([1, 2, 3], h') \<and> ring h' 100 []"
  using list_queue_fifo [of 100 "[1, 2, 3]" "\<lambda>_. \<lparr>l_next = 0, l_prev = 0\<rparr>"] by simp

text \<open>(C24) Moving a chunk between the allocation list and the list of chunks being written:
  \<open>list_move\<close> and \<open>list_move_tail\<close> take the entry out of the list that holds it, wherever it
  stands, and put it at the front, respectively the back, of the other list; both lists stay
  well formed and keep the order of all other entries.\<close>

theorem list_move_between:
  assumes "ring h a (us @ e # vs)" and "ring h b ys"
    and "set (a # us @ e # vs) \<inter> set (b # ys) = {}"
  shows "ring (list_move e b h) a (us @ vs) \<and> ring (list_move e b h) b (e # ys) \<and>
    ring (list_move_tail e b h) a (us @ vs) \<and> ring (list_move_tail e b h) b (ys @ [e])"
  using ring_move_other [OF assms] by blast

lemma ring_example:
  "ring (fold (\<lambda>x. list_add_tail x 100) [1, 2, 3] (INIT_LIST_HEAD 100 (INIT_LIST_HEAD 200 (\<lambda>_. \<lparr>l_next = 0, l_prev = 0\<rparr>))))
     100 [1, 2, 3] \<and>
   ring (fold (\<lambda>x. list_add_tail x 100) [1, 2, 3] (INIT_LIST_HEAD 100 (INIT_LIST_HEAD 200 (\<lambda>_. \<lparr>l_next = 0, l_prev = 0\<rparr>))))
     200 []"
  by (simp add: ring_def list_add_tail_def list_add_between_def INIT_LIST_HEAD_def Let_def)

theorem list_move_between_witness:
  "\<exists>h. ring h 100 ([1] @ 2 # [3]) \<and> ring h 200 [] \<and>
     ring (list_move 2 200 h) 100 [1, 3] \<and> ring (list_move 2 200 h) 200 [2]"
proof -
  let ?h = "fold (\<lambda>x. list_add_tail x 100) [1, 2, 3]
    (INIT_LIST_HEAD 100 (INIT_LIST_HEAD 200 (\<lambda>_. \<lparr>l_next = 0, l_prev = 0\<rparr>)))"
  have h: "ring ?h 100 ([1] @ 2 # [3])" "ring ?h 200 []"
    using ring_example by simp_all
  show ?thesis using h list_move_between [OF h] by auto
qed

end
