(* ===== verification/Spy_Hlist.thy ===== *)
theory Spy_Hlist
  imports Spy_List
begin

text \<open>
  The hash-bucket lists of \<^verbatim>\<open>chunkserver/spy_list.h\<close>: a head with a single pointer and nodes whose
  \<open>pprev\<close> is the address of the pointer that points to them, either the \<open>first\<close> field of the head
  or the \<open>next\<close> field of the preceding node.
\<close>

datatype hptr = Head_first addr | Node_next addr

record hlist_node =
  h_next :: "addr option"
  h_pprev :: "hptr option"

record hheap =
  hnodes :: "addr \<Rightarrow> hlist_node"
  hfirst :: "addr \<Rightarrow> addr option"

text \<open>Reading and writing through a \<open>struct hlist_node **\<close>.\<close>

fun load :: "hptr \<Rightarrow> hheap \<Rightarrow> addr option" where
  "load (Head_first a) h = hfirst h a"
| "load (Node_next a) h = h_next (hnodes h a)"

fun store :: "hptr \<Rightarrow> addr option \<Rightarrow> hheap \<Rightarrow> hheap" where
  "store (Head_first a) v h = h\<lparr>hfirst := (hfirst h)(a := v)\<rparr>"
| "store (Node_next a) v h = h\<lparr>hnodes := (hnodes h)(a := (hnodes h a)\<lparr>h_next := v\<rparr>)\<rparr>"

definition set_pprev :: "addr \<Rightarrow> hptr option \<Rightarrow> hheap \<Rightarrow> hheap" where
  "set_pprev a v h = h\<lparr>hnodes := (hnodes h)(a := (hnodes h a)\<lparr>h_pprev := v\<rparr>)\<rparr>"

definition INIT_HLIST_NODE :: "addr \<Rightarrow> hheap \<Rightarrow> hheap" where
  "INIT_HLIST_NODE n h = set_pprev n None (store (Node_next n) None h)"

definition hlist_unhashed :: "addr \<Rightarrow> hheap \<Rightarrow> bool" where
  "hlist_unhashed n h \<longleftrightarrow> h_pprev (hnodes h n) = None"

definition hlist_empty :: "addr \<Rightarrow> hheap \<Rightarrow> bool" where
  "hlist_empty hn h \<longleftrightarrow> hfirst h hn = None"

text \<open>\<open>__hlist_del(n)\<close>: \<open>*pprev = next; if (next) next->pprev = pprev\<close>. A null \<open>pprev\<close> is dereferenced.\<close>

definition hlist_unlink :: "addr \<Rightarrow> hheap \<Rightarrow> hheap option" where
  "hlist_unlink n h =
     (let nxt = h_next (hnodes h n); pprev = h_pprev (hnodes h n) in
      case pprev of
        None \<Rightarrow> None
      | Some q \<Rightarrow>
          (let h = store q nxt h in
           Some (case nxt of None \<Rightarrow> h | Some m \<Rightarrow> set_pprev m pprev h)))"

definition hlist_del :: "addr \<Rightarrow> hheap \<Rightarrow> hheap option" where
  "hlist_del n h =
     map_option (\<lambda>h. set_pprev n (Some (Node_next LIST_POISON2))
                  (store (Node_next n) (Some LIST_POISON1) h)) (hlist_unlink n h)"

definition hlist_del_init :: "addr \<Rightarrow> hheap \<Rightarrow> hheap option" where
  "hlist_del_init n h =
     (if \<not> hlist_unhashed n h then map_option (INIT_HLIST_NODE n) (hlist_unlink n h) else Some h)"

definition hlist_add_head :: "addr \<Rightarrow> addr \<Rightarrow> hheap \<Rightarrow> hheap" where
  "hlist_add_head n hn h =
     (let first = hfirst h hn;
          h = store (Node_next n) first h;
          h = (case first of None \<Rightarrow> h | Some f \<Rightarrow> set_pprev f (Some (Node_next n)) h);
          h = store (Head_first hn) (Some n) h
      in set_pprev n (Some (Head_first hn)) h)"

text \<open>\<open>next\<close> must be on a list: its \<open>pprev\<close> is dereferenced.\<close>

definition hlist_add_before :: "addr \<Rightarrow> addr \<Rightarrow> hheap \<Rightarrow> hheap option" where
  "hlist_add_before n nxt h =
     (let h = set_pprev n (h_pprev (hnodes h nxt)) h;
          h = store (Node_next n) (Some nxt) h;
          h = set_pprev nxt (Some (Node_next n)) h
      in map_option (\<lambda>q. store q (Some n) h) (h_pprev (hnodes h n)))"

definition hlist_add_after :: "addr \<Rightarrow> addr \<Rightarrow> hheap \<Rightarrow> hheap" where
  "hlist_add_after n nxt h =
     (let h = store (Node_next nxt) (h_next (hnodes h n)) h;
          h = store (Node_next n) (Some nxt) h;
          h = set_pprev nxt (Some (Node_next n)) h
      in case h_next (hnodes h nxt) of
           None \<Rightarrow> h
         | Some m \<Rightarrow> set_pprev m (Some (Node_next nxt)) h)"

definition hlist_add_fake :: "addr \<Rightarrow> hheap \<Rightarrow> hheap" where
  "hlist_add_fake n h = set_pprev n (Some (Node_next n)) h"

definition hlist_move_list :: "addr \<Rightarrow> addr \<Rightarrow> hheap \<Rightarrow> hheap" where
  "hlist_move_list old new h =
     (let h = store (Head_first new) (hfirst h old) h;
          h = (case hfirst h new of None \<Rightarrow> h | Some f \<Rightarrow> set_pprev f (Some (Head_first new)) h)
      in store (Head_first old) None h)"

text \<open>\<open>hlist_for_each_entry\<close>, as the list of nodes it visits.\<close>

partial_function (option) hlist_for_each_from :: "hheap \<Rightarrow> addr option \<Rightarrow> addr list option" where
  "hlist_for_each_from h pos =
     (case pos of None \<Rightarrow> Some []
      | Some a \<Rightarrow> Option.bind (hlist_for_each_from h (h_next (hnodes h a))) (\<lambda>r. Some (a # r)))"

definition hlist_for_each :: "hheap \<Rightarrow> addr \<Rightarrow> addr list option" where
  "hlist_for_each h hn = hlist_for_each_from h (hfirst h hn)"

section \<open>Abstraction\<close>

fun hlinks :: "hheap \<Rightarrow> hptr \<Rightarrow> addr list \<Rightarrow> bool" where
  "hlinks h q [] \<longleftrightarrow> True"
| "hlinks h q (x # xs) \<longleftrightarrow>
     load q h = Some x \<and> h_pprev (hnodes h x) = Some q \<and> hlinks h (Node_next x) xs"

fun endp :: "hptr \<Rightarrow> addr list \<Rightarrow> hptr" where
  "endp q [] = q"
| "endp q (x # xs) = endp (Node_next x) xs"

text \<open>\<open>bucket h hn xs\<close>: the bucket with head \<open>hn\<close> holds exactly the nodes \<open>xs\<close>, in this order.\<close>

definition bucket :: "hheap \<Rightarrow> addr \<Rightarrow> addr list \<Rightarrow> bool" where
  "bucket h hn xs \<longleftrightarrow>
     distinct xs \<and> hlinks h (Head_first hn) xs \<and> load (endp (Head_first hn) xs) h = None"

lemma load_store [simp]: "load p (store q v h) = (if p = q then v else load p h)"
  by (cases p; cases q) auto

lemma load_set_pprev [simp]: "load p (set_pprev a v h) = load p h"
  by (cases p) (auto simp: set_pprev_def)

lemma pprev_store [simp]: "h_pprev (hnodes (store q v h) x) = h_pprev (hnodes h x)"
  by (cases q) auto

lemma pprev_set_pprev [simp]:
  "h_pprev (hnodes (set_pprev a v h) x) = (if x = a then v else h_pprev (hnodes h x))"
  by (auto simp: set_pprev_def)

lemma next_load: "h_next (hnodes h a) = load (Node_next a) h" "hfirst h a = load (Head_first a) h"
  by simp_all

declare load.simps [simp del] store.simps [simp del]

lemma hlinks_cong:
  assumes "xs \<noteq> [] \<Longrightarrow> load q h' = load q h"
    and "\<And>x. x \<in> set (butlast xs) \<Longrightarrow> load (Node_next x) h' = load (Node_next x) h"
    and "\<And>x. x \<in> set xs \<Longrightarrow> h_pprev (hnodes h' x) = h_pprev (hnodes h x)"
  shows "hlinks h' q xs \<longleftrightarrow> hlinks h q xs"
  using assms
proof (induction xs arbitrary: q)
  case (Cons x xs)
  have "hlinks h' (Node_next x) xs \<longleftrightarrow> hlinks h (Node_next x) xs"
  proof (rule Cons.IH)
    show "xs \<noteq> [] \<Longrightarrow> load (Node_next x) h' = load (Node_next x) h"
      using Cons.prems(2) [of x] by simp
    show "load (Node_next y) h' = load (Node_next y) h" if "y \<in> set (butlast xs)" for y
      using Cons.prems(2) [of y] that by (cases "xs = []") auto
    show "h_pprev (hnodes h' y) = h_pprev (hnodes h y)" if "y \<in> set xs" for y
      using Cons.prems(3) [of y] that by simp
  qed
  then show ?case using Cons.prems by simp
qed simp

lemma hlinks_append: "hlinks h q (us @ vs) \<longleftrightarrow> hlinks h q us \<and> hlinks h (endp q us) vs"
  by (induction us arbitrary: q) auto

lemma endp_append [simp]: "endp q (us @ vs) = endp (endp q us) vs"
  by (induction us arbitrary: q) auto

lemma endp_eq: "endp q us = (if us = [] then q else Node_next (last us))"
  by (induction us arbitrary: q) auto

lemma hlist_for_each_from_links:
  assumes "hlinks h q xs" and "load (endp q xs) h = None"
  shows "hlist_for_each_from h (load q h) = Some xs"
  using assms
proof (induction xs arbitrary: q)
  case Nil
  then show ?case by (simp add: hlist_for_each_from.simps)
next
  case (Cons x xs)
  then have "hlist_for_each_from h (load (Node_next x) h) = Some xs" by simp
  then show ?case using Cons.prems by (simp add: hlist_for_each_from.simps [of h "Some x"] next_load)
qed

lemma hlist_for_each_bucket: "bucket h hn xs \<Longrightarrow> hlist_for_each h hn = Some xs"
  using hlist_for_each_from_links [of h "Head_first hn" xs]
  by (simp add: bucket_def hlist_for_each_def next_load)

lemma hlist_empty_iff: "bucket h hn xs \<Longrightarrow> hlist_empty hn h \<longleftrightarrow> xs = []"
  by (cases xs) (auto simp: bucket_def hlist_empty_def next_load)

text \<open>Every insertion redirects one pointer to the new node and lets it point to the old target.\<close>

lemma bucket_insert:
  assumes b: "bucket h hn (us @ vs)" and n: "n \<notin> set (us @ vs)"
    and L: "\<And>p. load p h' = (if p = endp (Head_first hn) us then Some n
      else if p = Node_next n then load (endp (Head_first hn) us) h else load p h)"
    and P: "\<And>x. h_pprev (hnodes h' x) = (if x = n then Some (endp (Head_first hn) us)
      else if load (endp (Head_first hn) us) h = Some x then Some (Node_next n)
      else h_pprev (hnodes h x))"
  shows "bucket h' hn (us @ n # vs)"
proof -
  let ?q = "endp (Head_first hn) us"
  have l: "distinct (us @ vs)" "hlinks h (Head_first hn) us" "hlinks h ?q vs"
    "load (endp ?q vs) h = None"
    using b by (auto simp: bucket_def hlinks_append)
  have qn: "?q \<noteq> Node_next n" using n by (auto simp: endp_eq)
  have neq: "?q \<noteq> Node_next x" if "x \<in> set vs" for x
    using l(1) that by (simp add: endp_eq) (metis disjoint_iff last_in_set)
  have tgt: "load ?q h = Some x \<Longrightarrow> x \<notin> set us" for x
    using l by (cases vs) auto
  have 1: "hlinks h' (Head_first hn) us"
  proof (rule hlinks_cong [THEN iffD2, OF _ _ _ l(2)])
    fix x assume x: "x \<in> set (butlast us)"
    then have "x \<noteq> last us" "x \<noteq> n"
      using l(1) n last_notin_butlast [of us] in_set_butlastD [OF x] by (cases "us = []"; auto)+
    then show "load (Node_next x) h' = load (Node_next x) h" by (auto simp: L endp_eq)
  next
    fix x assume "x \<in> set us"
    then show "h_pprev (hnodes h' x) = h_pprev (hnodes h x)" using tgt n by (auto simp: P)
  qed (auto simp: L endp_eq)
  have 2: "hlinks h' (Node_next n) vs"
  proof (cases vs)
    case (Cons v ws)
    have "hlinks h' (Node_next v) ws"
    proof (rule hlinks_cong [THEN iffD2])
      show "hlinks h (Node_next v) ws" using l Cons by simp
      show "load (Node_next v) h' = load (Node_next v) h"
        using neq [of v] n Cons by (auto simp: L)
      show "load (Node_next x) h' = load (Node_next x) h" if "x \<in> set (butlast ws)" for x
        using neq [of x] in_set_butlastD [OF that] n Cons by (auto simp: L)
      show "h_pprev (hnodes h' x) = h_pprev (hnodes h x)" if "x \<in> set ws" for x
        using that l n Cons by (auto simp: P)
    qed
    then show ?thesis using l Cons n qn by (auto simp: L P)
  qed simp
  have 3: "load (endp (Node_next n) vs) h' = None"
    using l neq [of "last vs"] n qn by (cases "vs = []") (auto simp: L endp_eq [of _ vs])
  show ?thesis using l(1) n 1 2 3 by (auto simp: bucket_def hlinks_append L P)
qed

lemma bucket_add_head:
  assumes "bucket h hn xs" and "n \<notin> set xs"
  shows "bucket (hlist_add_head n hn h) hn (n # xs)"
  using assms bucket_insert [of h hn "[]" xs n "hlist_add_head n hn h"]
  by (auto simp: hlist_add_head_def Let_def next_load split: option.splits)

lemma bucket_add_before:
  assumes b: "bucket h hn (us @ m # vs)" and n: "n \<notin> set (us @ m # vs)"
  shows "\<exists>h'. hlist_add_before n m h = Some h' \<and> bucket h' hn (us @ n # m # vs)"
proof -
  let ?q = "endp (Head_first hn) us"
  have q: "h_pprev (hnodes h m) = Some ?q" "load ?q h = Some m" and ne: "n \<noteq> m"
    using b n by (auto simp: bucket_def hlinks_append)
  let ?h = "store ?q (Some n) (set_pprev m (Some (Node_next n))
      (store (Node_next n) (Some m) (set_pprev n (Some ?q) h)))"
  have "hlist_add_before n m h = Some ?h"
    using q ne by (simp add: hlist_add_before_def Let_def)
  moreover have "bucket ?h hn (us @ n # m # vs)"
    using b n by (rule bucket_insert) (use q ne in auto)
  ultimately show ?thesis by blast
qed

lemma bucket_add_after:
  assumes b: "bucket h hn (us @ m # vs)" and n: "n \<notin> set (us @ m # vs)"
  shows "bucket (hlist_add_after m n h) hn (us @ m # n # vs)"
proof -
  have b': "bucket h hn ((us @ [m]) @ vs)" and n': "n \<notin> set ((us @ [m]) @ vs)"
    using b n by simp_all
  have ne: "n \<noteq> m" using n by auto
  have nx: "load (Node_next m) h \<noteq> Some n"
    using b n by (cases vs) (auto simp: bucket_def hlinks_append)
  have "bucket (hlist_add_after m n h) hn ((us @ [m]) @ n # vs)"
    using b' n' by (rule bucket_insert)
      (use ne nx in \<open>auto simp: hlist_add_after_def Let_def next_load split: option.splits\<close>)
  then show ?thesis by simp
qed

lemma bucket_unlink:
  assumes b: "bucket h hn (us @ n # vs)"
  shows "\<exists>h'. hlist_unlink n h = Some h' \<and> bucket h' hn (us @ vs)"
proof -
  let ?q = "endp (Head_first hn) us"
  have d: "distinct (us @ n # vs)" using b by (simp add: bucket_def)
  have l: "hlinks h (Head_first hn) us" "load ?q h = Some n" "h_pprev (hnodes h n) = Some ?q"
    "hlinks h (Node_next n) vs" "load (endp (Node_next n) vs) h = None"
    using b by (auto simp: bucket_def hlinks_append)
  have dj: "x \<in> set us \<Longrightarrow> x \<notin> set vs" for x using d by auto
  have qn: "?q \<noteq> Node_next n" using d by (auto simp: endp_eq)
  define h' where "h' = (case load (Node_next n) h of None \<Rightarrow> store ?q (load (Node_next n) h) h
      | Some m \<Rightarrow> set_pprev m (Some ?q) (store ?q (load (Node_next n) h) h))"
  have u: "hlist_unlink n h = Some h'"
    by (simp add: hlist_unlink_def l Let_def h'_def next_load split: option.splits)
  have L: "load p h' = (if p = ?q then load (Node_next n) h else load p h)" for p
    by (simp add: h'_def split: option.splits)
  have P: "h_pprev (hnodes h' x) = (if load (Node_next n) h = Some x then Some ?q
      else h_pprev (hnodes h x))" for x
    by (auto simp: h'_def split: option.splits)
  have nx: "load (Node_next n) h = Some x \<Longrightarrow> x \<notin> set us" for x
    using l d by (cases vs) auto
  have 1: "hlinks h' (Head_first hn) us"
  proof (rule hlinks_cong [THEN iffD2, OF _ _ _ l(1)])
    fix x assume "x \<in> set us"
    then show "h_pprev (hnodes h' x) = h_pprev (hnodes h x)" using nx by (auto simp: P)
  next
    fix x assume x: "x \<in> set (butlast us)"
    then have "x \<noteq> last us" using d last_notin_butlast [of us] by (cases "us = []") auto
    with x show "load (Node_next x) h' = load (Node_next x) h"
      by (auto simp add: L endp_eq)
  qed (auto simp: L endp_eq)
  have 2: "hlinks h' ?q vs"
  proof (cases vs)
    case (Cons v ws)
    have "hlinks h' (Node_next v) ws"
    proof (rule hlinks_cong [THEN iffD2])
      show "hlinks h (Node_next v) ws" using l Cons by simp
      have neq: "?q \<noteq> Node_next x" if "x \<in> set vs" for x
        using dj [of "last us"] that by (auto simp: endp_eq)
      show "load (Node_next v) h' = load (Node_next v) h" using neq [of v] Cons by (simp add: L)
      show "load (Node_next x) h' = load (Node_next x) h" if "x \<in> set (butlast ws)" for x
        using neq [of x] in_set_butlastD [OF that] Cons by (simp add: L)
      show "h_pprev (hnodes h' x) = h_pprev (hnodes h x)" if "x \<in> set ws" for x
        using that d Cons l by (auto simp: P)
    qed
    then show ?thesis using l Cons d qn by (simp add: L P)
  qed simp
  have 3: "load (endp ?q vs) h' = None"
  proof (cases "vs = []")
    case False
    then have "endp ?q vs = Node_next (last vs)" "endp (Node_next n) vs = Node_next (last vs)"
      by (simp_all add: endp_eq)
    moreover have "?q \<noteq> Node_next (last vs)"
      using dj False by (simp add: endp_eq) (metis last_in_set)
    ultimately show ?thesis using l by (simp add: L)
  qed (use l in \<open>simp add: L\<close>)
  have "bucket h' hn (us @ vs)"
    using d 1 2 3 by (simp add: bucket_def hlinks_append)
  then show ?thesis using u by blast
qed

lemma bucket_other:
  assumes "bucket h hn xs" and "x \<notin> set xs"
  shows "bucket (set_pprev x v h) hn xs" and "bucket (store (Node_next x) w h) hn xs"
proof -
  have h: "hlinks h (Head_first hn) xs" using assms by (simp add: bucket_def)
  have 1: "hlinks (set_pprev x v h) (Head_first hn) xs"
    by (rule hlinks_cong [THEN iffD2, OF _ _ _ h]) (use assms in auto)
  have 2: "hlinks (store (Node_next x) w h) (Head_first hn) xs"
    by (rule hlinks_cong [THEN iffD2, OF _ _ _ h]) (use assms in \<open>auto dest: in_set_butlastD\<close>)
  show "bucket (set_pprev x v h) hn xs" using assms 1 by (simp add: bucket_def)
  show "bucket (store (Node_next x) w h) hn xs"
    using assms 2 by (auto simp: bucket_def endp_eq)
qed

lemma bucket_del:
  assumes "bucket h hn (us @ n # vs)"
  shows "\<exists>h'. hlist_del n h = Some h' \<and> bucket h' hn (us @ vs)"
    and "\<exists>h'. hlist_del_init n h = Some h' \<and> bucket h' hn (us @ vs) \<and> hlist_unhashed n h'"
proof -
  obtain h1 where u: "hlist_unlink n h = Some h1" and b: "bucket h1 hn (us @ vs)"
    using bucket_unlink [OF assms] by blast
  have n: "n \<notin> set (us @ vs)" and p: "\<not> hlist_unhashed n h"
    using assms by (auto simp: bucket_def hlist_unhashed_def hlinks_append)
  show "\<exists>h'. hlist_del n h = Some h' \<and> bucket h' hn (us @ vs)"
    using bucket_other [OF bucket_other(2) [OF b n] n] u by (auto simp: hlist_del_def)
  show "\<exists>h'. hlist_del_init n h = Some h' \<and> bucket h' hn (us @ vs) \<and> hlist_unhashed n h'"
    using bucket_other [OF bucket_other(2) [OF b n] n] u p
    by (auto simp: hlist_del_init_def INIT_HLIST_NODE_def hlist_unhashed_def)
qed

lemma bucket_move_list:
  assumes "bucket h old xs" and "old \<noteq> new"
  shows "bucket (hlist_move_list old new h) new xs \<and> bucket (hlist_move_list old new h) old []"
proof -
  let ?h = "hlist_move_list old new h"
  have L: "load p ?h = (if p = Head_first old then None
      else if p = Head_first new then load (Head_first old) h else load p h)" for p
    by (auto simp: hlist_move_list_def Let_def next_load split: option.splits)
  have P: "h_pprev (hnodes ?h x) = (if load (Head_first old) h = Some x then Some (Head_first new)
      else h_pprev (hnodes h x))" for x
    by (auto simp: hlist_move_list_def Let_def next_load split: option.splits)
  have "bucket ?h new xs"
  proof (cases xs)
    case Nil
    then show ?thesis using assms by (simp add: bucket_def L)
  next
    case (Cons y ys)
    have "hlinks ?h (Node_next y) ys"
    proof (rule hlinks_cong [THEN iffD2])
      show "hlinks h (Node_next y) ys" using assms Cons by (simp add: bucket_def)
    qed (use assms Cons in \<open>auto simp: L P bucket_def\<close>)
    then show ?thesis using assms Cons by (auto simp: bucket_def L P endp_eq)
  qed
  then show ?thesis using assms(2) by (simp add: bucket_def L)
qed

text \<open>(C25) Hash buckets: \<open>hlist_add_head\<close> puts the new node in front of the bucket, and \<open>hlist_del\<close> takes any node
  out of the result, whatever its position, leaving the others in their order. After each of the two the bucket is well
  formed again, in the \<open>next\<close> pointers and in the \<open>pprev\<close> pointers of all its nodes, and the walk over it ends and visits
  exactly its nodes.\<close>

theorem hlist_add_del:
  assumes "bucket h hn xs" and "n \<notin> set xs" and "n # xs = us @ m # vs"
  shows "bucket (hlist_add_head n hn h) hn (n # xs) \<and> hlist_for_each (hlist_add_head n hn h) hn = Some (n # xs) \<and>
    (\<exists>h'. hlist_del m (hlist_add_head n hn h) = Some h' \<and> bucket h' hn (us @ vs) \<and> hlist_for_each h' hn = Some (us @ vs))"
proof -
  have b: "bucket (hlist_add_head n hn h) hn (us @ m # vs)"
    using bucket_add_head [OF assms(1,2)] assms(3) by simp
  show ?thesis
    using hlist_for_each_bucket [OF b] bucket_del(1) [OF b] hlist_for_each_bucket b assms(3) by fastforce
qed

text \<open>Two nodes, of which the older one is deleted.\<close>

theorem hlist_add_del_witness:
  "\<exists>h. bucket h 9 [5] \<and> hlist_for_each (hlist_add_head 4 9 h) 9 = Some [4, 5] \<and>
     (\<exists>h'. hlist_del 5 (hlist_add_head 4 9 h) = Some h' \<and> bucket h' 9 [4] \<and> hlist_for_each h' 9 = Some [4])"
proof -
  let ?h = "\<lparr>hnodes = \<lambda>_. \<lparr>h_next = None, h_pprev = None\<rparr>, hfirst = \<lambda>_. None\<rparr>"
  have "bucket ?h 9 []" by (simp add: bucket_def load.simps)
  then have b: "bucket (hlist_add_head 5 9 ?h) 9 [5]" by (rule bucket_add_head) simp
  show ?thesis using b hlist_add_del [OF b, of 4 "[4]" 5 "[]"] by auto
qed

end
