(* ===== verification/Spy_RwBuffer.thy ===== *)
theory Spy_RwBuffer
  imports Spy_Prelude
begin

text \<open>
  The memory block pool (\<^verbatim>\<open>spy_mem_block.c\<close>) and the linked read/write buffer built from it
  (\<^verbatim>\<open>spy_rw_buffer.c\<close>): a byte stream stored in a list of fixed-size blocks, with one read cursor and
  one write cursor. The state of the pool is the part of \<open>spy_server_t\<close> the buffer code uses. Blocks
  are named by numbers and their intrusive list links are lists of names.
\<close>

section \<open>The block pool\<close>

definition MEM_BLOCK_SIZE :: nat where "MEM_BLOCK_SIZE = 2 ^ 20"

text \<open>\<open>sizeof(spy_mem_block_t)\<close>: two list pointers and the 64-bit size.\<close>

definition MEM_BLOCK_HDR :: nat where "MEM_BLOCK_HDR = 24"

record mem_block =
  mb_size :: nat
  mb_buf :: "nat \<Rightarrow> u8"

text \<open>
  \<open>blocks\<close> is the memory the allocator handed out, \<open>next_block\<close> the name the next allocation gets
  and \<open>calloc_left\<close> how many more blocks the system can provide.
\<close>

record mem_state =
  blocks :: "nat \<Rightarrow> mem_block"
  next_block :: nat
  calloc_left :: nat
  free_mem_blocks :: "nat list"
  mem_blocks_alloc :: u32
  mem_blocks_alloc_limit :: u32
  mem_blocks_used :: u32

definition fresh_block :: mem_block where
  "fresh_block = \<lparr>mb_size = MEM_BLOCK_SIZE - MEM_BLOCK_HDR, mb_buf = (\<lambda>_. 0)\<rparr>"

definition calloc_block :: "mem_state \<Rightarrow> (nat \<times> mem_state) option" where
  "calloc_block m =
     (if calloc_left m = 0 then None
      else Some (next_block m,
        m\<lparr>blocks := (blocks m)(next_block m := fresh_block),
          next_block := next_block m + 1, calloc_left := calloc_left m - 1\<rparr>))"

text \<open>\<open>while (i-- > 0)\<close>: each block of the preallocated area goes to the front of the list.\<close>

fun init_mem_blocks_loop :: "nat \<Rightarrow> mem_state \<Rightarrow> mem_state" where
  "init_mem_blocks_loop 0 m = m"
| "init_mem_blocks_loop (Suc i) m =
     init_mem_blocks_loop i
       (m\<lparr>blocks := (blocks m)(next_block m := fresh_block), next_block := next_block m + 1,
          calloc_left := calloc_left m - 1,
          free_mem_blocks := next_block m # free_mem_blocks m\<rparr>)"

definition init_mem_blocks :: "nat \<Rightarrow> mem_state \<Rightarrow> mem_state option" where
  "init_mem_blocks prealloc_count m =
     (let m = m\<lparr>free_mem_blocks := []\<rparr>
      in if prealloc_count > 0 then
           (if calloc_left m < prealloc_count then None
            else Some (init_mem_blocks_loop prealloc_count m))
         else Some m)"

text \<open>\<open>spy_setup_mem_blocks\<close> of \<^verbatim>\<open>spy_server.c\<close>\<close>

definition spy_setup_mem_blocks :: "nat \<Rightarrow> nat \<Rightarrow> mem_state \<Rightarrow> mem_state option" where
  "spy_setup_mem_blocks mb_prealloc_count mb_limit m = do {
     m \<leftarrow> init_mem_blocks mb_prealloc_count m;
     Some (m\<lparr>mem_blocks_alloc := of_nat mb_prealloc_count, mem_blocks_alloc_limit := of_nat mb_limit\<rparr>)
   }"

text \<open>
  A pointer into a block and a length. Touching memory outside the block is undefined, hence
  \<^term>\<open>None\<close>.
\<close>

type_synonym area = "nat \<times> nat"

definition load_area :: "mem_state \<Rightarrow> area \<Rightarrow> nat \<Rightarrow> bytes option" where
  "load_area m = (\<lambda>(i, off) n.
     if off + n \<le> mb_size (blocks m i) then Some (map (\<lambda>k. mb_buf (blocks m i) (off + k)) [0..<n]) else None)"

definition store_area :: "mem_state \<Rightarrow> area \<Rightarrow> bytes \<Rightarrow> mem_state option" where
  "store_area m = (\<lambda>(i, off) bs.
     if off + length bs \<le> mb_size (blocks m i) then
       Some (m\<lparr>blocks := (blocks m)(i := (blocks m i)\<lparr>mb_buf :=
         (\<lambda>k. if off \<le> k \<and> k < off + length bs then bs ! (k - off) else mb_buf (blocks m i) k)\<rparr>)\<rparr>)
     else None)"

section \<open>The buffer\<close>

record rw_buffer =
  mem_blocks :: "nat list"
  read_pos :: nat
  write_pos :: nat
  cap :: nat
  read_block :: "nat option"
  write_block :: "nat option"
  read_base :: nat
  write_base :: nat

definition spy_rw_buffer_init :: rw_buffer where
  "spy_rw_buffer_init =
     \<lparr>mem_blocks = [], read_pos = 0, write_pos = 0, cap = 0, read_block = None, write_block = None,
      read_base = 0, write_base = 0\<rparr>"

definition spy_rw_buffer_expand :: "rw_buffer \<Rightarrow> mem_state \<Rightarrow> (int \<times> rw_buffer \<times> mem_state) option" where
  "spy_rw_buffer_expand buffer m =
     (let got =
        (case free_mem_blocks m of
           [] \<Rightarrow>
             if mem_blocks_alloc m \<ge> mem_blocks_alloc_limit m then None
             else (case calloc_block m of None \<Rightarrow> None
               | Some (i, m) \<Rightarrow> Some (i, m\<lparr>mem_blocks_alloc := mem_blocks_alloc m + 1\<rparr>))
         | i # free \<Rightarrow> Some (i, m\<lparr>free_mem_blocks := free\<rparr>))
      in case got of None \<Rightarrow> Some (- 1, buffer, m)
         | Some (i, m) \<Rightarrow> do {
             buffer \<leftarrow>
               (if mem_blocks buffer = [] then
                  (if read_block buffer = None \<and> write_block buffer = None
                   then Some (buffer\<lparr>read_block := Some i, write_block := Some i\<rparr>) else None)
                else Some buffer);
             Some (0,
               buffer\<lparr>mem_blocks := mem_blocks buffer @ [i], cap := cap buffer + mb_size (blocks m i)\<rparr>,
               m\<lparr>mem_blocks_used := mem_blocks_used m + 1\<rparr>)
           })"

fun reset_loop :: "nat list \<Rightarrow> mem_state \<Rightarrow> mem_state" where
  "reset_loop [] m = m"
| "reset_loop (i # bs) m =
     reset_loop bs (m\<lparr>free_mem_blocks := i # free_mem_blocks m, mem_blocks_used := mem_blocks_used m - 1\<rparr>)"

definition spy_rw_buffer_reset :: "rw_buffer \<Rightarrow> mem_state \<Rightarrow> rw_buffer \<times> mem_state" where
  "spy_rw_buffer_reset buffer m =
     (buffer\<lparr>mem_blocks := [], read_pos := 0, read_base := 0, write_pos := 0, write_base := 0, cap := 0,
        read_block := None, write_block := None\<rparr>,
      reset_loop (mem_blocks buffer) m)"

text \<open>The search for the block of a position, from the first block on.\<close>

fun reset_read_loop :: "mem_state \<Rightarrow> nat list \<Rightarrow> nat \<Rightarrow> nat \<Rightarrow> (nat \<times> nat) option" where
  "reset_read_loop m [] base pos = None"
| "reset_read_loop m (i # bs) base pos =
     (if base + mb_size (blocks m i) < pos then reset_read_loop m bs (base + mb_size (blocks m i)) pos
      else Some (i, base))"

definition spy_rw_buffer_reset_read :: "mem_state \<Rightarrow> rw_buffer \<Rightarrow> nat \<Rightarrow> rw_buffer option" where
  "spy_rw_buffer_reset_read m buffer pos =
     (if pos \<le> write_pos buffer then
        let buffer = buffer\<lparr>read_block := None, read_base := 0, read_pos := 0\<rparr>
        in if mem_blocks buffer = [] then (if pos = 0 then Some buffer else None)
           else do {
             (i, base) \<leftarrow> reset_read_loop m (mem_blocks buffer) 0 pos;
             Some (buffer\<lparr>read_base := base, read_block := Some i, read_pos := pos\<rparr>)
           }
      else None)"

text \<open>\<open>jump to next mem_block\<close> for the read cursor, as \<open>next_readable\<close> and \<open>read_n\<close> do it.\<close>

definition read_jump :: "mem_state \<Rightarrow> rw_buffer \<Rightarrow> rw_buffer option" where
  "read_jump m buffer = do {
     i \<leftarrow> read_block buffer;
     if read_base buffer + mb_size (blocks m i) = read_pos buffer then do {
       j \<leftarrow> next_entry (mem_blocks buffer) i;
       Some (buffer\<lparr>read_base := read_base buffer + mb_size (blocks m i), read_block := Some j\<rparr>)
     } else Some buffer
   }"

text \<open>The inner \<^term>\<open>None\<close> is the return value \<open>-1\<close>.\<close>

definition spy_rw_buffer_next_readable ::
    "mem_state \<Rightarrow> rw_buffer \<Rightarrow> (rw_buffer \<times> (area \<times> nat) option) option" where
  "spy_rw_buffer_next_readable m buffer =
     (if read_pos buffer = write_pos buffer then Some (buffer, None)
      else do {
        buffer \<leftarrow> read_jump m buffer;
        i \<leftarrow> read_block buffer;
        Some (buffer, Some ((i, read_pos buffer - read_base buffer),
          min (read_base buffer + mb_size (blocks m i) - read_pos buffer)
            (write_pos buffer - read_pos buffer)))
      })"

definition spy_rw_buffer_next_writeable ::
    "mem_state \<Rightarrow> rw_buffer \<Rightarrow> (rw_buffer \<times> (area \<times> nat) option) option" where
  "spy_rw_buffer_next_writeable m buffer =
     (if write_pos buffer = cap buffer then Some (buffer, None)
      else do {
        i \<leftarrow> write_block buffer;
        buffer \<leftarrow>
          (if write_base buffer + mb_size (blocks m i) = write_pos buffer then do {
             j \<leftarrow> next_entry (mem_blocks buffer) i;
             Some (buffer\<lparr>write_base := write_base buffer + mb_size (blocks m i), write_block := Some j\<rparr>)
           } else Some buffer);
        i \<leftarrow> write_block buffer;
        Some (buffer, Some ((i, write_pos buffer - write_base buffer),
          write_base buffer + mb_size (blocks m i) - write_pos buffer))
      })"

text \<open>The loop of \<open>read_n\<close>; an iteration that copies nothing would repeat for ever.\<close>

function read_n_loop :: "mem_state \<Rightarrow> rw_buffer \<Rightarrow> nat \<Rightarrow> nat \<Rightarrow> bytes \<Rightarrow> (bytes \<times> rw_buffer) option" where
  "read_n_loop m buffer left data_len out =
     (if left > 0 \<and> data_len > 0 then do {
        buffer \<leftarrow> read_jump m buffer;
        i \<leftarrow> read_block buffer;
        let nread = min (min (write_pos buffer) (read_base buffer + mb_size (blocks m i)) - read_pos buffer) left;
        bs \<leftarrow> load_area m (i, read_pos buffer - read_base buffer) nread;
        if nread = 0 then None
        else read_n_loop m (buffer\<lparr>read_pos := read_pos buffer + nread\<rparr>)
               (left - nread) (data_len - nread) (out @ bs)
      } else Some (out, buffer))"
  by pat_completeness auto
termination
  by (relation "measure (\<lambda>(m, buffer, left, data_len, out). left)") auto

text \<open>Returns the bytes copied to \<open>buf\<close>; the C function returns their number.\<close>

definition spy_rw_buffer_read_n :: "mem_state \<Rightarrow> rw_buffer \<Rightarrow> nat \<Rightarrow> (bytes \<times> rw_buffer) option" where
  "spy_rw_buffer_read_n m buffer n =
     read_n_loop m buffer n (write_pos buffer - read_pos buffer) []"

function write_n_loop :: "rw_buffer \<Rightarrow> mem_state \<Rightarrow> bytes \<Rightarrow> (nat \<times> rw_buffer \<times> mem_state) option" where
  "write_n_loop buffer m src =
     (if src \<noteq> [] then do {
        (buffer, next) \<leftarrow> spy_rw_buffer_next_writeable m buffer;
        (case next of None \<Rightarrow> Some (length src, buffer, m)
         | Some (area, len) \<Rightarrow> do {
             let nwrite = min len (length src);
             m \<leftarrow> store_area m area (take nwrite src);
             if nwrite = 0 then None
             else write_n_loop (buffer\<lparr>write_pos := write_pos buffer + nwrite\<rparr>) m (drop nwrite src)
           })
      } else Some (0, buffer, m))"
  by pat_completeness auto
termination
  by (relation "measure (\<lambda>(buffer, m, src). length src)") auto

declare read_n_loop.simps [simp del] write_n_loop.simps [simp del]

text \<open>The number of bytes written is the size of the source minus what the loop left.\<close>

definition spy_rw_buffer_write_n :: "rw_buffer \<Rightarrow> mem_state \<Rightarrow> bytes \<Rightarrow> (nat \<times> rw_buffer \<times> mem_state) option" where
  "spy_rw_buffer_write_n buffer m src = do {
     (left, buffer, m) \<leftarrow> write_n_loop buffer m src;
     Some (length src - left, buffer, m)
   }"

section \<open>Contents and invariant\<close>

abbreviation bsize :: "mem_state \<Rightarrow> nat \<Rightarrow> nat" where
  "bsize m i \<equiv> mb_size (blocks m i)"

definition btotal :: "mem_state \<Rightarrow> nat list \<Rightarrow> nat" where
  "btotal m ids = sum_list (map (bsize m) ids)"

definition bdata :: "mem_state \<Rightarrow> nat \<Rightarrow> bytes" where
  "bdata m i = map (mb_buf (blocks m i)) [0..<bsize m i]"

definition flat :: "mem_state \<Rightarrow> nat list \<Rightarrow> bytes" where
  "flat m ids = concat (map (bdata m) ids)"

text \<open>The bytes written so far, and those not read yet.\<close>

definition written :: "mem_state \<Rightarrow> rw_buffer \<Rightarrow> bytes" where
  "written m b = take (write_pos b) (flat m (mem_blocks b))"

definition unread :: "mem_state \<Rightarrow> rw_buffer \<Rightarrow> bytes" where
  "unread m b = drop (read_pos b) (written m b)"

text \<open>A cursor: the current block, the position of its first byte and a position inside it or at its end.\<close>

definition cursor_ok :: "mem_state \<Rightarrow> nat list \<Rightarrow> nat option \<Rightarrow> nat \<Rightarrow> nat \<Rightarrow> bool" where
  "cursor_ok m ids blk base pos =
     (case blk of None \<Rightarrow> ids = [] \<and> base = 0 \<and> pos = 0
      | Some x \<Rightarrow> x \<in> set ids \<and> base = btotal m (takeWhile (\<lambda>y. y \<noteq> x) ids) \<and>
          base \<le> pos \<and> pos \<le> base + bsize m x)"

definition rwb_ok :: "mem_state \<Rightarrow> rw_buffer \<Rightarrow> bool" where
  "rwb_ok m b \<longleftrightarrow>
     distinct (mem_blocks b) \<and> (\<forall>i\<in>set (mem_blocks b). 0 < bsize m i) \<and> cap b = btotal m (mem_blocks b) \<and>
     read_pos b \<le> write_pos b \<and> write_pos b \<le> cap b \<and>
     cursor_ok m (mem_blocks b) (read_block b) (read_base b) (read_pos b) \<and>
     cursor_ok m (mem_blocks b) (write_block b) (write_base b) (write_pos b)"

lemma btotal_simps [simp]:
  "btotal m [] = 0" "btotal m (x # xs) = bsize m x + btotal m xs" "btotal m (xs @ ys) = btotal m xs + btotal m ys"
  by (simp_all add: btotal_def)

lemma length_bdata [simp]: "length (bdata m i) = bsize m i"
  by (simp add: bdata_def)

lemma flat_simps [simp]:
  "flat m [] = []" "flat m (x # xs) = bdata m x @ flat m xs" "flat m (xs @ ys) = flat m xs @ flat m ys"
  by (simp_all add: flat_def)

lemma length_flat [simp]: "length (flat m ids) = btotal m ids"
  by (induction ids) simp_all

lemma cursor_ok_SomeE:
  assumes "cursor_ok m ids (Some x) base pos" and "distinct ids"
  obtains us vs where "ids = us @ x # vs" "x \<notin> set us" "base = btotal m us" "base \<le> pos" "pos \<le> base + bsize m x"
proof -
  from assms(1) have "x \<in> set ids" by (simp add: cursor_ok_def)
  then obtain us vs where "ids = us @ x # vs" "x \<notin> set us" by (meson split_list_first)
  with assms show ?thesis by (intro that) (simp_all add: cursor_ok_def)
qed

lemma cursor_ok_SomeI:
  "ids = us @ x # vs \<Longrightarrow> x \<notin> set us \<Longrightarrow> base = btotal m us \<Longrightarrow> base \<le> pos \<Longrightarrow> pos \<le> base + bsize m x \<Longrightarrow>
   cursor_ok m ids (Some x) base pos"
  by (simp add: cursor_ok_def)

text \<open>The jump to the next block keeps a cursor at the same position and leaves room before its end.\<close>

lemma cursor_jump:
  assumes "cursor_ok m ids blk base pos" and "distinct ids" and "\<forall>i\<in>set ids. 0 < bsize m i"
    and "pos < btotal m ids"
  obtains x where "blk = Some x" "x \<in> set ids"
    "base + bsize m x \<noteq> pos \<Longrightarrow> pos < base + bsize m x"
    "base + bsize m x = pos \<Longrightarrow> \<exists>y. next_entry ids x = Some y \<and>
       cursor_ok m ids (Some y) (base + bsize m x) pos \<and> pos < base + bsize m x + bsize m y"
proof -
  obtain x where x: "blk = Some x" using assms(1, 4) by (cases blk) (auto simp: cursor_ok_def)
  from assms(1) have c: "cursor_ok m ids (Some x) base pos" by (simp add: x)
  obtain us vs where s: "ids = us @ x # vs" "x \<notin> set us" "base = btotal m us" "base \<le> pos" "pos \<le> base + bsize m x"
    using cursor_ok_SomeE [OF c assms(2)] .
  show ?thesis
  proof (rule that [of x])
    assume e: "base + bsize m x = pos"
    then obtain y ws where vs: "vs = y # ws" using assms(4) s by (cases vs) auto
    have "next_entry ids x = Some y" using s vs by (simp add: next_entry_append)
    moreover have "cursor_ok m ids (Some y) (base + bsize m x) pos"
      using s vs e assms(2) by (intro cursor_ok_SomeI [of _ "us @ [x]" _ ws]) auto
    ultimately show "\<exists>y. next_entry ids x = Some y \<and> cursor_ok m ids (Some y) (base + bsize m x) pos \<and>
        pos < base + bsize m x + bsize m y"
      using e s vs assms(3) by simp
  qed (use x s in auto)
qed

text \<open>What a cursor points at.\<close>

lemma cursor_data:
  assumes "cursor_ok m ids (Some x) base pos" and "distinct ids" and "pos + n \<le> base + bsize m x"
  shows "load_area m (x, pos - base) n = Some (slice pos n (flat m ids))"
proof -
  obtain us vs where s: "ids = us @ x # vs" "x \<notin> set us" "base = btotal m us" "base \<le> pos" "pos \<le> base + bsize m x"
    using cursor_ok_SomeE [OF assms(1, 2)] .
  have "slice pos n (flat m ids) = slice (pos - base) n (bdata m x)"
    using s assms(3) by (simp add: slice_def)
  also have "\<dots> = map (\<lambda>k. mb_buf (blocks m x) (pos - base + k)) [0..<n]"
    using s assms(3) by (intro nth_equalityI) (auto simp: slice_def bdata_def)
  finally show ?thesis using s assms(3) by (simp add: load_area_def)
qed

section \<open>Reading\<close>

text \<open>
  The contract of the read side, as the checksum, the disk writer and the sender use it: ask for
  the next area, take some of it, advance the position.
\<close>

locale byte_source =
  fixes ok :: "'b \<Rightarrow> bool"
    and data :: "'b \<Rightarrow> bytes"
    and frame :: "'b \<Rightarrow> 'f"
    and nxt :: "'b \<Rightarrow> ('b \<times> ('a \<times> nat) option) option"
    and load :: "'a \<Rightarrow> nat \<Rightarrow> bytes option"
    and adv :: "nat \<Rightarrow> 'b \<Rightarrow> 'b"
  assumes nxt_empty: "ok b \<Longrightarrow> data b = [] \<Longrightarrow> nxt b = Some (b, None)"
    and nxt_data: "ok b \<Longrightarrow> data b \<noteq> [] \<Longrightarrow> \<exists>b' a k. nxt b = Some (b', Some (a, k)) \<and>
      ok b' \<and> data b' = data b \<and> frame b' = frame b \<and> 0 < k \<and> k \<le> length (data b) \<and>
      (\<forall>n\<le>k. load a n = Some (take n (data b)) \<and> ok (adv n b') \<and> data (adv n b') = drop n (data b) \<and>
        frame (adv n b') = frame b)"
begin

text \<open>Induction for a consumer that takes \<open>left\<close> bytes piece by piece.\<close>

lemma consume_induct [consumes 2, case_names finish more]:
  assumes "ok b" and "left \<le> length (data b)"
    and d: "\<And>b. ok b \<Longrightarrow> P b 0"
    and step: "\<And>b b' a k left. ok b \<Longrightarrow> 0 < left \<Longrightarrow> left \<le> length (data b) \<Longrightarrow> nxt b = Some (b', Some (a, k)) \<Longrightarrow>
      ok b' \<Longrightarrow> data b' = data b \<Longrightarrow> frame b' = frame b \<Longrightarrow> 0 < k \<Longrightarrow> k \<le> length (data b) \<Longrightarrow>
      (\<And>n. n \<le> k \<Longrightarrow> load a n = Some (take n (data b)) \<and> ok (adv n b') \<and> data (adv n b') = drop n (data b) \<and>
        frame (adv n b') = frame b) \<Longrightarrow>
      (\<And>n. 0 < n \<Longrightarrow> n \<le> k \<Longrightarrow> n \<le> left \<Longrightarrow> P (adv n b') (left - n)) \<Longrightarrow> P b left"
  shows "P b left"
  using assms(1, 2)
proof (induction left arbitrary: b rule: less_induct)
  case (less left)
  show ?case
  proof (cases "left = 0")
    case False
    then have "data b \<noteq> []" using less.prems by auto
    from nxt_data [OF less.prems(1) this] obtain b' a k
      where n: "nxt b = Some (b', Some (a, k))" "ok b'" "data b' = data b" "frame b' = frame b" "0 < k" "k \<le> length (data b)"
        and l: "\<And>n. n \<le> k \<Longrightarrow> load a n = Some (take n (data b)) \<and> ok (adv n b') \<and> data (adv n b') = drop n (data b) \<and>
          frame (adv n b') = frame b" by blast
    have "P (adv n b') (left - n)" if "0 < n" "n \<le> k" "n \<le> left" for n
      using less.IH [of "left - n" "adv n b'"] l [OF that(2)] that less.prems(2) by simp
    then show ?thesis
      using step [OF less.prems(1) _ less.prems(2) n l] False by blast
  qed (use d less.prems in simp)
qed

end

definition advance_read :: "nat \<Rightarrow> rw_buffer \<Rightarrow> rw_buffer" where
  "advance_read n b = b\<lparr>read_pos := read_pos b + n\<rparr>"

definition write_side :: "rw_buffer \<Rightarrow> nat list \<times> nat \<times> nat \<times> nat option \<times> nat" where
  "write_side b = (mem_blocks b, write_pos b, cap b, write_block b, write_base b)"

lemma length_written: "rwb_ok m b \<Longrightarrow> length (written m b) = write_pos b"
  by (simp add: written_def rwb_ok_def)

lemma length_unread: "rwb_ok m b \<Longrightarrow> length (unread m b) = write_pos b - read_pos b"
  by (simp add: unread_def length_written)

lemma slice_flat_unread:
  "read_pos b + n \<le> write_pos b \<Longrightarrow> slice (read_pos b) n (flat m (mem_blocks b)) = take n (unread m b)"
  by (simp add: unread_def written_def slice_def take_drop min_def)

lemma written_frame: "write_side b' = write_side b \<Longrightarrow> written m b' = written m b"
  by (simp add: write_side_def written_def)

lemma read_jump_ok:
  assumes "rwb_ok m b" and "read_pos b < write_pos b"
  obtains i base where "read_jump m b = Some (b\<lparr>read_block := Some i, read_base := base\<rparr>)"
    "rwb_ok m (b\<lparr>read_block := Some i, read_base := base\<rparr>)" "base \<le> read_pos b" "read_pos b < base + bsize m i"
proof -
  have c: "cursor_ok m (mem_blocks b) (read_block b) (read_base b) (read_pos b)" "distinct (mem_blocks b)"
    "\<forall>i\<in>set (mem_blocks b). 0 < bsize m i" "read_pos b < btotal m (mem_blocks b)"
    using assms by (auto simp: rwb_ok_def)
  obtain x where x: "read_block b = Some x"
    "read_base b + bsize m x \<noteq> read_pos b \<Longrightarrow> read_pos b < read_base b + bsize m x"
    "read_base b + bsize m x = read_pos b \<Longrightarrow> \<exists>y. next_entry (mem_blocks b) x = Some y \<and>
       cursor_ok m (mem_blocks b) (Some y) (read_base b + bsize m x) (read_pos b) \<and>
       read_pos b < read_base b + bsize m x + bsize m y"
    using cursor_jump [OF c] by metis
  show ?thesis
  proof (cases "read_base b + bsize m x = read_pos b")
    case True
    with x(3) obtain y where "next_entry (mem_blocks b) x = Some y"
       "cursor_ok m (mem_blocks b) (Some y) (read_base b + bsize m x) (read_pos b)"
       "read_pos b < read_base b + bsize m x + bsize m y" by blast
    with True x(1) assms(1) show ?thesis
      by (intro that [where i = y and base = "read_base b + bsize m x"]) (auto simp: read_jump_def rwb_ok_def)
  next
    case False
    have e: "b\<lparr>read_block := Some x, read_base := read_base b\<rparr> = b" using x(1) by simp
    have "read_base b \<le> read_pos b" using c(1) x(1) by (simp add: cursor_ok_def)
    moreover have "read_jump m b = Some b" using False x(1) by (simp add: read_jump_def)
    ultimately show ?thesis
      using that [where i = x and base = "read_base b", unfolded e] assms(1) x(2) [OF False] by simp
  qed
qed

lemma advance_read_ok:
  assumes "rwb_ok m b" and "read_block b = Some i" and "read_pos b + n \<le> write_pos b"
    and "read_pos b + n \<le> read_base b + bsize m i"
  shows "rwb_ok m (advance_read n b)" and "unread m (advance_read n b) = drop n (unread m b)"
    and "write_side (advance_read n b) = write_side b"
  using assms by (auto simp: rwb_ok_def advance_read_def cursor_ok_def unread_def written_def write_side_def add.commute)

lemma read_area:
  assumes "rwb_ok m b" and "read_block b = Some i" and "read_pos b + n \<le> write_pos b"
    and "read_pos b + n \<le> read_base b + bsize m i"
  shows "load_area m (i, read_pos b - read_base b) n = Some (take n (unread m b))"
proof -
  have "cursor_ok m (mem_blocks b) (Some i) (read_base b) (read_pos b)" "distinct (mem_blocks b)"
    using assms(1, 2) by (auto simp: rwb_ok_def)
  from cursor_data [OF this assms(4)] show ?thesis
    using slice_flat_unread [OF assms(3)] by simp
qed

interpretation rd: byte_source "rwb_ok m" "unread m" write_side "spy_rw_buffer_next_readable m"
  "load_area m" advance_read for m
proof (unfold_locales, goal_cases)
  case (1 b)
  then have "read_pos b = write_pos b"
    using length_unread [of m b] by (simp add: rwb_ok_def)
  then show ?case by (simp add: spy_rw_buffer_next_readable_def)
next
  case (2 b)
  then have lt: "read_pos b < write_pos b"
    using length_unread [of m b] by (cases "read_pos b < write_pos b") auto
  obtain i base where j: "read_jump m b = Some (b\<lparr>read_block := Some i, read_base := base\<rparr>)"
    "rwb_ok m (b\<lparr>read_block := Some i, read_base := base\<rparr>)" "base \<le> read_pos b" "read_pos b < base + bsize m i"
    using read_jump_ok [OF 2(1) lt] .
  let ?b = "b\<lparr>read_block := Some i, read_base := base\<rparr>"
  let ?k = "min (base + bsize m i - read_pos b) (write_pos b - read_pos b)"
  have n: "spy_rw_buffer_next_readable m b = Some (?b, Some ((i, read_pos b - base), ?k))"
    using lt j(1) by (simp add: spy_rw_buffer_next_readable_def)
  have u: "unread m ?b = unread m b" by (simp add: unread_def written_def)
  have "\<forall>n\<le>?k. load_area m (i, read_pos b - base) n = Some (take n (unread m b)) \<and>
      rwb_ok m (advance_read n ?b) \<and> unread m (advance_read n ?b) = drop n (unread m b) \<and>
      write_side (advance_read n ?b) = write_side b"
  proof (intro allI impI)
    fix n assume "n \<le> ?k"
    then have "read_pos ?b + n \<le> write_pos ?b" "read_pos ?b + n \<le> read_base ?b + bsize m i"
      using lt j(4) by (simp_all, linarith+)
    note c = j(2) _ this
    show "load_area m (i, read_pos b - base) n = Some (take n (unread m b)) \<and>
      rwb_ok m (advance_read n ?b) \<and> unread m (advance_read n ?b) = drop n (unread m b) \<and>
      write_side (advance_read n ?b) = write_side b"
      using read_area [OF c] advance_read_ok [OF c] u by (simp add: write_side_def)
  qed
  then show ?case
    using n u j(2, 4) lt length_unread [OF 2(1)] by (auto simp: write_side_def)
qed

text \<open>\<open>read_n\<close> takes the next bytes of the stream, as many as there are.\<close>

lemma read_n_loop_ok:
  assumes "rwb_ok m b" and "data_len = length (unread m b)"
  shows "\<exists>b'. read_n_loop m b left data_len out = Some (out @ take left (unread m b), b') \<and> rwb_ok m b' \<and>
    unread m b' = drop left (unread m b) \<and> write_side b' = write_side b"
  using assms
proof (induction left arbitrary: b data_len out rule: less_induct)
  case (less left)
  show ?case
  proof (cases "left > 0 \<and> data_len > 0")
    case True
    then have lt: "read_pos b < write_pos b" using less.prems length_unread [of m b] by simp
    obtain i base where j: "read_jump m b = Some (b\<lparr>read_block := Some i, read_base := base\<rparr>)"
      "rwb_ok m (b\<lparr>read_block := Some i, read_base := base\<rparr>)" "base \<le> read_pos b" "read_pos b < base + bsize m i"
      using read_jump_ok [OF less.prems(1) lt] .
    let ?b = "b\<lparr>read_block := Some i, read_base := base\<rparr>"
    define n where "n = min (min (write_pos b) (base + bsize m i) - read_pos b) left"
    have n: "0 < n" "n \<le> left" "read_pos b + n \<le> write_pos b" "read_pos b + n \<le> base + bsize m i"
      using True lt j(4) by (auto simp: n_def)
    have u: "unread m ?b = unread m b" by (simp add: unread_def written_def)
    have a: "rwb_ok m (advance_read n ?b)" "unread m (advance_read n ?b) = drop n (unread m b)"
      "write_side (advance_read n ?b) = write_side b"
      "load_area m (i, read_pos b - base) n = Some (take n (unread m b))"
      using advance_read_ok [OF j(2), of i n] read_area [OF j(2), of i n] n u by (simp_all add: write_side_def)
    have "data_len - n = length (unread m (advance_read n ?b))" using a(2) less.prems(2) by simp
    from less.IH [OF _ a(1) this, of "left - n" "out @ take n (unread m b)"] n
    obtain b' where "read_n_loop m (advance_read n ?b) (left - n) (data_len - n) (out @ take n (unread m b)) =
        Some (out @ take n (unread m b) @ take (left - n) (drop n (unread m b)), b')"
      "rwb_ok m b'" "unread m b' = drop left (unread m b)" "write_side b' = write_side b"
      by (auto simp: a)
    moreover have "take n (unread m b) @ take (left - n) (drop n (unread m b)) = take left (unread m b)"
      using n(2) take_add [of n "left - n" "unread m b"] by simp
    ultimately show ?thesis
      using True j(1) n(1) a(4)
      by (simp add: read_n_loop.simps [of m b] n_def [symmetric] advance_read_def)
  next
    case False
    with less.prems show ?thesis by (auto simp: read_n_loop.simps [of m b])
  qed
qed

lemma read_n_ok:
  assumes "rwb_ok m b"
  shows "\<exists>b'. spy_rw_buffer_read_n m b n = Some (take n (unread m b), b') \<and> rwb_ok m b' \<and>
    unread m b' = drop n (unread m b) \<and> write_side b' = write_side b"
  using read_n_loop_ok [OF assms, of _ n "[]"] length_unread [OF assms]
  by (simp add: spy_rw_buffer_read_n_def)

text \<open>\<open>reset_read\<close> puts the read cursor back to any position already written.\<close>

lemma reset_read_loop_ok:
  "base = btotal m us \<Longrightarrow> base \<le> pos \<Longrightarrow> pos \<le> btotal m (us @ ids) \<Longrightarrow> ids \<noteq> [] \<Longrightarrow> distinct (us @ ids) \<Longrightarrow>
     \<exists>i base'. reset_read_loop m ids base pos = Some (i, base') \<and> cursor_ok m (us @ ids) (Some i) base' pos"
proof (induction ids arbitrary: us base)
  case (Cons i ids)
  show ?case
  proof (cases "base + bsize m i < pos")
    case True
    then have "ids \<noteq> []" using Cons.prems by auto
    with True Cons.IH [of "base + bsize m i" "us @ [i]"] Cons.prems show ?thesis by simp
  next
    case False
    then have "cursor_ok m (us @ i # ids) (Some i) base pos"
      using Cons.prems by (intro cursor_ok_SomeI [of _ us _ ids]) auto
    with False show ?thesis by simp
  qed
qed simp

lemma reset_read_ok:
  assumes "rwb_ok m b" and "pos \<le> write_pos b"
  shows "\<exists>b'. spy_rw_buffer_reset_read m b pos = Some b' \<and> rwb_ok m b' \<and>
    unread m b' = drop pos (written m b) \<and> write_side b' = write_side b \<and> read_pos b' = pos"
proof (cases "mem_blocks b = []")
  case True
  then have "write_pos b = 0" using assms(1) by (simp add: rwb_ok_def)
  with True assms show ?thesis
    by (auto simp: spy_rw_buffer_reset_read_def rwb_ok_def cursor_ok_def unread_def written_def write_side_def
        split: option.splits)
next
  case False
  then obtain i base where "reset_read_loop m (mem_blocks b) 0 pos = Some (i, base)"
    "cursor_ok m (mem_blocks b) (Some i) base pos"
    using reset_read_loop_ok [of 0 m "[]" pos "mem_blocks b"] assms by (auto simp: rwb_ok_def)
  with False assms show ?thesis
    by (auto simp: spy_rw_buffer_reset_read_def rwb_ok_def unread_def written_def write_side_def)
qed

section \<open>Writing\<close>

text \<open>Storing bytes at a cursor changes exactly those bytes of the buffer and no other block.\<close>

definition same_blocks :: "mem_state \<Rightarrow> mem_state \<Rightarrow> nat set \<Rightarrow> bool" where
  "same_blocks m m' X \<longleftrightarrow>
     (\<forall>i. bsize m' i = bsize m i) \<and> (\<forall>i. i \<notin> X \<longrightarrow> blocks m' i = blocks m i) \<and>
     (\<exists>f. m' = m\<lparr>blocks := f\<rparr>)"

lemma same_blocks_refl [simp]: "same_blocks m m X"
  by (auto simp: same_blocks_def intro: exI [of _ "blocks m"])

lemma same_blocks_trans: "same_blocks m m' X \<Longrightarrow> same_blocks m' m'' X \<Longrightarrow> same_blocks m m'' X"
  by (auto simp: same_blocks_def)

lemma same_blocks_mono: "same_blocks m m' X \<Longrightarrow> X \<subseteq> Y \<Longrightarrow> same_blocks m m' Y"
  by (auto simp: same_blocks_def)

lemma same_blocks_size: "same_blocks m m' X \<Longrightarrow> bsize m' i = bsize m i"
  by (simp add: same_blocks_def)

lemma same_blocks_total: "same_blocks m m' X \<Longrightarrow> btotal m' ids = btotal m ids"
  by (simp add: same_blocks_def btotal_def)

lemma same_blocks_ok: "same_blocks m m' X \<Longrightarrow> rwb_ok m' b = rwb_ok m b"
  by (simp only: rwb_ok_def cursor_ok_def same_blocks_total same_blocks_size)

lemma flat_other:
  assumes "same_blocks m m' X" and "X \<inter> set ids = {}"
  shows "flat m' ids = flat m ids"
proof -
  have "blocks m' i = blocks m i" if "i \<in> set ids" for i
    using assms that by (auto simp: same_blocks_def)
  then show ?thesis by (simp add: flat_def bdata_def cong: map_cong)
qed

lemma store_area_same:
  "store_area m (i, off) bs = Some m' \<Longrightarrow> same_blocks m m' {i}"
  by (auto simp: store_area_def same_blocks_def split: if_splits)

lemma bdata_store:
  assumes "store_area m (i, off) bs = Some m'"
  shows "bdata m' i = poke off bs (bdata m i)"
proof (rule nth_equalityI)
  have le: "off + length bs \<le> bsize m i" using assms by (simp add: store_area_def split: if_splits)
  then show "length (bdata m' i) = length (poke off bs (bdata m i))"
    using store_area_same [OF assms] by (simp add: same_blocks_size)
  show "bdata m' i ! k = poke off bs (bdata m i) ! k" if "k < length (bdata m' i)" for k
    using that assms le by (auto simp: store_area_def bdata_def poke_def nth_append split: if_splits)
qed

lemma cursor_store:
  assumes "cursor_ok m ids (Some x) base pos" and "distinct ids" and "pos + length bs \<le> base + bsize m x"
  obtains m' where "store_area m (x, pos - base) bs = Some m'" "flat m' ids = poke pos bs (flat m ids)"
    "same_blocks m m' (set ids)"
proof -
  obtain us vs where s: "ids = us @ x # vs" "x \<notin> set us" "base = btotal m us" "base \<le> pos" "pos \<le> base + bsize m x"
    using cursor_ok_SomeE [OF assms(1, 2)] .
  have "pos - base + length bs \<le> bsize m x" using assms(3) s(4) by linarith
  then obtain m' where m': "store_area m (x, pos - base) bs = Some m'" by (simp add: store_area_def)
  note sb = store_area_same [OF m']
  have "flat m' us = flat m us" "flat m' vs = flat m vs"
    using flat_other [OF sb] s assms(2) by auto
  then have "flat m' ids = poke pos bs (flat m ids)"
    using s assms(3) bdata_store [OF m'] by (simp add: poke_def)
  with that m' same_blocks_mono [OF sb] s show ?thesis by auto
qed

text \<open>
  The contract of the write side, as the copying writer, the disk reader and the receiver use it:
  ask for the next area, store some bytes there, advance the position.
\<close>

locale byte_sink =
  fixes ok :: "'m \<Rightarrow> 'b \<Rightarrow> bool"
    and content :: "'m \<Rightarrow> 'b \<Rightarrow> bytes"
    and room :: "'b \<Rightarrow> nat"
    and frame :: "'b \<Rightarrow> 'f"
    and touch :: "'b \<Rightarrow> 'm \<Rightarrow> 'm \<Rightarrow> bool"
    and nxt :: "'m \<Rightarrow> 'b \<Rightarrow> ('b \<times> ('a \<times> nat) option) option"
    and store :: "'m \<Rightarrow> 'a \<Rightarrow> bytes \<Rightarrow> 'm option"
    and adv :: "nat \<Rightarrow> 'b \<Rightarrow> 'b"
  assumes nxt_full: "ok m b \<Longrightarrow> room b = 0 \<Longrightarrow> nxt m b = Some (b, None)"
    and nxt_room: "ok m b \<Longrightarrow> 0 < room b \<Longrightarrow> \<exists>b' a k. nxt m b = Some (b', Some (a, k)) \<and>
      ok m b' \<and> content m b' = content m b \<and> frame b' = frame b \<and> room b' = room b \<and> 0 < k \<and> k \<le> room b \<and>
      (\<forall>bs. length bs \<le> k \<longrightarrow> (\<exists>m'. store m a bs = Some m' \<and> ok m' (adv (length bs) b') \<and>
        content m' (adv (length bs) b') = content m b @ bs \<and> room (adv (length bs) b') = room b - length bs \<and>
        frame (adv (length bs) b') = frame b \<and> touch b m m'))"
    and touch_refl: "touch b m m"
    and touch_trans: "touch b m m' \<Longrightarrow> touch b' m' m'' \<Longrightarrow> frame b' = frame b \<Longrightarrow> touch b m m''"
begin

text \<open>Induction for a producer that has \<open>left\<close> more bytes and stores them piece by piece.\<close>

lemma produce_induct [consumes 1, case_names finish full more]:
  fixes left :: nat
  assumes "ok m b"
    and d: "\<And>m b. ok m b \<Longrightarrow> P m b 0"
    and full: "\<And>m b left. ok m b \<Longrightarrow> 0 < left \<Longrightarrow> room b = 0 \<Longrightarrow> nxt m b = Some (b, None) \<Longrightarrow> P m b left"
    and step: "\<And>m b b' a k left. ok m b \<Longrightarrow> 0 < left \<Longrightarrow> nxt m b = Some (b', Some (a, k)) \<Longrightarrow>
      ok m b' \<Longrightarrow> content m b' = content m b \<Longrightarrow> frame b' = frame b \<Longrightarrow> room b' = room b \<Longrightarrow>
      0 < k \<Longrightarrow> k \<le> room b \<Longrightarrow>
      (\<And>bs. length bs \<le> k \<Longrightarrow> \<exists>m'. store m a bs = Some m' \<and> ok m' (adv (length bs) b') \<and>
        content m' (adv (length bs) b') = content m b @ bs \<and> room (adv (length bs) b') = room b - length bs \<and>
        frame (adv (length bs) b') = frame b \<and> touch b m m') \<Longrightarrow>
      (\<And>m' b'' n. 0 < n \<Longrightarrow> n \<le> left \<Longrightarrow> ok m' b'' \<Longrightarrow> P m' b'' (left - n)) \<Longrightarrow> P m b left"
  shows "P m b left"
  using assms(1)
proof (induction left arbitrary: m b rule: less_induct)
  case (less left)
  show ?case
  proof (cases "left = 0")
    case True
    then show ?thesis using d [OF less.prems] by simp
  next
    case False
    then have l: "0 < left" by simp
    have IH: "P m' b'' (left - n)" if "0 < n" "n \<le> left" "ok m' b''" for m' b'' n
      using that by (intro less.IH) simp_all
    show ?thesis
    proof (cases "room b = 0")
      case True
      then show ?thesis using full [OF less.prems l _ nxt_full [OF less.prems]] by simp
    next
      case False
      then obtain b' a k where n: "nxt m b = Some (b', Some (a, k))" "ok m b'" "content m b' = content m b"
          "frame b' = frame b" "room b' = room b" "0 < k" "k \<le> room b"
        and s: "\<And>bs. length bs \<le> k \<Longrightarrow> \<exists>m'. store m a bs = Some m' \<and> ok m' (adv (length bs) b') \<and>
          content m' (adv (length bs) b') = content m b @ bs \<and> room (adv (length bs) b') = room b - length bs \<and>
          frame (adv (length bs) b') = frame b \<and> touch b m m'"
        using nxt_room [OF less.prems] by (metis (no_types, lifting) gr0I)
      show ?thesis by (rule step [OF less.prems l n s IH])
    qed
  qed
qed

end

definition room :: "rw_buffer \<Rightarrow> nat" where
  "room b = cap b - write_pos b"

definition read_side :: "rw_buffer \<Rightarrow> nat list \<times> nat \<times> nat \<times> nat option \<times> nat" where
  "read_side b = (mem_blocks b, read_pos b, cap b, read_block b, read_base b)"

definition touched :: "rw_buffer \<Rightarrow> mem_state \<Rightarrow> mem_state \<Rightarrow> bool" where
  "touched b m m' = same_blocks m m' (set (mem_blocks b))"

definition advance_write :: "nat \<Rightarrow> rw_buffer \<Rightarrow> rw_buffer" where
  "advance_write n b = b\<lparr>write_pos := write_pos b + n\<rparr>"

lemma next_writeable_ok:
  assumes "rwb_ok m b" and "write_pos b < cap b"
  obtains i base where
    "spy_rw_buffer_next_writeable m b =
       Some (b\<lparr>write_block := Some i, write_base := base\<rparr>, Some ((i, write_pos b - base), base + bsize m i - write_pos b))"
    "rwb_ok m (b\<lparr>write_block := Some i, write_base := base\<rparr>)" "base \<le> write_pos b" "write_pos b < base + bsize m i"
    "base + bsize m i \<le> cap b"
proof -
  have c: "cursor_ok m (mem_blocks b) (write_block b) (write_base b) (write_pos b)" "distinct (mem_blocks b)"
    "\<forall>i\<in>set (mem_blocks b). 0 < bsize m i" "write_pos b < btotal m (mem_blocks b)"
    using assms by (auto simp: rwb_ok_def)
  obtain x where x: "write_block b = Some x"
    "write_base b + bsize m x \<noteq> write_pos b \<Longrightarrow> write_pos b < write_base b + bsize m x"
    "write_base b + bsize m x = write_pos b \<Longrightarrow> \<exists>y. next_entry (mem_blocks b) x = Some y \<and>
       cursor_ok m (mem_blocks b) (Some y) (write_base b + bsize m x) (write_pos b) \<and>
       write_pos b < write_base b + bsize m x + bsize m y"
    using cursor_jump [OF c] by metis
  have le: "base + bsize m i \<le> cap b" if ok: "rwb_ok m (b\<lparr>write_block := Some i, write_base := base\<rparr>)" for i base
  proof -
    have "cursor_ok m (mem_blocks b) (Some i) base (write_pos b)" using ok by (simp add: rwb_ok_def)
    then obtain us vs where "mem_blocks b = us @ i # vs" "base = btotal m us"
      using cursor_ok_SomeE [OF _ c(2)] by metis
    then show ?thesis using assms(1) by (simp add: rwb_ok_def)
  qed
  show ?thesis
  proof (cases "write_base b + bsize m x = write_pos b")
    case True
    with x(3) obtain y where y: "next_entry (mem_blocks b) x = Some y"
       "cursor_ok m (mem_blocks b) (Some y) (write_base b + bsize m x) (write_pos b)"
       "write_pos b < write_base b + bsize m x + bsize m y" by blast
    let ?b = "b\<lparr>write_block := Some y, write_base := write_base b + bsize m x\<rparr>"
    have "rwb_ok m ?b" using assms(1) y(2) by (simp add: rwb_ok_def)
    moreover have "spy_rw_buffer_next_writeable m b = Some (?b, Some ((y, 0), bsize m y))"
      using True x(1) y(1) assms(2) by (simp add: spy_rw_buffer_next_writeable_def)
    ultimately show ?thesis
      using that [where i = y and base = "write_base b + bsize m x"] True y(3) le by simp
  next
    case False
    have e: "b\<lparr>write_block := Some x, write_base := write_base b\<rparr> = b" using x(1) by simp
    have "write_base b \<le> write_pos b" using c(1) x(1) by (simp add: cursor_ok_def)
    then show ?thesis
      using that [where i = x and base = "write_base b", unfolded e] assms x(1) x(2) [OF False] False
        le [where i = x and base = "write_base b", unfolded e]
      by (simp add: spy_rw_buffer_next_writeable_def)
  qed
qed

lemma store_write:
  assumes "rwb_ok m b" and "write_block b = Some i" and "write_pos b + length bs \<le> write_base b + bsize m i"
    and "write_base b + bsize m i \<le> cap b"
  obtains m' where "store_area m (i, write_pos b - write_base b) bs = Some m'"
    "rwb_ok m' (advance_write (length bs) b)" "written m' (advance_write (length bs) b) = written m b @ bs"
    "touched b m m'"
proof -
  have c: "cursor_ok m (mem_blocks b) (Some i) (write_base b) (write_pos b)" "distinct (mem_blocks b)"
    using assms(1, 2) by (auto simp: rwb_ok_def)
  obtain m' where m': "store_area m (i, write_pos b - write_base b) bs = Some m'"
    "flat m' (mem_blocks b) = poke (write_pos b) bs (flat m (mem_blocks b))"
    "same_blocks m m' (set (mem_blocks b))"
    using cursor_store [OF c assms(3)] .
  have "rwb_ok m (advance_write (length bs) b)"
    using assms by (auto simp: rwb_ok_def advance_write_def cursor_ok_def)
  moreover have "written m' (advance_write (length bs) b) = written m b @ bs"
    using assms m'(2) by (simp add: written_def advance_write_def poke_def rwb_ok_def)
  ultimately show ?thesis
    using m' that same_blocks_ok [OF m'(3)] by (simp add: touched_def)
qed

interpretation wr: byte_sink rwb_ok written room read_side touched spy_rw_buffer_next_writeable
  store_area advance_write
proof (unfold_locales, goal_cases)
  case (1 m b)
  then have "write_pos b = cap b" by (simp add: room_def rwb_ok_def)
  then show ?case by (simp add: spy_rw_buffer_next_writeable_def)
next
  case (2 m b)
  then have lt: "write_pos b < cap b" by (simp add: room_def)
  obtain i base where n: "spy_rw_buffer_next_writeable m b =
       Some (b\<lparr>write_block := Some i, write_base := base\<rparr>, Some ((i, write_pos b - base), base + bsize m i - write_pos b))"
    "rwb_ok m (b\<lparr>write_block := Some i, write_base := base\<rparr>)" "base \<le> write_pos b" "write_pos b < base + bsize m i"
    "base + bsize m i \<le> cap b"
    using next_writeable_ok [OF 2(1) lt] .
  let ?b = "b\<lparr>write_block := Some i, write_base := base\<rparr>" and ?k = "base + bsize m i - write_pos b"
  have w: "written m ?b = written m b" "read_side ?b = read_side b" "room ?b = room b" "touched ?b = touched b"
    by (simp_all add: written_def read_side_def room_def touched_def fun_eq_iff)
  have "\<exists>m'. store_area m (i, write_pos b - base) bs = Some m' \<and> rwb_ok m' (advance_write (length bs) ?b) \<and>
      written m' (advance_write (length bs) ?b) = written m b @ bs \<and>
      room (advance_write (length bs) ?b) = room b - length bs \<and>
      read_side (advance_write (length bs) ?b) = read_side b \<and> touched b m m'" if "length bs \<le> ?k" for bs
  proof -
    have "write_pos ?b + length bs \<le> write_base ?b + bsize m i" using that n(4) by simp
    then obtain m' where "store_area m (i, write_pos ?b - write_base ?b) bs = Some m'"
      "rwb_ok m' (advance_write (length bs) ?b)" "written m' (advance_write (length bs) ?b) = written m ?b @ bs"
      "touched ?b m m'"
      using store_write [OF n(2), of i bs] n(5) by auto
    then show ?thesis using w by (auto simp: advance_write_def room_def read_side_def)
  qed
  moreover have "0 < ?k" "?k \<le> room b" using n(4, 5) by (simp_all add: room_def)
  ultimately show ?case using n(1, 2) w by blast
next
  case (3 b m)
  show ?case by (simp add: touched_def)
next
  case (4 b m m' b' m'')
  then show ?case by (auto simp: touched_def read_side_def intro: same_blocks_trans)
qed

text \<open>\<open>write_n\<close> appends to the stream, as much as there is room for.\<close>

lemma write_n_loop_ok:
  assumes "rwb_ok m b"
  shows "\<exists>b' m'. write_n_loop b m src = Some (length src - min (length src) (room b), b', m') \<and>
    rwb_ok m' b' \<and> written m' b' = written m b @ take (room b) src \<and>
    room b' = room b - length src \<and> read_side b' = read_side b \<and> touched b m m'"
  using assms
proof (induction m b "length src" arbitrary: src rule: wr.produce_induct)
  case (finish m b)
  then show ?case by (simp add: write_n_loop.simps [of b] wr.touch_refl)
next
  case (full m b)
  then show ?case by (simp add: write_n_loop.simps [of b] wr.touch_refl)
next
  case (more m b b' a k)
  define n where "n = min k (length src)"
  have n: "n \<le> k" "n \<le> length src" "0 < n" "length (take n src) = n"
    using more.hyps(2, 8) by (simp_all add: n_def)
  obtain m' where m': "store_area m a (take n src) = Some m'" "rwb_ok m' (advance_write n b')"
    "written m' (advance_write n b') = written m b @ take n src" "room (advance_write n b') = room b - n"
    "read_side (advance_write n b') = read_side b" "touched b m m'"
    using more.hyps(10) [of "take n src", unfolded n(4), OF n(1)] by blast
  have l: "length src - n = length (drop n src)" by simp
  obtain b'' m'' where r: "write_n_loop (advance_write n b') m' (drop n src) =
      Some (length (drop n src) - min (length (drop n src)) (room b - n), b'', m'')"
    "rwb_ok m'' b''" "written m'' b'' = (written m b @ take n src) @ take (room b - n) (drop n src)"
    "room b'' = room b - n - (length src - n)" "read_side b'' = read_side b" "touched (advance_write n b') m' m''"
    using more.hyps(11) [OF n(3, 2) m'(2) l] unfolding m'(3, 4, 5) l by blast
  have "take n src @ take (room b - n) (drop n src) = take (room b) src"
    using more.hyps(9) n(1) take_add [of n "room b - n" src] by simp
  moreover have "touched b m m''" using wr.touch_trans [OF m'(6) r(6) m'(5)] .
  moreover have "length (drop n src) - min (length (drop n src)) (room b - n) =
      length src - min (length src) (room b)" using more.hyps(9) n by simp
  moreover have "room b - n - (length src - n) = room b - length src" using n by simp
  moreover have "write_n_loop b m src = write_n_loop (advance_write n b') m' (drop n src)"
    using more.hyps(2, 3) m'(1) n(3) by (simp add: write_n_loop.simps [of b] n_def [symmetric] advance_write_def)
  ultimately show ?case using r by simp
qed

lemma write_n_ok:
  assumes "rwb_ok m b"
  shows "\<exists>b' m'. spy_rw_buffer_write_n b m src = Some (min (length src) (room b), b', m') \<and>
    rwb_ok m' b' \<and> written m' b' = written m b @ take (room b) src \<and>
    room b' = room b - length src \<and> read_side b' = read_side b \<and> touched b m m'"
  using write_n_loop_ok [OF assms, of src] by (auto simp: spy_rw_buffer_write_n_def)

lemma unread_write:
  assumes "rwb_ok m b" and "written m' b' = written m b @ bs" and "read_side b' = read_side b"
  shows "unread m' b' = unread m b @ bs"
proof -
  have "read_pos b \<le> length (written m b)" using assms(1) by (simp add: length_written) (simp add: rwb_ok_def)
  with assms show ?thesis by (simp add: unread_def read_side_def)
qed

end
