(* ===== verification/Spy_Pool.thy ===== *)
theory Spy_Pool
  imports Spy_RwBuffer "HOL-Library.Multiset"
begin

text \<open>
  The block pool under the buffer operations that take and return blocks: expansion, reset and the
  initial allocation. No block is lost, and none belongs to two buffers.
\<close>

section \<open>The pool\<close>

text \<open>
  The pool with respect to the blocks the buffers own: every block is free or owned, once; the
  counters count them.
\<close>

definition pool_ok :: "mem_state \<Rightarrow> nat list \<Rightarrow> bool" where
  "pool_ok m owned \<longleftrightarrow>
     distinct (free_mem_blocks m @ owned) \<and>
     (\<forall>i\<in>set (free_mem_blocks m @ owned). i < next_block m \<and> bsize m i = MEM_BLOCK_SIZE - MEM_BLOCK_HDR) \<and>
     unat (mem_blocks_alloc m) = length (free_mem_blocks m) + length owned \<and>
     unat (mem_blocks_used m) = length owned"

lemma block_size_pos: "0 < MEM_BLOCK_SIZE - MEM_BLOCK_HDR"
  by (simp add: MEM_BLOCK_SIZE_def MEM_BLOCK_HDR_def)

lemma pool_ok_perm: "pool_ok m xs \<Longrightarrow> mset ys = mset xs \<Longrightarrow> pool_ok m ys"
  unfolding pool_ok_def using mset_eq_setD [of ys xs] mset_eq_length [of ys xs] mset_eq_imp_distinct_iff [of ys xs]
  by auto

lemma pool_ok_same: "same_blocks m m' X \<Longrightarrow> pool_ok m' owned = pool_ok m owned"
proof -
  assume s: "same_blocks m m' X"
  then obtain f where "m' = m\<lparr>blocks := f\<rparr>" by (auto simp: same_blocks_def)
  with s show ?thesis by (auto simp: pool_ok_def same_blocks_def)
qed

lemma unat_Suc_below: "x < (y :: 'a::len word) \<Longrightarrow> unat (x + 1) = unat x + 1"
  by (intro unat_inc le_less_trans [OF _ unsigned_less [of y]]) (simp add: word_less_nat_alt)

lemma rwb_ok_grow:
  assumes "rwb_ok m b" and "\<forall>i\<in>set (mem_blocks b). blocks m' i = blocks m i"
    and "i \<notin> set (mem_blocks b)" and "0 < bsize m' i"
    and "b' = (if mem_blocks b = [] then b\<lparr>read_block := Some i, write_block := Some i\<rparr> else b)
      \<lparr>mem_blocks := mem_blocks b @ [i], cap := cap b + bsize m' i\<rparr>"
  shows "rwb_ok m' b'" and "written m' b' = written m b"
proof -
  have t: "btotal m' us = btotal m us" if "set us \<subseteq> set (mem_blocks b)" for us
    using that assms(2) by (induction us) auto
  have f: "flat m' (mem_blocks b) = flat m (mem_blocks b)"
    using assms(2) by (simp add: flat_def bdata_def cong: map_cong)
  have c: "cursor_ok m' (mem_blocks b @ [i]) blk base pos"
    if co: "cursor_ok m (mem_blocks b) blk base pos" and ne: "mem_blocks b \<noteq> []" for blk base pos
  proof -
    obtain x where x: "blk = Some x" using co ne by (cases blk) (auto simp: cursor_ok_def)
    have "distinct (mem_blocks b)" using assms(1) by (simp add: rwb_ok_def)
    from cursor_ok_SomeE [OF co [unfolded x] this] obtain us vs
      where us: "mem_blocks b = us @ x # vs" "x \<notin> set us" "base = btotal m us" "base \<le> pos" "pos \<le> base + bsize m x" .
    have "btotal m' us = btotal m us" "blocks m' x = blocks m x" using t [of us] us assms(2) by auto
    with us show ?thesis unfolding x by (intro cursor_ok_SomeI [of _ us _ "vs @ [i]"]) auto
  qed
  have e: "b = spy_rw_buffer_init" if "mem_blocks b = []"
    using assms(1) that by (cases b) (auto simp: rwb_ok_def cursor_ok_def spy_rw_buffer_init_def split: option.splits)
  show "rwb_ok m' b'"
  proof (cases "mem_blocks b = []")
    case True
    then show ?thesis using assms(4, 5) by (simp add: e rwb_ok_def cursor_ok_def) (simp add: spy_rw_buffer_init_def)
  next
    case False
    then show ?thesis using assms c t [OF subset_refl] by (auto simp: rwb_ok_def)
  qed
  show "written m' b' = written m b"
    using assms(1, 5) f t [OF subset_refl] by (auto simp: written_def rwb_ok_def)
qed

text \<open>Expanding: one more block from the free list or the allocator, or an error and no change.\<close>

lemma expand_ok:
  assumes "rwb_ok m b" and "pool_ok m (mem_blocks b @ rest)"
  obtains r b' m' where "spy_rw_buffer_expand b m = Some (r, b', m')" "rwb_ok m' b'"
    "pool_ok m' (mem_blocks b' @ rest)" "written m' b' = written m b" "read_pos b' = read_pos b"
    "\<forall>i<next_block m. blocks m' i = blocks m i"
    "r = 0 \<and> room b' = room b + (MEM_BLOCK_SIZE - MEM_BLOCK_HDR) \<or>
     r = - 1 \<and> b' = b \<and> m' = m \<and> free_mem_blocks m = [] \<and>
       (mem_blocks_alloc_limit m \<le> mem_blocks_alloc m \<or> calloc_left m = 0)"
proof -
  have lt: "\<forall>i\<in>set (mem_blocks b). i < next_block m" using assms(2) by (auto simp: pool_ok_def)
  have used: "mem_blocks_used m < mem_blocks_alloc m" if "free_mem_blocks m \<noteq> []"
    using assms(2) that by (simp add: pool_ok_def word_less_nat_alt)
  let ?z = "MEM_BLOCK_SIZE - MEM_BLOCK_HDR"
  have empty: "read_block b = None \<and> write_block b = None" if "mem_blocks b = []"
    using assms(1) that by (auto simp: rwb_ok_def cursor_ok_def split: option.splits)
  consider (err) "free_mem_blocks m = []" "mem_blocks_alloc_limit m \<le> mem_blocks_alloc m \<or> calloc_left m = 0"
    | (new) "free_mem_blocks m = []" "mem_blocks_alloc m < mem_blocks_alloc_limit m" "calloc_left m \<noteq> 0"
    | (free) i free where "free_mem_blocks m = i # free"
    by (cases "free_mem_blocks m"; cases "mem_blocks_alloc_limit m \<le> mem_blocks_alloc m"; cases "calloc_left m = 0")
      (auto simp: not_le)
  then show ?thesis
  proof cases
    case err
    then have "spy_rw_buffer_expand b m = Some (- 1, b, m)"
      by (auto simp: spy_rw_buffer_expand_def calloc_block_def)
    with err show ?thesis using assms by (intro that) auto
  next
    case new
    let ?i = "next_block m"
    let ?m = "m\<lparr>blocks := (blocks m)(?i := fresh_block), next_block := ?i + 1, calloc_left := calloc_left m - 1,
      mem_blocks_alloc := mem_blocks_alloc m + 1, mem_blocks_used := mem_blocks_used m + 1\<rparr>"
    let ?b = "(if mem_blocks b = [] then b\<lparr>read_block := Some ?i, write_block := Some ?i\<rparr> else b)
      \<lparr>mem_blocks := mem_blocks b @ [?i], cap := cap b + bsize ?m ?i\<rparr>"
    have x: "spy_rw_buffer_expand b m = Some (0, ?b, ?m)"
      using new empty by (auto simp: spy_rw_buffer_expand_def calloc_block_def not_le)
    have g: "rwb_ok ?m ?b" "written ?m ?b = written m b"
      using rwb_ok_grow [OF assms(1), of ?m ?i ?b] lt block_size_pos by (auto simp: fresh_block_def)
    have "mem_blocks_used m = mem_blocks_alloc m" using assms(2) new(1) by (simp add: pool_ok_def word_unat_eq_iff)
    then have "unat (mem_blocks_used m + 1) = unat (mem_blocks_used m) + 1"
      using unat_Suc_below [OF new(2)] by simp
    then have "pool_ok ?m (mem_blocks ?b @ rest)"
      using assms(2) new(1) unat_Suc_below [OF new(2)] by (auto simp: pool_ok_def fresh_block_def less_SucI)
    moreover have "room ?b = room b + ?z" using assms(1) by (simp add: room_def rwb_ok_def fresh_block_def)
    ultimately show ?thesis using x g by (intro that [of 0 ?b ?m]) auto
  next
    case free
    let ?m = "m\<lparr>free_mem_blocks := free, mem_blocks_used := mem_blocks_used m + 1\<rparr>"
    let ?b = "(if mem_blocks b = [] then b\<lparr>read_block := Some i, write_block := Some i\<rparr> else b)
      \<lparr>mem_blocks := mem_blocks b @ [i], cap := cap b + bsize ?m i\<rparr>"
    have i: "i \<notin> set (mem_blocks b)" "bsize m i = ?z" using assms(2) free by (auto simp: pool_ok_def)
    have x: "spy_rw_buffer_expand b m = Some (0, ?b, ?m)"
      using free empty by (auto simp: spy_rw_buffer_expand_def)
    have g: "rwb_ok ?m ?b" "written ?m ?b = written m b"
      using rwb_ok_grow [OF assms(1), of ?m i ?b] i block_size_pos by auto
    have "pool_ok ?m (mem_blocks ?b @ rest)"
      using assms(2) free used unat_Suc_below [of "mem_blocks_used m"] by (auto simp: pool_ok_def)
    moreover have "room ?b = room b + ?z" using assms(1) i by (simp add: room_def rwb_ok_def)
    ultimately show ?thesis using x g by (intro that [of 0 ?b ?m]) auto
  qed
qed

lemma reset_loop_eq:
  "reset_loop ids m = m\<lparr>free_mem_blocks := rev ids @ free_mem_blocks m,
     mem_blocks_used := mem_blocks_used m - of_nat (length ids)\<rparr>"
  by (induction ids arbitrary: m) simp_all

lemma reset_ok:
  assumes "pool_ok m (mem_blocks b @ rest)" and "spy_rw_buffer_reset b m = (b', m')"
  shows "pool_ok m' rest" and "b' = spy_rw_buffer_init" and "blocks m' = blocks m"
    and "length (free_mem_blocks m') = length (free_mem_blocks m) + length (mem_blocks b)"
proof -
  let ?n = "length (mem_blocks b)"
  have m': "m' = reset_loop (mem_blocks b) m" using assms(2) by (simp add: spy_rw_buffer_reset_def)
  have "?n \<le> unat (mem_blocks_used m)" using assms(1) by (simp add: pool_ok_def)
  moreover from this have n: "unat (of_nat ?n :: u32) = ?n"
    using unsigned_less [of "mem_blocks_used m", where ?'a = nat] by (simp add: unat_of_nat)
  ultimately have "unat (mem_blocks_used m - of_nat ?n) = unat (mem_blocks_used m) - ?n"
    by (simp add: unat_sub word_le_nat_alt)
  then show "pool_ok m' rest"
    using assms(1) unfolding m' reset_loop_eq by (auto simp: pool_ok_def)
  show "b' = spy_rw_buffer_init"
    using assms(2) by (auto simp: spy_rw_buffer_reset_def spy_rw_buffer_init_def)
  show "blocks m' = blocks m" "length (free_mem_blocks m') = length (free_mem_blocks m) + ?n"
    by (simp_all add: m' reset_loop_eq)
qed

lemma init_mem_blocks_loop_eq:
  "init_mem_blocks_loop n m = m\<lparr>
     blocks := (\<lambda>i. if next_block m \<le> i \<and> i < next_block m + n then fresh_block else blocks m i),
     next_block := next_block m + n, calloc_left := calloc_left m - n,
     free_mem_blocks := rev [next_block m..<next_block m + n] @ free_mem_blocks m\<rparr>"
proof (induction n arbitrary: m)
  case (Suc n)
  have "[next_block m..<next_block m + Suc n] = next_block m # [Suc (next_block m)..<Suc (next_block m) + n]"
    by (simp add: upt_conv_Cons)
  with Suc show ?case by (auto simp: fun_eq_iff)
next
  case 0
  have "(\<lambda>i. if next_block m \<le> i \<and> i < next_block m then fresh_block else blocks m i) = blocks m"
    by (auto simp: fun_eq_iff)
  then show ?case by simp
qed

lemma setup_mem_blocks_ok:
  assumes "spy_setup_mem_blocks n limit m = Some m'" and "n < 2 ^ 32" and "mem_blocks_used m = 0"
  shows "pool_ok m' []" and "length (free_mem_blocks m') = n"
proof -
  have "free_mem_blocks m' = rev [next_block m..<next_block m + n] \<and> next_block m' = next_block m + n \<and>
      (\<forall>i. next_block m \<le> i \<and> i < next_block m + n \<longrightarrow> blocks m' i = fresh_block) \<and>
      mem_blocks_alloc m' = of_nat n \<and> mem_blocks_used m' = 0"
    using assms(1, 3)
    by (auto simp: spy_setup_mem_blocks_def init_mem_blocks_def init_mem_blocks_loop_eq Let_def split: if_splits bind_splits)
  with assms(2) show "pool_ok m' []" "length (free_mem_blocks m') = n"
    by (auto simp: pool_ok_def fresh_block_def unat_of_nat)
qed

section \<open>Properties\<close>

text \<open>A buffer of one block, for the witnesses.\<close>

definition demo_mem :: mem_state where
  "demo_mem = \<lparr>blocks = (\<lambda>_. fresh_block), next_block = 0, calloc_left = 5, free_mem_blocks = [],
     mem_blocks_alloc = 0, mem_blocks_alloc_limit = 1, mem_blocks_used = 0\<rparr>"

lemma demo_expand:
  obtains b m where "spy_rw_buffer_expand spy_rw_buffer_init demo_mem = Some (0, b, m)" "rwb_ok m b"
    "pool_ok m (mem_blocks b)" "written m b = []" "read_pos b = 0" "room b = MEM_BLOCK_SIZE - MEM_BLOCK_HDR"
proof -
  have "rwb_ok demo_mem spy_rw_buffer_init" "pool_ok demo_mem (mem_blocks spy_rw_buffer_init @ [])"
    by (simp_all add: rwb_ok_def cursor_ok_def spy_rw_buffer_init_def pool_ok_def demo_mem_def)
  from expand_ok [OF this] obtain r b m
    where x: "spy_rw_buffer_expand spy_rw_buffer_init demo_mem = Some (r, b, m)" "rwb_ok m b"
      "pool_ok m (mem_blocks b @ [])" "written m b = written demo_mem spy_rw_buffer_init"
      "read_pos b = read_pos spy_rw_buffer_init"
      "r = 0 \<and> room b = room spy_rw_buffer_init + (MEM_BLOCK_SIZE - MEM_BLOCK_HDR) \<or>
       mem_blocks_alloc_limit demo_mem \<le> mem_blocks_alloc demo_mem \<or> calloc_left demo_mem = 0"
    by metis
  have "r = 0 \<and> room b = MEM_BLOCK_SIZE - MEM_BLOCK_HDR"
    using x(6) by (simp add: demo_mem_def room_def spy_rw_buffer_init_def)
  with x that show ?thesis by (simp add: written_def spy_rw_buffer_init_def)
qed

text \<open>(C15) The buffer is a byte stream: on a well-formed buffer \<open>write_n\<close> accepts as many bytes as there
  is room for and appends exactly these, whatever block borders they cross; it returns their number
  and changes no block of another buffer. A following \<open>read_n\<close> of any size returns the oldest unread
  bytes in order and leaves the rest. All three calls return and keep the buffer well-formed.\<close>

theorem rw_buffer_stream:
  assumes "rwb_ok m b"
  shows "\<exists>k b' m'. spy_rw_buffer_write_n b m src = Some (k, b', m') \<and> k = min (length src) (cap b - write_pos b) \<and>
    rwb_ok m' b' \<and> unread m' b' = unread m b @ take k src \<and> same_blocks m m' (set (mem_blocks b)) \<and>
    (\<forall>n. \<exists>b''. spy_rw_buffer_read_n m' b' n = Some (take n (unread m b @ take k src), b'') \<and>
      rwb_ok m' b'' \<and> unread m' b'' = drop n (unread m b @ take k src))"
proof -
  obtain b' m' where w: "spy_rw_buffer_write_n b m src = Some (min (length src) (room b), b', m')"
    "rwb_ok m' b'" "written m' b' = written m b @ take (room b) src" "read_side b' = read_side b" "touched b m m'"
    using write_n_ok [OF assms] by blast
  have u: "unread m' b' = unread m b @ take (min (length src) (room b)) src"
    using unread_write [OF assms w(3, 4)] by (simp add: min_def)
  show ?thesis
    using w u read_n_ok [OF w(2), unfolded u] by (auto simp: room_def touched_def)
qed

theorem rw_buffer_stream_witness:
  "\<exists>b m. spy_rw_buffer_expand spy_rw_buffer_init demo_mem = Some (0, b, m) \<and> rwb_ok m b \<and>
    (\<exists>b' m'. spy_rw_buffer_write_n b m [7, 8, 9] = Some (3, b', m') \<and>
      (\<exists>b''. spy_rw_buffer_read_n m' b' 2 = Some ([7, 8], b'') \<and> unread m' b'' = [9]))"
proof -
  obtain b m where d: "spy_rw_buffer_expand spy_rw_buffer_init demo_mem = Some (0, b, m)" "rwb_ok m b"
    "written m b = []" "room b = MEM_BLOCK_SIZE - MEM_BLOCK_HDR" by (rule demo_expand)
  have "min (length [7, 8, 9 :: u8]) (cap b - write_pos b) = 3" "unread m b = []"
    using d by (simp_all add: room_def MEM_BLOCK_SIZE_def MEM_BLOCK_HDR_def unread_def)
  with rw_buffer_stream [OF d(2), of "[7, 8, 9]"] obtain b' m'
    where w: "spy_rw_buffer_write_n b m [7, 8, 9] = Some (3, b', m')"
      "\<And>n. \<exists>b''. spy_rw_buffer_read_n m' b' n = Some (take (min n 3) [7, 8, 9], b'') \<and> unread m' b'' = drop n [7, 8, 9]"
    by (simp add: numeral_3_eq_3) blast
  have "\<exists>b''. spy_rw_buffer_read_n m' b' 2 = Some ([7, 8], b'') \<and> unread m' b'' = [9]"
    using w(2) [of 2] by simp
  with w(1) d(1, 2) show ?thesis by blast
qed

text \<open>(C26) Repeated reads: after \<open>reset_read\<close> to any position up to the write position, \<open>read_n\<close> returns
  the bytes written from that position on, and the write side is untouched; no assertion of
  \<open>reset_read\<close> fails.\<close>

theorem rw_buffer_reread:
  assumes "rwb_ok m b" and "pos \<le> write_pos b"
  shows "\<exists>b'. spy_rw_buffer_reset_read m b pos = Some b' \<and> rwb_ok m b' \<and> read_pos b' = pos \<and>
    write_side b' = write_side b \<and>
    (\<exists>b''. spy_rw_buffer_read_n m b' n = Some (take n (drop pos (written m b)), b'') \<and>
      unread m b'' = drop n (drop pos (written m b)))"
proof -
  obtain b' where r: "spy_rw_buffer_reset_read m b pos = Some b'" "rwb_ok m b'"
    "unread m b' = drop pos (written m b)" "write_side b' = write_side b" "read_pos b' = pos"
    using reset_read_ok [OF assms] by blast
  then show ?thesis using read_n_ok [OF r(2), of n] by auto
qed

theorem rw_buffer_reread_witness:
  "\<exists>b m. rwb_ok m b \<and> written m b = [5, 6] \<and>
    (\<exists>b' b''. spy_rw_buffer_reset_read m b 1 = Some b' \<and> spy_rw_buffer_read_n m b' 4 = Some ([6], b''))"
proof -
  obtain b m where d: "rwb_ok m b" "written m b = []" "room b = MEM_BLOCK_SIZE - MEM_BLOCK_HDR"
    by (rule demo_expand)
  obtain b' m' where w: "rwb_ok m' b'" "written m' b' = [5, 6]"
    using write_n_ok [OF d(1), of "[5, 6]"] d(2, 3) by (auto simp: MEM_BLOCK_SIZE_def MEM_BLOCK_HDR_def)
  then have "write_pos b' = 2" using length_written [OF w(1)] by simp
  with rw_buffer_reread [OF w(1), of 1 4] w show ?thesis by auto
qed

text \<open>(C16) Memory blocks are conserved: whatever other blocks the buffers of the server own, a buffer that is
  expanded and then reset gives all its blocks back. Expansion keeps the contents, adds the capacity
  of one block or fails with \<open>-1\<close> and no change, and fails only when no block is free and the limit is
  reached or the allocator has no memory; no block is ever in two buffers or lost, and the 32-bit
  counters are exact.\<close>

theorem mem_blocks_conserved:
  assumes "rwb_ok m b" and "pool_ok m (mem_blocks b @ rest)"
  shows "\<exists>r b' m'. spy_rw_buffer_expand b m = Some (r, b', m') \<and> rwb_ok m' b' \<and>
    pool_ok m' (mem_blocks b' @ rest) \<and> written m' b' = written m b \<and> read_pos b' = read_pos b \<and>
    (r = 0 \<and> cap b' - write_pos b' = cap b - write_pos b + (MEM_BLOCK_SIZE - MEM_BLOCK_HDR) \<or>
     r = - 1 \<and> b' = b \<and> m' = m \<and> free_mem_blocks m = [] \<and>
       (mem_blocks_alloc_limit m \<le> mem_blocks_alloc m \<or> calloc_left m = 0)) \<and>
    (\<forall>b'' m''. spy_rw_buffer_reset b' m' = (b'', m'') \<longrightarrow> pool_ok m'' rest \<and> b'' = spy_rw_buffer_init)"
proof -
  obtain r b' m' where x: "spy_rw_buffer_expand b m = Some (r, b', m')" "rwb_ok m' b'"
    "pool_ok m' (mem_blocks b' @ rest)" "written m' b' = written m b" "read_pos b' = read_pos b"
    "r = 0 \<and> room b' = room b + (MEM_BLOCK_SIZE - MEM_BLOCK_HDR) \<or>
     r = - 1 \<and> b' = b \<and> m' = m \<and> free_mem_blocks m = [] \<and>
       (mem_blocks_alloc_limit m \<le> mem_blocks_alloc m \<or> calloc_left m = 0)"
    using expand_ok [OF assms] by metis
  show ?thesis
    using x reset_ok(1, 2) [OF x(3)] unfolding room_def by blast
qed

theorem mem_blocks_conserved_witness:
  "rwb_ok demo_mem spy_rw_buffer_init \<and> pool_ok demo_mem (mem_blocks spy_rw_buffer_init @ []) \<and>
   (\<exists>r b' m'. spy_rw_buffer_expand spy_rw_buffer_init demo_mem = Some (r, b', m') \<and> pool_ok m' (mem_blocks b' @ []))"
proof -
  have r: "rwb_ok demo_mem spy_rw_buffer_init"
    by (simp add: rwb_ok_def cursor_ok_def spy_rw_buffer_init_def)
  have p: "pool_ok demo_mem (mem_blocks spy_rw_buffer_init @ [])"
    by (simp add: spy_rw_buffer_init_def pool_ok_def demo_mem_def)
  show ?thesis using r p mem_blocks_conserved [OF r p] by blast
qed

end
