(* ===== verification/Spy_Adler32.thy ===== *)
theory Spy_Adler32
  imports Spy_Prelude
begin

text \<open>
  The Adler-32 checksum of \<^verbatim>\<open>chunkserver/spy_adler32.c\<close> over contiguous memory, with its unrolled
  loops and deferred reductions, on 64-bit words (\<open>unsigned long\<close>), against the definition of the
  checksum: two running sums, reduced modulo 65521 after every byte.
\<close>

section \<open>The code\<close>

definition BASE :: u64 where "BASE = 65521"
definition NMAX :: nat where "NMAX = 5552"

text \<open>The pair of C variables \<open>adler\<close> and \<open>sum2\<close>.\<close>

type_synonym sums = "u64 \<times> u64"

definition DO1 :: "bytes \<Rightarrow> nat \<Rightarrow> sums \<Rightarrow> sums" where
  "DO1 buf i = (\<lambda>(adler, sum2). let adler = adler + ucast (buf ! i) in (adler, sum2 + adler))"

definition DO2 :: "bytes \<Rightarrow> nat \<Rightarrow> sums \<Rightarrow> sums" where
  "DO2 buf i st = DO1 buf (i + 1) (DO1 buf i st)"

definition DO4 :: "bytes \<Rightarrow> nat \<Rightarrow> sums \<Rightarrow> sums" where
  "DO4 buf i st = DO2 buf (i + 2) (DO2 buf i st)"

definition DO8 :: "bytes \<Rightarrow> nat \<Rightarrow> sums \<Rightarrow> sums" where
  "DO8 buf i st = DO4 buf (i + 4) (DO4 buf i st)"

definition DO16 :: "bytes \<Rightarrow> sums \<Rightarrow> sums" where
  "DO16 buf st = DO8 buf 8 (DO8 buf 0 st)"

text \<open>\<open>do { DO16(buf); buf += 16; } while (--n);\<close>, for \<open>n > 0\<close>\<close>

fun do16_loop :: "nat \<Rightarrow> bytes \<Rightarrow> sums \<Rightarrow> bytes \<times> sums" where
  "do16_loop 0 buf st = (buf, st)"
| "do16_loop (Suc n) buf st = do16_loop n (drop 16 buf) (DO16 buf st)"

definition MOD :: "sums \<Rightarrow> sums" where
  "MOD = (\<lambda>(adler, sum2). (adler mod BASE, sum2 mod BASE))"

text \<open>\<open>while (len >= NMAX) { len -= NMAX; n = NMAX / 16; ... }\<close>\<close>

function nmax_loop :: "nat \<Rightarrow> bytes \<Rightarrow> sums \<Rightarrow> nat \<times> bytes \<times> sums" where
  "nmax_loop len buf st =
     (if NMAX \<le> len then
        (case do16_loop (NMAX div 16) buf st of (buf, st) \<Rightarrow> nmax_loop (len - NMAX) buf (MOD st))
      else (len, buf, st))"
  by pat_completeness auto
termination
  by (relation "measure (\<lambda>(len, buf, st). len)") (auto simp: NMAX_def)

text \<open>\<open>while (len >= 16) { len -= 16; DO16(buf); buf += 16; }\<close>\<close>

function tail16_loop :: "nat \<Rightarrow> bytes \<Rightarrow> sums \<Rightarrow> nat \<times> bytes \<times> sums" where
  "tail16_loop len buf st =
     (if 16 \<le> len then tail16_loop (len - 16) (drop 16 buf) (DO16 buf st) else (len, buf, st))"
  by pat_completeness auto
termination
  by (relation "measure (\<lambda>(len, buf, st). len)") auto

text \<open>\<open>while (len--) { adler += *buf++; sum2 += adler; }\<close>\<close>

fun tail1_loop :: "nat \<Rightarrow> bytes \<Rightarrow> sums \<Rightarrow> sums" where
  "tail1_loop 0 buf st = st"
| "tail1_loop (Suc len) buf st = tail1_loop len (drop 1 buf) (DO1 buf 0 st)"

declare nmax_loop.simps [simp del] tail16_loop.simps [simp del]

text \<open>
  The two loops over one contiguous area, shared by \<open>spy_adler32\<close> (lines 153 to 178) and
  \<open>spy_buffer_adler32\<close> (lines 78 to 102).
\<close>

definition adler_run :: "nat \<Rightarrow> bytes \<Rightarrow> sums \<Rightarrow> sums" where
  "adler_run len buf st =
     (case nmax_loop len buf st of (len, buf, st) \<Rightarrow>
        if len \<noteq> 0 then
          (case tail16_loop len buf st of (len, buf, st) \<Rightarrow> MOD (tail1_loop len buf st))
        else st)"

definition adler_join :: "sums \<Rightarrow> u64" where
  "adler_join = (\<lambda>(adler, sum2). adler OR push_bit 16 sum2)"

text \<open>
  \<open>buf\<close> is \<^term>\<open>None\<close> for the null pointer; reading past the memory at \<open>buf\<close> is undefined and
  modelled as not returning.
\<close>

definition spy_adler32 :: "u64 \<Rightarrow> bytes option \<Rightarrow> nat \<Rightarrow> u64 option" where
  "spy_adler32 adler buf len =
     (let sum2 = drop_bit 16 adler AND 0xffff;
          adler = adler AND 0xffff
      in if len = 1 then
           (case buf of Some (x # _) \<Rightarrow>
              (let adler = adler + ucast x;
                   adler = (if BASE \<le> adler then adler - BASE else adler);
                   sum2 = sum2 + adler;
                   sum2 = (if BASE \<le> sum2 then sum2 - BASE else sum2)
               in Some (adler_join (adler, sum2)))
            | _ \<Rightarrow> None)
         else (case buf of None \<Rightarrow> Some 1
         | Some b \<Rightarrow>
             if length b < len then None
             else if len < 16 then
               (case tail1_loop len b (adler, sum2) of (adler, sum2) \<Rightarrow>
                  let adler = (if BASE \<le> adler then adler - BASE else adler)
                  in Some (adler_join (adler, sum2 mod BASE)))
             else Some (adler_join (adler_run len b (adler, sum2)))))"

text \<open>\<open>len2\<close> is an \<open>off_t\<close>; \<open>rem\<close> is a 32-bit \<open>unsigned\<close>, widened before the product.\<close>

definition adler32_combine :: "u64 \<Rightarrow> u64 \<Rightarrow> u64 \<Rightarrow> u64" where
  "adler32_combine adler1 adler2 len2 =
     (let rem = (ucast (ucast (len2 mod BASE) :: u32) :: u64);
          sum1 = adler1 AND 0xffff;
          sum2 = rem * sum1;
          sum2 = sum2 mod BASE;
          sum1 = sum1 + ((adler2 AND 0xffff) + BASE - 1);
          sum2 = sum2 + ((drop_bit 16 adler1 AND 0xffff) + (drop_bit 16 adler2 AND 0xffff) + BASE - rem);
          sum1 = (if sum1 > BASE then sum1 - BASE else sum1);
          sum1 = (if sum1 > BASE then sum1 - BASE else sum1);
          sum2 = (if sum2 > push_bit 1 BASE then sum2 - push_bit 1 BASE else sum2);
          sum2 = (if sum2 > BASE then sum2 - BASE else sum2)
      in sum1 OR push_bit 16 sum2)"

section \<open>The reference\<close>

text \<open>Both sums reduced after every byte, on natural numbers.\<close>

fun adler_ref :: "nat \<times> nat \<Rightarrow> bytes \<Rightarrow> nat \<times> nat" where
  "adler_ref (a, s) [] = (a, s)"
| "adler_ref (a, s) (x # xs) =
     (let a' = (a + unat x) mod 65521 in adler_ref (a', (s + a') mod 65521) xs)"

text \<open>The same sums with no reduction.\<close>

fun adler_raw :: "nat \<times> nat \<Rightarrow> bytes \<Rightarrow> nat \<times> nat" where
  "adler_raw (a, s) [] = (a, s)"
| "adler_raw (a, s) (x # xs) = adler_raw (a + unat x, s + (a + unat x)) xs"

definition mod_pair :: "nat \<times> nat \<Rightarrow> nat \<times> nat" where
  "mod_pair = (\<lambda>(a, s). (a mod 65521, s mod 65521))"

definition unats :: "sums \<Rightarrow> nat \<times> nat" where
  "unats = (\<lambda>(a, s). (unat a, unat s))"

lemma adler_ref_Nil [simp]: "adler_ref st [] = st"
  by (cases st) simp

lemma adler_ref_append: "adler_ref st (xs @ ys) = adler_ref (adler_ref st xs) ys"
  by (induction st xs rule: adler_ref.induct) (auto simp: Let_def)

lemma adler_raw_append: "adler_raw st (xs @ ys) = adler_raw (adler_raw st xs) ys"
  by (induction st xs rule: adler_raw.induct) auto

lemma adler_ref_mod_pair: "mod_pair (adler_raw st xs) = adler_ref (mod_pair st) xs"
proof (induction st xs rule: adler_raw.induct)
  case (2 a s x xs)
  have "(a mod 65521 + unat x) mod 65521 = (a + unat x) mod 65521" by (rule mod_add_left_eq)
  moreover have "(s mod 65521 + (a + unat x) mod 65521) mod 65521 = (s + (a + unat x)) mod 65521"
    by (rule mod_add_eq)
  ultimately show ?case
    by (simp only: adler_raw.simps 2) (simp only: mod_pair_def split adler_ref.simps Let_def)
qed (simp add: mod_pair_def)

lemma adler_raw_bounds:
  "fst (adler_raw (a, s) xs) \<le> a + 255 * length xs"
  "snd (adler_raw (a, s) xs) \<le> s + length xs * (a + 255 * length xs)"
proof (induction xs arbitrary: a s)
  case (Cons x xs)
  have x: "unat x \<le> 255" using unsigned_less [of x, where ?'a = nat] by simp
  {
    case 1
    show ?case using Cons.IH(1) [of "a + unat x" "s + (a + unat x)"] x by simp
  next
    case 2
    let ?q = "a + 255 * length (x # xs)"
    have "length xs * (a + unat x + 255 * length xs) \<le> length xs * ?q"
      using x by (intro mult_le_mono2) simp
    moreover have "length (x # xs) * ?q = ?q + length xs * ?q" by simp
    moreover have "a + unat x \<le> ?q" using x by simp
    ultimately show ?case
      using Cons.IH(2) [where a = "a + unat x" and s = "s + (a + unat x)"]
      unfolding adler_raw.simps by linarith
  }
qed simp_all

text \<open>The word-level accumulation over a list of bytes, which all loops compute.\<close>

definition acc1 :: "u8 \<Rightarrow> sums \<Rightarrow> sums" where
  "acc1 x = (\<lambda>(adler, sum2). (adler + ucast x, sum2 + (adler + ucast x)))"

lemma DO1_acc: "DO1 buf i st = acc1 (buf ! i) st"
  by (cases st) (simp add: DO1_def acc1_def Let_def)

definition acc_at :: "bytes \<Rightarrow> nat \<Rightarrow> nat \<Rightarrow> sums \<Rightarrow> sums" where
  "acc_at buf i n = fold acc1 (take n (drop i buf))"

lemma acc_at_add: "acc_at buf (i + m) n (acc_at buf i m st) = acc_at buf i (m + n) st"
  by (simp add: acc_at_def take_add add.commute)

lemma DO_acc_at:
  "i < length buf \<Longrightarrow> DO1 buf i st = acc_at buf i 1 st"
  "i + 1 < length buf \<Longrightarrow> DO2 buf i st = acc_at buf i 2 st"
  "i + 3 < length buf \<Longrightarrow> DO4 buf i st = acc_at buf i 4 st"
  "i + 7 < length buf \<Longrightarrow> DO8 buf i st = acc_at buf i 8 st"
proof -
  have d1: "DO1 buf i st = acc_at buf i 1 st" if "i < length buf" for i st
    using that by (simp add: acc_at_def DO1_acc take_Suc_conv_app_nth flip: Cons_nth_drop_Suc)
  have d2: "DO2 buf i st = acc_at buf i 2 st" if "i + 1 < length buf" for i st
    using that acc_at_add [of buf i 1 1 st] by (simp add: DO2_def d1 flip: numeral_2_eq_2)
  have d4: "DO4 buf i st = acc_at buf i 4 st" if "i + 3 < length buf" for i st
    using that acc_at_add [of buf i 2 2 st] by (simp add: DO4_def d2)
  have d8: "DO8 buf i st = acc_at buf i 8 st" if "i + 7 < length buf" for i st
    using that acc_at_add [of buf i 4 4 st] by (simp add: DO8_def d4)
  show "i < length buf \<Longrightarrow> DO1 buf i st = acc_at buf i 1 st"
    "i + 1 < length buf \<Longrightarrow> DO2 buf i st = acc_at buf i 2 st"
    "i + 3 < length buf \<Longrightarrow> DO4 buf i st = acc_at buf i 4 st"
    "i + 7 < length buf \<Longrightarrow> DO8 buf i st = acc_at buf i 8 st"
    by (rule d1 d2 d4 d8, assumption)+
qed

lemma DO16_fold: "16 \<le> length buf \<Longrightarrow> DO16 buf st = fold acc1 (take 16 buf) st"
  using acc_at_add [of buf 0 8 8 st] by (simp add: DO16_def DO_acc_at) (simp add: acc_at_def)

text \<open>No overflow: as long as the bounds hold, the word sums are the unreduced sums.\<close>

lemma unat_acc1:
  assumes "unat a + 255 < 2 ^ 32" and "unat s + unat a + 255 < 2 ^ 64"
  shows "unats (acc1 x (a, s)) = (unat a + unat x, unat s + (unat a + unat x))"
proof -
  have x: "unat x \<le> 255" using unsigned_less [of x, where ?'a = nat] by simp
  have u: "unat (ucast x :: u64) = unat x" using x by (simp add: unsigned_ucast_eq take_bit_nat_eq_self)
  have a: "unat (a + ucast x) = unat a + unat x"
    using x assms(1) u by (subst unat_add_lem [THEN iffD1]) simp_all
  have "unat (s + (a + ucast x)) = unat s + (unat a + unat x)"
    using x assms(2) a by (subst unat_add_lem [THEN iffD1]) simp_all
  with a show ?thesis by (simp add: unats_def acc1_def)
qed

lemma unats_fold_acc1:
  assumes "unat a + 255 * length xs < 2 ^ 32"
    and "unat s + length xs * (unat a + 255 * length xs) < 2 ^ 64"
  shows "unats (fold acc1 xs (a, s)) = adler_raw (unat a, unat s) xs"
  using assms
proof (induction xs arbitrary: a s)
  case (Cons x xs)
  let ?q = "unat a + 255 * length (x # xs)"
  have x: "unat x \<le> 255" using unsigned_less [of x, where ?'a = nat] by simp
  have q: "length (x # xs) * ?q = ?q + length xs * ?q" by simp
  have "unat s + unat a + 255 < 2 ^ 64" using Cons.prems(2) q by simp
  moreover have "unat a + 255 < 2 ^ 32" using Cons.prems(1) by simp
  moreover obtain a' s' where st: "acc1 x (a, s) = (a', s')" by (cases "acc1 x (a, s)")
  ultimately have u: "unat a' = unat a + unat x" "unat s' = unat s + (unat a + unat x)"
    using unat_acc1 [of a s x] by (simp_all add: unats_def)
  have "length xs * (unat a' + 255 * length xs) \<le> length xs * ?q"
    using x u by (intro mult_le_mono2) simp
  moreover have "unat a + unat x \<le> ?q" using x by simp
  ultimately have "unat s' + length xs * (unat a' + 255 * length xs) < 2 ^ 64"
    using Cons.prems(2) q u(2) by linarith
  moreover have "unat a' + 255 * length xs < 2 ^ 32" using Cons.prems(1) x u by simp
  ultimately show ?case using Cons.IH [of a' s'] by (simp add: st u)
qed (simp add: unats_def)

section \<open>The loops compute the reference\<close>

definition reduced :: "sums \<Rightarrow> bool" where
  "reduced = (\<lambda>(adler, sum2). adler < BASE \<and> sum2 < BASE)"

lemma unat_BASE [simp]: "unat BASE = 65521"
  by (simp add: BASE_def)

lemma reduced_unat: "reduced (a, s) \<longleftrightarrow> unat a < 65521 \<and> unat s < 65521"
  by (simp add: reduced_def word_less_nat_alt)

lemma unats_MOD: "unats (MOD st) = mod_pair (unats st)"
  by (cases st) (simp add: unats_def MOD_def mod_pair_def unat_mod_distrib)

lemma reduced_MOD: "reduced (MOD st)"
  by (cases st) (simp add: MOD_def reduced_unat unat_mod_distrib)

lemma mod_pair_reduced: "reduced st \<Longrightarrow> mod_pair (unats st) = unats st"
  by (cases st) (simp add: unats_def mod_pair_def reduced_unat)

text \<open>This is what the constant \<open>NMAX\<close> is for: a whole block before one reduction.\<close>

lemma block_ref:
  assumes "reduced st" and "length xs \<le> NMAX"
  shows "unats (MOD (fold acc1 xs st)) = adler_ref (unats st) xs"
proof -
  obtain a s where st: "st = (a, s)" by (cases st)
  have r: "unat a < 65521" "unat s < 65521" using assms(1) by (simp_all add: st reduced_unat)
  have n: "length xs \<le> 5552" using assms(2) by (simp add: NMAX_def)
  have "length xs * (unat a + 255 * length xs) \<le> 5552 * (65521 + 255 * 5552)"
    using r n by (intro mult_le_mono) simp_all
  then have "unats (fold acc1 xs st) = adler_raw (unats st) xs"
    using unats_fold_acc1 [of a xs s] r n by (simp add: st unats_def)
  then show ?thesis
    using assms(1) by (simp add: unats_MOD adler_ref_mod_pair mod_pair_reduced)
qed

lemma do16_loop_eq:
  "16 * n \<le> length buf \<Longrightarrow>
     do16_loop n buf st = (drop (16 * n) buf, fold acc1 (take (16 * n) buf) st)"
proof (induction n arbitrary: buf st)
  case (Suc n)
  then have "take (16 * Suc n) buf = take 16 buf @ take (16 * n) (drop 16 buf)"
    by (simp flip: take_add)
  with Suc show ?case by (simp add: DO16_fold add.commute)
qed simp

lemma tail1_loop_eq: "len \<le> length buf \<Longrightarrow> tail1_loop len buf st = fold acc1 (take len buf) st"
  by (induction len buf st rule: tail1_loop.induct) (auto simp: DO1_acc neq_Nil_conv Suc_le_length_iff)

lemma tail_loops_eq:
  "len \<le> length buf \<Longrightarrow> tail16_loop len buf st = (len', buf', st') \<Longrightarrow>
     tail1_loop len' buf' st' = fold acc1 (take len buf) st"
proof (induction len buf st rule: tail16_loop.induct)
  case (1 len buf st)
  show ?case
  proof (cases "16 \<le> len")
    case True
    have "take len buf = take 16 buf @ take (len - 16) (drop 16 buf)"
      using True take_add [of 16 "len - 16" buf] by simp
    with True 1 show ?thesis
      by (simp add: tail16_loop.simps [of len] DO16_fold)
  next
    case False
    with 1 show ?thesis by (simp add: tail16_loop.simps [of len] tail1_loop_eq)
  qed
qed

lemma nmax_loop_ref:
  "len \<le> length buf \<Longrightarrow> reduced st \<Longrightarrow> nmax_loop len buf st = (len', buf', st') \<Longrightarrow>
     len' < NMAX \<and> len' \<le> len \<and> buf' = drop (len - len') buf \<and> reduced st' \<and>
     unats st' = adler_ref (unats st) (take (len - len') buf)"
proof (induction len buf st rule: nmax_loop.induct)
  case (1 len buf st)
  show ?case
  proof (cases "NMAX \<le> len")
    case True
    have m: "16 * (NMAX div 16) = NMAX" by (simp add: NMAX_def)
    let ?st = "MOD (fold acc1 (take NMAX buf) st)"
    have d: "do16_loop (NMAX div 16) buf st = (drop NMAX buf, fold acc1 (take NMAX buf) st)"
      using do16_loop_eq [of "NMAX div 16" buf st] True "1.prems"(1) m by simp
    have IH: "len' < NMAX \<and> len' \<le> len - NMAX \<and> buf' = drop (len - NMAX - len') (drop NMAX buf) \<and>
        reduced st' \<and> unats st' = adler_ref (unats ?st) (take (len - NMAX - len') (drop NMAX buf))"
      using "1.IH" [OF True d [symmetric]] "1.prems" True d
      by (simp add: nmax_loop.simps [of len] reduced_MOD)
    have "unats ?st = adler_ref (unats st) (take NMAX buf)"
      by (rule block_ref [OF "1.prems"(2)]) simp
    moreover have "len' \<le> len - NMAX" using IH by simp
    then have "len - len' = NMAX + (len - NMAX - len')" using True by linarith
    ultimately show ?thesis
      using IH True by (simp add: take_add adler_ref_append add.commute)
  next
    case False
    with "1.prems" show ?thesis by (auto simp: nmax_loop.simps [of len])
  qed
qed

lemma adler_run_ref:
  assumes "len \<le> length buf" and "reduced st"
  shows "unats (adler_run len buf st) = adler_ref (unats st) (take len buf)"
    and "reduced (adler_run len buf st)"
proof -
  obtain l b t where n: "nmax_loop len buf st = (l, b, t)" by (metis prod_cases3)
  note N = nmax_loop_ref [OF assms n]
  obtain l' b' t' where u: "tail16_loop l b t = (l', b', t')" by (metis prod_cases3)
  have "l \<le> length b" using N assms(1) by simp
  then have t: "tail1_loop l' b' t' = fold acc1 (take l b) t" using u by (rule tail_loops_eq)
  have "unats (MOD (fold acc1 (take l b) t)) = adler_ref (unats t) (take l b)"
    using N by (intro block_ref) (simp_all add: min.coboundedI2)
  also have "\<dots> = adler_ref (unats st) (take (len - l) buf @ take l (drop (len - l) buf))"
    using N by (simp add: adler_ref_append)
  also have "\<dots> = adler_ref (unats st) (take len buf)"
    using N by (simp flip: take_add)
  finally show "unats (adler_run len buf st) = adler_ref (unats st) (take len buf)"
    using N t u by (simp add: adler_run_def n)
  show "reduced (adler_run len buf st)"
    using N u by (simp add: adler_run_def n reduced_MOD)
qed

section \<open>Checksum values\<close>

definition halves :: "u64 \<Rightarrow> sums" where
  "halves adler = (adler AND 0xffff, drop_bit 16 adler AND 0xffff)"

definition adler_value :: "nat \<times> nat \<Rightarrow> u64" where
  "adler_value = (\<lambda>(a, s). adler_join (of_nat a, of_nat s))"

lemma adler_join_value: "unats st = p \<Longrightarrow> adler_join st = adler_value p"
  by (cases st) (auto simp: unats_def adler_value_def)

lemma mask_16: "(0xffff :: u64) = mask 16"
  by (simp add: mask_eq_exp_minus_1)

lemma halves_take: "halves adler = (take_bit 16 adler, take_bit 16 (drop_bit 16 adler))"
  by (simp add: halves_def mask_16 flip: take_bit_eq_mask)

lemma halves_join:
  assumes "unat a < 65536" and "unat s < 65536"
  shows "halves (adler_join (a, s)) = (a, s)"
proof -
  have t: "take_bit 16 a = a" "take_bit 16 s = s"
    using assms by (simp_all add: word_unat_eq_iff unsigned_take_bit_eq take_bit_nat_eq_self)
  have "drop_bit 16 a = 0"
    by (subst t(1) [symmetric]) (simp add: drop_bit_take_bit)
  moreover have "take_bit 16 (drop_bit 16 (push_bit 16 s)) = take_bit 16 s"
    by (rule bit_word_eqI) (auto simp: bit_simps)
  ultimately show ?thesis
    using t by (simp add: halves_take adler_join_def take_bit_push_bit del: drop_bit_push_bit)
qed

lemma unat_cond_sub:
  "unat (if BASE \<le> x then x - BASE else x) = (if 65521 \<le> unat x then unat x - 65521 else unat x)"
  by (simp add: word_le_nat_alt unat_sub)

lemma unat_cond_sub_mod:
  "unat x < 2 * 65521 \<Longrightarrow> unat (if BASE \<le> x then x - BASE else x) = unat x mod 65521"
  by (subst unat_cond_sub) (simp add: mod_if)

lemma adler_ref_bounded:
  "fst p < 65521 \<Longrightarrow> snd p < 65521 \<Longrightarrow>
     fst (adler_ref p xs) < 65521 \<and> snd (adler_ref p xs) < 65521"
  by (induction p xs rule: adler_ref.induct) (simp_all add: Let_def)

lemma halves_value:
  assumes "fst p < 65521" and "snd p < 65521"
  shows "unats (halves (adler_value p)) = p"
proof -
  obtain a s where p: "p = (a, s)" by (cases p)
  have u: "unat (of_nat a :: u64) = a" "unat (of_nat s :: u64) = s"
    using assms by (simp_all add: p unat_of_nat)
  show ?thesis
    using assms u by (simp add: p adler_value_def halves_join) (simp add: unats_def)
qed

text \<open>The shortcut for one byte and the one for fewer than 16 bytes.\<close>

lemma spy_adler32_one:
  assumes "reduced (halves adler)"
  shows "spy_adler32 adler (Some (x # b)) 1 = Some (adler_value (adler_ref (unats (halves adler)) [x]))"
proof -
  obtain a s where h: "halves adler = (a, s)" by (cases "halves adler")
  have r: "unat a < 65521" "unat s < 65521" using assms by (simp_all add: h reduced_unat)
  have x: "unat x \<le> 255" using unsigned_less [of x, where ?'a = nat] by simp
  have u: "unat (a + ucast x) = unat a + unat x"
    using unat_acc1 [of a 0 x] r by (simp add: unats_def acc1_def)
  define a' where "a' = (if BASE \<le> a + ucast x then a + ucast x - BASE else a + ucast x)"
  have a': "unat a' = (unat a + unat x) mod 65521"
    unfolding a'_def using r x u by (subst unat_cond_sub_mod) simp_all
  have s': "unat (s + a') = unat s + unat a'"
    using r a' by (intro unat_add_lem [THEN iffD1]) (simp add: a' less_trans [OF add_strict_mono [OF r(2) mod_less_divisor]])
  define s'' where "s'' = (if BASE \<le> s + a' then s + a' - BASE else s + a')"
  have s'': "unat s'' = (unat s + unat a') mod 65521"
    unfolding s''_def using r a' s' by (subst unat_cond_sub_mod) simp_all
  have "spy_adler32 adler (Some (x # b)) 1 = Some (adler_join (a', s''))"
    using h by (simp only: spy_adler32_def halves_def Let_def a'_def s''_def option.case list.case prod.inject simp_thms if_True)
  also have "adler_join (a', s'') = adler_value (adler_ref (unats (halves adler)) [x])"
    by (rule adler_join_value) (simp add: h unats_def a' s'' Let_def)
  finally show ?thesis .
qed

lemma spy_adler32_short:
  assumes "reduced (halves adler)" and "len \<le> length b" and "len < 16" and "len \<noteq> 1"
  shows "spy_adler32 adler (Some b) len =
    Some (adler_value (adler_ref (unats (halves adler)) (take len b)))"
proof -
  let ?xs = "take len b"
  obtain a s where h: "halves adler = (a, s)" by (cases "halves adler")
  have r: "unat a < 65521" "unat s < 65521" using assms by (simp_all add: h reduced_unat)
  obtain a' s' where f: "fold acc1 ?xs (a, s) = (a', s')" by (cases "fold acc1 ?xs (a, s)")
  have "length ?xs * (unat a + 255 * length ?xs) \<le> 16 * (65521 + 255 * 16)"
    using r assms(3) by (intro mult_le_mono) simp_all
  then have raw: "unats (a', s') = adler_raw (unat a, unat s) ?xs"
    using unats_fold_acc1 [of a ?xs s] r assms(3) by (simp add: f)
  have "unat a' < 2 * 65521"
    using raw adler_raw_bounds(1) [of "unat a" "unat s" ?xs] r assms(3)
    by (cases "adler_raw (unat a, unat s) ?xs") (simp add: unats_def)
  then have "unats (if BASE \<le> a' then a' - BASE else a', s' mod BASE) = mod_pair (unats (a', s'))"
    by (simp only: unats_def split unat_cond_sub_mod mod_pair_def) (simp add: unat_mod_distrib)
  also have "\<dots> = adler_ref (unats (halves adler)) ?xs"
    using raw mod_pair_reduced [OF assms(1)] by (simp add: adler_ref_mod_pair h) (simp add: unats_def)
  finally show ?thesis
    using assms h f by (simp add: spy_adler32_def halves_def Let_def tail1_loop_eq adler_join_value)
qed

lemma spy_adler32_ref:
  assumes "reduced (halves adler)" and "len \<le> length b"
  shows "spy_adler32 adler (Some b) len =
    Some (adler_value (adler_ref (unats (halves adler)) (take len b)))"
proof (cases "len < 16")
  case True
  show ?thesis
  proof (cases "len = 1")
    case True
    with assms(2) obtain x c where "b = x # c" by (cases b) auto
    with True spy_adler32_one [OF assms(1)] show ?thesis by simp
  qed (use assms True spy_adler32_short in blast)
next
  case False
  with assms have "spy_adler32 adler (Some b) len = Some (adler_join (adler_run len b (halves adler)))"
    by (simp add: spy_adler32_def halves_def Let_def)
  with assms adler_run_ref(1) [OF assms(2, 1)] show ?thesis by (simp add: adler_join_value)
qed

lemma reduced_value: "fst p < 65521 \<Longrightarrow> snd p < 65521 \<Longrightarrow> reduced (halves (adler_value p))"
  using halves_value [of p] by (cases "halves (adler_value p)") (auto simp: unats_def reduced_unat)

lemma reduced_bounded: "reduced st \<Longrightarrow> fst (unats st) < 65521 \<and> snd (unats st) < 65521"
  by (cases st) (simp add: reduced_unat unats_def)

section \<open>Combining two checksums\<close>

text \<open>Starting the sums higher shifts them: the first by the difference, the second by one per byte.\<close>

lemma adler_raw_shift:
  "adler_raw (a + d, s + t) xs =
     (fst (adler_raw (a, s) xs) + d, snd (adler_raw (a, s) xs) + t + length xs * d)"
proof (induction xs arbitrary: a s t)
  case (Cons x xs)
  show ?case
    using Cons.IH [of "a + unat x" "s + (a + unat x)" "t + d"] by (simp add: algebra_simps)
qed simp

text \<open>What the code makes of a residue: zero is left as the modulus.\<close>

definition nz :: "nat \<Rightarrow> nat" where
  "nz x = (if x = 0 then 65521 else x)"

lemma unat_gt_sub:
  "unat (if x > b then x - b else x) = (if unat b < unat x then unat x - unat b else unat x)"
  for x b :: u64
  by (simp add: word_less_nat_alt unat_sub word_le_nat_alt)

lemma nz_le: "0 < x \<Longrightarrow> x \<le> 65521 \<Longrightarrow> nz (x mod 65521) = x"
  by (cases "x = 65521") (simp_all add: nz_def)

lemma nz_sub: "65521 \<le> x \<Longrightarrow> nz ((x - 65521) mod 65521) = nz (x mod 65521)"
  by (simp add: le_mod_geq)

lemma nz_two:
  assumes "0 < x" and "x \<le> 3 * 65521"
  shows "(let y = (if 65521 < x then x - 65521 else x) in if 65521 < y then y - 65521 else y) =
    nz (x mod 65521)"
  using assms nz_le [of x] nz_le [of "x - 65521"] nz_le [of "x - 65521 - 65521"]
    nz_sub [of x] nz_sub [of "x - 65521"] by (simp add: Let_def)

lemma nz_four:
  assumes "0 < x" and "x \<le> 4 * 65521"
  shows "(let y = (if 131042 < x then x - 131042 else x) in if 65521 < y then y - 65521 else y) =
    nz (x mod 65521)"
proof (cases "131042 < x")
  case True
  then show ?thesis
    using assms nz_le [of "x - 131042"] nz_le [of "x - 131042 - 65521"]
      nz_sub [of x] nz_sub [of "x - 65521"] nz_sub [of "x - 131042"] by (simp add: Let_def)
next
  case False
  then show ?thesis
    using assms nz_le [of x] nz_le [of "x - 65521"] nz_sub [of x] by (simp add: Let_def)
qed

lemma unat_add_small: "unat x + unat y < 2 ^ 64 \<Longrightarrow> unat (x + y) = unat x + unat y" for x y :: u64
  by (rule unat_add_lem [THEN iffD1]) simp

lemma unat_mult_small: "unat x * unat y < 2 ^ 64 \<Longrightarrow> unat (x * y) = unat x * unat y" for x y :: u64
  by (rule unat_mult_lem [THEN iffD1]) simp

lemma combine_sum1:
  fixes a1 a2 :: u64
  assumes "unat a1 < 65521" and "unat a2 < 65521"
  shows "unat (let x = a1 + (a2 + BASE - 1); y = (if x > BASE then x - BASE else x)
    in if y > BASE then y - BASE else y) = nz ((unat a1 + unat a2 + 65520) mod 65521)"
proof -
  have "a2 + BASE - 1 = a2 + 65520" by (simp add: BASE_def)
  moreover have "unat (a1 + (a2 + 65520)) = unat a1 + unat a2 + 65520"
    using assms by (simp add: unat_add_small)
  ultimately have "unat (a1 + (a2 + BASE - 1)) = unat a1 + unat a2 + 65520" by (simp only:)
  then show ?thesis
    using nz_two [of "unat a1 + unat a2 + 65520"] assms by (simp only: Let_def unat_gt_sub unat_BASE)
qed

lemma combine_sum2:
  fixes a1 s1 s2 len2 :: u64
  assumes "unat a1 < 65521" and "unat s1 < 65521" and "unat s2 < 65521"
  shows "unat (let rem = len2 mod BASE; x = rem * a1 mod BASE + (s1 + s2 + BASE - rem);
      y = (if x > push_bit 1 BASE then x - push_bit 1 BASE else x)
    in if y > BASE then y - BASE else y) =
    nz ((unat len2 * unat a1 + unat s1 + unat s2 + (65521 - unat len2 mod 65521)) mod 65521)"
proof -
  let ?r = "len2 mod BASE"
  have r: "unat ?r = unat len2 mod 65521" by (simp add: unat_mod_distrib)
  then have rb: "unat ?r < 65521" by simp
  have "unat ?r * unat a1 \<le> 65521 * 65521" using rb assms(1) by (intro mult_le_mono) simp_all
  then have m: "unat (?r * a1 mod BASE) = unat ?r * unat a1 mod 65521"
    by (simp add: unat_mod_distrib unat_mult_small)
  have c: "unat (s1 + s2 + BASE) = unat s1 + unat s2 + 65521"
    using assms by (simp add: unat_add_small)
  then have d: "unat (s1 + s2 + BASE - ?r) = unat s1 + unat s2 + 65521 - unat ?r"
    using rb by (subst unat_sub) (simp_all add: word_le_nat_alt)
  let ?x = "unat ?r * unat a1 mod 65521 + (unat s1 + unat s2 + 65521 - unat ?r)"
  have mb: "unat ?r * unat a1 mod 65521 < 65521" by simp
  have x: "unat (?r * a1 mod BASE + (s1 + s2 + BASE - ?r)) = ?x"
    using m d rb mb assms by (subst unat_add_small) simp_all
  have two: "unat (push_bit 1 BASE) = 131042" by (simp add: BASE_def)
  have "?x = unat ?r * unat a1 mod 65521 + (unat s1 + unat s2 + (65521 - unat ?r))" using rb by simp
  then have "?x mod 65521 = (unat ?r * unat a1 + (unat s1 + unat s2 + (65521 - unat ?r))) mod 65521"
    by (simp only: mod_add_left_eq)
  also have "\<dots> = (unat len2 * unat a1 + (unat s1 + unat s2 + (65521 - unat len2 mod 65521))) mod 65521"
    unfolding r by (rule mod_add_cong) (simp_all only: mod_mult_left_eq)
  finally have "?x mod 65521 =
      (unat len2 * unat a1 + unat s1 + unat s2 + (65521 - unat len2 mod 65521)) mod 65521"
    by (simp only: add.assoc)
  moreover have "0 < ?x" "?x \<le> 4 * 65521" using rb mb assms by simp_all
  ultimately show ?thesis
    using nz_four [of ?x] x by (simp only: Let_def unat_gt_sub unat_BASE two)
qed

lemma adler_ref_shift:
  assumes "a1 < 65521" and "s1 < 65521" and "adler_ref (1, 0) ys = (a2, s2)"
  shows "adler_ref (a1, s1) ys =
    ((a1 + a2 + 65520) mod 65521,
     (length ys * a1 + s1 + s2 + (65521 - length ys mod 65521)) mod 65521)"
proof -
  obtain a s where raw: "adler_raw (0, 0) ys = (a, s)" by (cases "adler_raw (0, 0) ys")
  let ?n = "length ys"
  have "adler_ref (1, 0) ys = mod_pair (a + 1, s + ?n)"
    using adler_ref_mod_pair [of "(1, 0)" ys] adler_raw_shift [of 0 1 0 0 ys] raw
    by (simp add: mod_pair_def)
  then have r: "a2 = (a + 1) mod 65521" "s2 = (s + ?n) mod 65521"
    using assms(3) by (simp_all add: mod_pair_def)
  have l: "adler_ref (a1, s1) ys = mod_pair (a + a1, s + s1 + ?n * a1)"
    using adler_ref_mod_pair [of "(a1, s1)" ys] adler_raw_shift [of 0 a1 0 s1 ys] raw assms(1, 2)
    by (simp add: mod_pair_def)
  have "a1 + a2 + 65520 = (a1 + 65520) + (a + 1) mod 65521" by (simp add: r)
  then have "(a1 + a2 + 65520) mod 65521 = ((a1 + 65520) + (a + 1)) mod 65521"
    by (simp only: mod_add_right_eq)
  also have "(a1 + 65520) + (a + 1) = (a + a1) + 65521" by simp
  finally have A: "(a1 + a2 + 65520) mod 65521 = (a + a1) mod 65521" by simp
  have "?n + (65521 - ?n mod 65521) = 65521 * (?n div 65521) + 65521"
    using mult_div_mod_eq [of 65521 ?n] mod_less_divisor [of 65521 ?n] by linarith
  then have e: "?n * a1 + s1 + (65521 - ?n mod 65521) + (s + ?n) =
      (s + s1 + ?n * a1) + 65521 * (?n div 65521 + 1)" by simp
  have "?n * a1 + s1 + s2 + (65521 - ?n mod 65521) =
      ?n * a1 + s1 + (65521 - ?n mod 65521) + (s + ?n) mod 65521" by (simp add: r)
  then have "(?n * a1 + s1 + s2 + (65521 - ?n mod 65521)) mod 65521 =
      (?n * a1 + s1 + (65521 - ?n mod 65521) + (s + ?n)) mod 65521" by (simp only: mod_add_right_eq)
  also have "\<dots> = (s + s1 + ?n * a1) mod 65521" unfolding e by (rule mod_mult_self2)
  finally show ?thesis using A l by (simp only: mod_pair_def split)
qed

lemma adler32_combine_ref:
  assumes "reduced (halves adler1)" and "length ys < 2 ^ 63"
  shows "unats (halves (adler32_combine adler1 (adler_value (adler_ref (1, 0) ys)) (of_nat (length ys)))) =
    map_prod nz nz (adler_ref (unats (halves adler1)) ys)"
proof -
  obtain A2 S2 where ref: "adler_ref (1, 0) ys = (A2, S2)" by (cases "adler_ref (1, 0) ys")
  then have b: "A2 < 65521" "S2 < 65521" using adler_ref_bounded [of "(1, 0)" ys] by simp_all
  let ?l = "of_nat (length ys) :: u64" and ?adler2 = "adler_value (A2, S2)"
  obtain a1 s1 where h1: "halves adler1 = (a1, s1)" by (cases "halves adler1")
  obtain a2 s2 where h2: "halves ?adler2 = (a2, s2)" by (cases "halves ?adler2")
  have r1: "unat a1 < 65521" "unat s1 < 65521" using assms(1) by (simp_all add: h1 reduced_unat)
  have u2: "unat a2 = A2" "unat s2 = S2"
    using halves_value [of "(A2, S2)"] b h2 by (simp_all add: unats_def)
  have l: "unat ?l = length ys" using assms(2) by (simp add: unat_of_nat)
  have w: "(ucast (ucast (?l mod BASE) :: u32) :: u64) = ?l mod BASE"
    by (simp add: word_unat_eq_iff unsigned_ucast_eq unsigned_take_bit_eq unat_mod_distrib
        take_bit_nat_eq_self less_trans [OF mod_less_divisor])
  obtain x y where xy: "adler32_combine adler1 ?adler2 ?l = adler_join (x, y)"
    "unat x = nz ((unat a1 + unat a2 + 65520) mod 65521)"
    "unat y = nz ((unat ?l * unat a1 + unat s1 + unat s2 + (65521 - unat ?l mod 65521)) mod 65521)"
    using h1 h2 b r1 u2 combine_sum1 [of a1 a2] combine_sum2 [of a1 s1 s2 ?l]
    by (simp only: adler32_combine_def halves_def prod.inject w adler_join_def split Let_def)
  have nz: "nz (z mod 65521) < 65536" for z
    using less_trans [OF mod_less_divisor, of 65521 65536 z] by (simp add: nz_def)
  then have "halves (adler_join (x, y)) = (x, y)"
    by (intro halves_join) (simp_all only: xy)
  then show ?thesis
    unfolding ref xy(1) using adler_ref_shift [OF r1 ref] xy(2, 3)
    by (simp only: h1 unats_def split map_prod_simp u2 l)
qed

section \<open>Properties\<close>

text \<open>(C17) The optimised checksum is Adler-32: for every start value whose two halves are residues, and
  every length up to the memory at \<open>buf\<close>, \<open>spy_adler32\<close> with its one-byte shortcut, its short
  path, its 5552-byte blocks unrolled by 16 and its deferred reductions returns the value that
  reducing both sums after every byte gives; no intermediate sum overflows.\<close>

theorem spy_adler32_correct:
  assumes "reduced (halves adler)" and "len \<le> length b"
  shows "spy_adler32 adler (Some b) len =
    Some (adler_value (adler_ref (unats (halves adler)) (take len b)))"
  by (rule spy_adler32_ref [OF assms])

theorem spy_adler32_correct_witness:
  "reduced (halves 1) \<and> spy_adler32 1 (Some [97, 98, 99]) 3 = Some 0x024d0127"
proof -
  have r: "reduced (halves 1)" by (simp add: halves_def reduced_def BASE_def)
  have "adler_value (adler_ref (unats (halves 1)) (take 3 [97, 98, 99])) = 0x024d0127"
    by (simp add: adler_value_def adler_join_def halves_def unats_def)
  with r spy_adler32_correct [OF r, of 3 "[97, 98, 99]"] show ?thesis by simp
qed

text \<open>(C27) Checksums can be computed piecewise: feeding the result of one call into the next gives
  the checksum of the concatenation, however the bytes are split; the length argument of the code holds total lengths
  below \<open>2 ^ 32\<close>.\<close>

theorem spy_adler32_append:
  assumes "reduced (halves adler)"
  shows "Option.bind (spy_adler32 adler (Some xs) (length xs)) (\<lambda>m. spy_adler32 m (Some ys) (length ys)) =
    spy_adler32 adler (Some (xs @ ys)) (length (xs @ ys))"
proof -
  let ?p = "adler_ref (unats (halves adler)) xs"
  have b: "fst ?p < 65521" "snd ?p < 65521"
    using reduced_bounded [OF assms] adler_ref_bounded by blast+
  then show ?thesis
    using spy_adler32_ref [OF reduced_value [OF b], of "length ys" ys]
      spy_adler32_ref [OF assms, of "length xs" xs] spy_adler32_ref [OF assms, of "length (xs @ ys)" "xs @ ys"]
    by (simp add: halves_value adler_ref_append)
qed

theorem spy_adler32_append_witness:
  "reduced (halves 1) \<and>
   Option.bind (spy_adler32 1 (Some [97]) 1) (\<lambda>m. spy_adler32 m (Some [98, 99]) 2) =
     spy_adler32 1 (Some [97, 98, 99]) 3"
proof -
  have r: "reduced (halves 1)" by (simp add: halves_def reduced_def BASE_def)
  with spy_adler32_append [OF r, of "[97]" "[98, 99]"] show ?thesis by (simp add: numeral_3_eq_3 numeral_2_eq_2)
qed

text \<open>(C28) \<open>adler32_combine\<close> computes the two sums of the concatenation modulo 65521, except that a sum
  that is 0 is left as 65521: the code compares with \<open>>\<close> where a residue needs \<open>>=\<close>, so the result
  is the checksum of the concatenation exactly when neither of its sums is 0.\<close>

theorem adler32_combine_correct:
  assumes "reduced (halves adler1)" and "length ys < 2 ^ 63"
  shows "unats (halves (adler32_combine adler1 (adler_value (adler_ref (1, 0) ys)) (of_nat (length ys)))) =
    map_prod nz nz (adler_ref (unats (halves adler1)) ys)"
  by (rule adler32_combine_ref [OF assms])

theorem adler32_combine_correct_witness:
  "reduced (halves 0) \<and> halves (adler32_combine 0 (adler_value (adler_ref (1, 0) [1])) 1) = (1, 1) \<and>
   unats (halves (adler32_combine 0 (adler_value (adler_ref (1, 0) [0])) 1)) = (65521, 65521) \<and>
   adler_ref (unats (halves 0)) [0] = (0, 0)"
proof -
  have r: "reduced (halves 0)" by (simp add: halves_def reduced_def BASE_def)
  have "map_prod nz nz (adler_ref (unats (halves 0)) [0]) = (65521, 65521)"
    by (simp add: halves_def unats_def nz_def)
  moreover have "halves (adler32_combine 0 (adler_value (adler_ref (1, 0) [1])) 1) = (1, 1)"
    by (simp add: halves_def adler32_combine_def adler_value_def adler_join_def BASE_def)
  moreover have "adler_ref (unats (halves 0)) [0] = (0, 0)"
    by (simp add: halves_def unats_def)
  ultimately show ?thesis
    using r adler32_combine_correct [OF r, of "[0]"] by simp
qed

end
