(* ===== verification/Spy_BufferAdler.thy ===== *)
theory Spy_BufferAdler
  imports Spy_Adler32 Spy_RwBuffer
begin

text \<open>
  \<open>spy_buffer_adler32\<close> of \<^verbatim>\<open>spy_adler32.c\<close>: the checksum of the next bytes of a read/write buffer, block by
  block, leaving the read position where it was.
\<close>

text \<open>
  The outer loop. The call of \<open>next_readable\<close> stands inside an \<open>assert\<close>; the program is built with
  assertions enabled.
\<close>

function buffer_adler32_loop :: "mem_state \<Rightarrow> nat \<Rightarrow> rw_buffer \<Rightarrow> sums \<Rightarrow> (rw_buffer \<times> sums) option" where
  "buffer_adler32_loop m left buffer st =
     (if left > 0 then do {
        (buffer, next) \<leftarrow> spy_rw_buffer_next_readable m buffer;
        (area, data_len) \<leftarrow> next;
        let nread = (if data_len > left then left else data_len);
        data \<leftarrow> load_area m area nread;
        if nread = 0 then None
        else buffer_adler32_loop m (left - nread) (buffer\<lparr>read_pos := read_pos buffer + nread\<rparr>)
               (adler_run nread data st)
      } else Some (buffer, st))"
  by pat_completeness auto
termination
  by (relation "measure (\<lambda>(m, left, buffer, st). left)") (auto split: if_splits)

declare buffer_adler32_loop.simps [simp del]

definition spy_buffer_adler32 :: "mem_state \<Rightarrow> u64 \<Rightarrow> rw_buffer \<Rightarrow> nat \<Rightarrow> (u64 \<times> rw_buffer) option" where
  "spy_buffer_adler32 m adler buffer len =
     (if len \<le> write_pos buffer - read_pos buffer then do {
        (buffer', st) \<leftarrow> buffer_adler32_loop m len buffer (adler AND 0xffff, drop_bit 16 adler AND 0xffff);
        buffer'' \<leftarrow> spy_rw_buffer_reset_read m buffer' (read_pos buffer);
        Some (adler_join st, buffer'')
      } else None)"

text \<open>The loop sees the unread bytes as one sequence, whatever the block borders.\<close>

lemma buffer_adler32_loop_ref:
  assumes "rwb_ok m b" and "left \<le> length (unread m b)" and "reduced st"
  shows "\<exists>b' st'. buffer_adler32_loop m left b st = Some (b', st') \<and> rwb_ok m b' \<and>
    write_side b' = write_side b \<and> reduced st' \<and> unats st' = adler_ref (unats st) (take left (unread m b))"
  using assms
proof (induction b left arbitrary: st rule: rd.consume_induct)
  case (finish b)
  then show ?case by (auto simp: buffer_adler32_loop.simps [of m 0])
next
  case (more b b' a k left)
  define n where "n = (if k > left then left else k)"
  have n: "0 < n" "n \<le> k" "n \<le> left" using more.hyps(2, 8) by (auto simp: n_def)
  note l = more.hyps(10) [OF n(2)]
  let ?data = "take n (unread m b)"
  have "n \<le> length ?data" using n(3) more.hyps(3) by simp
  note r = adler_run_ref [OF this more.prems]
  obtain b'' st' where IH: "buffer_adler32_loop m (left - n) (advance_read n b') (adler_run n ?data st) = Some (b'', st')"
    "rwb_ok m b''" "write_side b'' = write_side (advance_read n b')" "reduced st'"
    "unats st' = adler_ref (unats (adler_run n ?data st)) (take (left - n) (unread m (advance_read n b')))"
    using more.IH [OF n r(2)] by blast
  have "adler_ref (unats st) (take left (unread m b)) =
      adler_ref (adler_ref (unats st) ?data) (take (left - n) (drop n (unread m b)))"
    using n(3) take_add [of n "left - n" "unread m b"] by (simp add: adler_ref_append)
  then have "unats st' = adler_ref (unats st) (take left (unread m b))"
    using IH(5) r(1) l n by simp
  moreover have "buffer_adler32_loop m left b st = Some (b'', st')"
    using more.hyps(2, 4) l n(1) IH(1)
    by (simp add: buffer_adler32_loop.simps [of m left] n_def [symmetric] advance_read_def)
  ultimately show ?case using IH l by auto
qed

lemma buffer_adler32_ref:
  assumes "rwb_ok m b" and "len \<le> write_pos b - read_pos b" and "reduced (halves adler)"
  shows "\<exists>b'. spy_buffer_adler32 m adler b len =
      Some (adler_value (adler_ref (unats (halves adler)) (take len (unread m b))), b') \<and>
    rwb_ok m b' \<and> unread m b' = unread m b \<and> write_side b' = write_side b \<and> read_pos b' = read_pos b"
proof -
  have "len \<le> length (unread m b)" using assms(1, 2) by (simp add: length_unread)
  then obtain b1 st where l: "buffer_adler32_loop m len b (halves adler) = Some (b1, st)" "rwb_ok m b1"
    "write_side b1 = write_side b" "unats st = adler_ref (unats (halves adler)) (take len (unread m b))"
    using buffer_adler32_loop_ref [OF assms(1) _ assms(3)] by blast
  have "read_pos b \<le> write_pos b1" using assms(1) l(3) by (simp add: rwb_ok_def write_side_def)
  from reset_read_ok [OF l(2) this] obtain b2 where "spy_rw_buffer_reset_read m b1 (read_pos b) = Some b2"
    "rwb_ok m b2" "unread m b2 = drop (read_pos b) (written m b1)" "write_side b2 = write_side b1" "read_pos b2 = read_pos b"
    by blast
  with l assms(2) written_frame [OF l(3)] show ?thesis
    by (auto simp: spy_buffer_adler32_def halves_def adler_join_value unread_def)
qed

text \<open>(C18) The checksum of a buffer is the checksum of the same bytes in contiguous memory: for every
  well-formed buffer that holds at least \<open>len\<close> unread bytes, \<open>spy_buffer_adler32\<close> returns what
  \<open>spy_adler32\<close> returns on these bytes laid out contiguously, and leaves the unread bytes, the read
  position and the write side as they were.\<close>

theorem spy_buffer_adler32_contiguous:
  assumes "rwb_ok m b" and "len \<le> write_pos b - read_pos b" and "reduced (halves adler)"
  shows "\<exists>v b'. spy_buffer_adler32 m adler b len = Some (v, b') \<and>
    spy_adler32 adler (Some (take len (unread m b))) len = Some v \<and>
    rwb_ok m b' \<and> unread m b' = unread m b \<and> write_side b' = write_side b \<and> read_pos b' = read_pos b"
proof -
  have "len \<le> length (take len (unread m b))" using assms(1, 2) by (simp add: length_unread)
  from spy_adler32_ref [OF assms(3) this] buffer_adler32_ref [OF assms] show ?thesis by auto
qed

definition demo_block :: mem_state where
  "demo_block = \<lparr>blocks = (\<lambda>i. \<lparr>mb_size = 2, mb_buf = (\<lambda>k. of_nat (97 + 2 * i + k))\<rparr>), next_block = 2, calloc_left = 0,
     free_mem_blocks = [], mem_blocks_alloc = 2, mem_blocks_alloc_limit = 2, mem_blocks_used = 2\<rparr>"

definition demo_buffer :: rw_buffer where
  "demo_buffer = \<lparr>mem_blocks = [0, 1], read_pos = 0, write_pos = 3, cap = 4, read_block = Some 0,
     write_block = Some 1, read_base = 0, write_base = 2\<rparr>"

lemma demo_buffer_ok: "rwb_ok demo_block demo_buffer" "unread demo_block demo_buffer = [97, 98, 99]"
  by (simp add: rwb_ok_def cursor_ok_def demo_block_def demo_buffer_def)
    (simp add: unread_def written_def flat_def bdata_def demo_block_def demo_buffer_def upt_rec)

theorem spy_buffer_adler32_contiguous_witness:
  "rwb_ok demo_block demo_buffer \<and> unread demo_block demo_buffer = [97, 98, 99] \<and>
   (\<exists>v b'. spy_buffer_adler32 demo_block 1 demo_buffer 3 = Some (v, b') \<and>
     spy_adler32 1 (Some [97, 98, 99]) 3 = Some v)"
proof -
  have r: "reduced (halves 1)" by (simp add: halves_def reduced_def BASE_def)
  have "3 \<le> write_pos demo_buffer - read_pos demo_buffer" by (simp add: demo_buffer_def)
  from spy_buffer_adler32_contiguous [OF demo_buffer_ok(1) this r] demo_buffer_ok show ?thesis by auto
qed

end
