(* ===== verification/Spy_Io.thy ===== *)
theory Spy_Io
  imports Spy_Prelude
begin

text \<open>
  Files and the positioned transfers of \<^verbatim>\<open>spy_utils.c\<close>. The operating system is a parameter of the
  state: a finite script of responses the next calls get (an error number, or a short transfer); when
  the script is used up, calls transfer all they can. A file is the list of its bytes.
\<close>

section \<open>System calls\<close>

datatype errno = EAGAIN | EINTR | EOTHER

text \<open>\<open>SysN k\<close>: the call transfers at most \<open>k + 1\<close> bytes.\<close>

datatype sysresp = SysErr errno | SysN nat

record os =
  files :: "nat \<Rightarrow> bytes"
  fpos :: "nat \<Rightarrow> nat"
  script :: "sysresp list"
  clock :: u64

datatype 'a sysret = Fail errno | Done 'a

definition next_resp :: "os \<Rightarrow> sysresp option \<times> os" where
  "next_resp s = (case script s of [] \<Rightarrow> (None, s) | r # rs \<Rightarrow> (Some r, s\<lparr>script := rs\<rparr>))"

text \<open>How many bytes a call that could transfer \<open>n\<close> transfers.\<close>

definition grant :: "sysresp option \<Rightarrow> nat \<Rightarrow> nat sysret" where
  "grant r n = (case r of None \<Rightarrow> Done n | Some (SysErr e) \<Rightarrow> Fail e | Some (SysN k) \<Rightarrow> Done (min (k + 1) n))"

definition sys_pread :: "os \<Rightarrow> nat \<Rightarrow> nat \<Rightarrow> nat \<Rightarrow> bytes sysret \<times> os" where
  "sys_pread s fd count offset =
     (case next_resp s of (r, s) \<Rightarrow>
        (case grant r (min count (length (files s fd) - offset)) of
           Fail e \<Rightarrow> (Fail e, s)
         | Done n \<Rightarrow> (Done (slice offset n (files s fd)), s)))"

text \<open>A write past the end fills the gap with zeros.\<close>

definition pwrite_at :: "nat \<Rightarrow> bytes \<Rightarrow> bytes \<Rightarrow> bytes" where
  "pwrite_at off bs f =
     (let f = f @ replicate (off - length f) 0 in take off f @ bs @ drop (off + length bs) f)"

definition sys_pwrite :: "os \<Rightarrow> nat \<Rightarrow> bytes \<Rightarrow> nat \<Rightarrow> nat sysret \<times> os" where
  "sys_pwrite s fd buf offset =
     (case next_resp s of (r, s) \<Rightarrow>
        (case grant r (length buf) of
           Fail e \<Rightarrow> (Fail e, s)
         | Done n \<Rightarrow> (Done n, s\<lparr>files := (files s)(fd := pwrite_at offset (take n buf) (files s fd))\<rparr>)))"

text \<open>\<open>read\<close> at the file position.\<close>

definition sys_read :: "os \<Rightarrow> nat \<Rightarrow> nat \<Rightarrow> bytes sysret \<times> os" where
  "sys_read s fd count =
     (case sys_pread s fd count (fpos s fd) of
        (Fail e, s) \<Rightarrow> (Fail e, s)
      | (Done bs, s) \<Rightarrow> (Done bs, s\<lparr>fpos := (fpos s)(fd := fpos s fd + length bs)\<rparr>))"

lemma script_next_resp: "length (script (snd (next_resp s))) \<le> length (script s)"
  by (simp add: next_resp_def split: list.split)

lemma next_resp_cases:
  obtains "script s = []" "next_resp s = (None, s)"
  | r rs where "script s = r # rs" "next_resp s = (Some r, s\<lparr>script := rs\<rparr>)"
  by (cases "script s") (simp_all add: next_resp_def)

lemma sys_pread_measure:
  "sys_pread s fd count offset = (r, s') \<Longrightarrow>
     length (script s') \<le> length (script s) \<and> (\<forall>e. r = Fail e \<longrightarrow> length (script s') < length (script s))"
  by (cases rule: next_resp_cases [of s])
    (auto simp: sys_pread_def grant_def split: sysresp.splits)

lemma sys_pwrite_measure:
  "sys_pwrite s fd buf offset = (r, s') \<Longrightarrow>
     length (script s') \<le> length (script s) \<and> (\<forall>e. r = Fail e \<longrightarrow> length (script s') < length (script s))"
  by (cases rule: next_resp_cases [of s])
    (auto simp: sys_pwrite_def grant_def split: sysresp.splits)

section \<open>The transfer loops\<close>

text \<open>\<open>acc\<close> holds the bytes stored through \<open>p\<close> so far; \<open>total\<close> is their number.\<close>

function pread_loop :: "os \<Rightarrow> nat \<Rightarrow> nat \<Rightarrow> nat \<Rightarrow> bytes \<Rightarrow> int \<times> bytes \<times> os" where
  "pread_loop s fd count offset acc =
     (if count > 0 then
        (case sys_pread s fd count offset of
           (Fail e, s) \<Rightarrow>
             if e = EAGAIN \<or> e = EINTR then pread_loop s fd count offset acc else (- 1, acc, s)
         | (Done bs, s) \<Rightarrow>
             if bs = [] then (- 1, acc, s)
             else pread_loop s fd (count - length bs) (offset + length bs) (acc @ bs))
      else (int (length acc), acc, s))"
  by pat_completeness auto
termination
  by (relation "measure (\<lambda>(s, fd, count, offset, acc). length (script s) + count)")
    (auto dest!: sys_pread_measure [OF sym] simp: neq_Nil_conv)

function pwrite_loop :: "os \<Rightarrow> nat \<Rightarrow> bytes \<Rightarrow> nat \<Rightarrow> nat \<Rightarrow> int \<times> os" where
  "pwrite_loop s fd p offset tot =
     (if p \<noteq> [] then
        (case sys_pwrite s fd p offset of
           (Fail e, s) \<Rightarrow>
             if e = EAGAIN \<or> e = EINTR then pwrite_loop s fd p offset tot else (- 1, s)
         | (Done n, s) \<Rightarrow>
             if n = 0 then (- 1, s)
             else pwrite_loop s fd (drop n p) (offset + n) (tot + n))
      else (int tot, s))"
  by pat_completeness auto
termination
  by (relation "measure (\<lambda>(s, fd, p, offset, tot). length (script s) + length p)")
    (auto dest!: sys_pwrite_measure [OF sym] simp: neq_Nil_conv)

declare pread_loop.simps [simp del] pwrite_loop.simps [simp del]

definition spy_pread :: "os \<Rightarrow> nat \<Rightarrow> nat \<Rightarrow> nat \<Rightarrow> int \<times> bytes \<times> os" where
  "spy_pread s fd count offset = pread_loop s fd count offset []"

definition spy_pwrite :: "os \<Rightarrow> nat \<Rightarrow> bytes \<Rightarrow> nat \<Rightarrow> int \<times> os" where
  "spy_pwrite s fd buf offset = pwrite_loop s fd buf offset 0"

definition spy_current_time_sec :: "os \<Rightarrow> u64" where
  "spy_current_time_sec s = clock s"

section \<open>Facts on files\<close>

lemma slice_zero [simp]: "slice p 0 f = []"
  by (simp add: slice_def)

lemma pwrite_at_inside: "off \<le> length f \<Longrightarrow> pwrite_at off bs f = poke off bs f"
  by (simp add: pwrite_at_def poke_def)

lemma pwrite_at_outside: "length f \<le> off \<Longrightarrow> pwrite_at off bs f = f @ replicate (off - length f) 0 @ bs"
  by (simp add: pwrite_at_def)

lemma length_pwrite_at [simp]: "length (pwrite_at off bs f) = max (length f) (off + length bs)"
proof (cases "off \<le> length f")
  case True
  then show ?thesis by (simp add: pwrite_at_inside poke_def max_def)
qed (simp add: pwrite_at_outside)

lemma pwrite_at_Nil: "off \<le> length f \<Longrightarrow> pwrite_at off [] f = f"
  by (simp add: pwrite_at_inside)

lemma slice_pwrite_same [simp]: "slice off (length bs) (pwrite_at off bs f) = bs"
proof (cases "off \<le> length f")
  case True
  then show ?thesis by (simp add: pwrite_at_inside poke_def slice_def)
qed (simp add: pwrite_at_outside slice_def)

lemma drop_pwrite_after: "off + length bs \<le> p \<Longrightarrow> drop p (pwrite_at off bs f) = drop p f"
proof (cases "off \<le> length f")
  case True
  then show "off + length bs \<le> p \<Longrightarrow> ?thesis" by (simp add: pwrite_at_inside poke_def)
qed (simp add: pwrite_at_outside)

lemma take_pwrite_before: "n \<le> off \<Longrightarrow> n \<le> length f \<Longrightarrow> take n (pwrite_at off bs f) = take n f"
proof (cases "off \<le> length f")
  case True
  then show "n \<le> off \<Longrightarrow> n \<le> length f \<Longrightarrow> ?thesis" by (simp add: pwrite_at_inside poke_def)
qed (simp add: pwrite_at_outside)

lemma slice_pwrite_before:
  "p + n \<le> off \<Longrightarrow> p + n \<le> length f \<Longrightarrow> slice p n (pwrite_at off bs f) = slice p n f"
  by (simp add: slice_def take_drop take_pwrite_before add.commute)

lemma slice_pwrite_after: "off + length bs \<le> p \<Longrightarrow> slice p n (pwrite_at off bs f) = slice p n f"
  by (simp add: slice_def drop_pwrite_after)

lemma pwrite_at_append: "pwrite_at (off + length xs) ys (pwrite_at off xs f) = pwrite_at off (xs @ ys) f"
proof (cases "off \<le> length f")
  case True
  then have "off + length xs \<le> length (poke off xs f)" by (simp add: poke_def)
  with True show ?thesis by (simp add: pwrite_at_inside) (simp add: poke_def ac_simps)
next
  case False
  then show ?thesis by (simp add: pwrite_at_inside) (simp add: pwrite_at_outside poke_def)
qed

section \<open>The loops transfer everything or fail\<close>

text \<open>A script that contains only retries and short transfers.\<close>

definition soft :: "sysresp list \<Rightarrow> bool" where
  "soft = list_all (\<lambda>r. case r of SysErr EOTHER \<Rightarrow> False | _ \<Rightarrow> True)"

lemma soft_simps [simp]:
  "soft []" "soft (SysN k # rs) = soft rs" "soft (SysErr EAGAIN # rs) = soft rs" "soft (SysErr EINTR # rs) = soft rs"
  "\<not> soft (SysErr EOTHER # rs)"
  by (simp_all add: soft_def)

text \<open>What a call leaves alone: everything but the script.\<close>

definition os_frame :: "os \<Rightarrow> os \<Rightarrow> bool" where
  "os_frame s s' \<longleftrightarrow>
     files s' = files s \<and> fpos s' = fpos s \<and> clock s' = clock s \<and> (soft (script s) \<longrightarrow> soft (script s'))"

lemma os_frame_refl [simp]: "os_frame s s"
  by (simp add: os_frame_def)

lemma os_frame_trans: "os_frame s s' \<Longrightarrow> os_frame s' s'' \<Longrightarrow> os_frame s s''"
  by (simp add: os_frame_def)

lemma os_frame_soft: "os_frame s s' \<Longrightarrow> soft (script s) \<Longrightarrow> soft (script s')"
  by (simp add: os_frame_def)

lemma os_frame_simps: "os_frame s s' \<Longrightarrow> files s' = files s \<and> fpos s' = fpos s \<and> clock s' = clock s"
  by (auto simp: os_frame_def)

text \<open>One response: it fails, softly if the script is soft, or grants a positive part of the request.\<close>

lemma next_resp_grant:
  assumes "next_resp s = (r, s')"
  shows "os_frame s s'"
    and "grant r n = Fail e \<Longrightarrow> soft (script s) \<Longrightarrow> e = EAGAIN \<or> e = EINTR"
    and "grant r n = Done k \<Longrightarrow> k \<le> n \<and> (k = 0 \<longrightarrow> n = 0)"
proof -
  consider (ideal) "script s = []" "r = None" "s' = s"
    | (resp) x rs where "script s = x # rs" "r = Some x" "s' = s\<lparr>script := rs\<rparr>"
    using assms by (cases rule: next_resp_cases [of s]) auto
  note c = this
  show "os_frame s s'"
    using c by cases (auto simp: os_frame_def soft_def)
  show "grant r n = Fail e \<Longrightarrow> soft (script s) \<Longrightarrow> e = EAGAIN \<or> e = EINTR"
    using c by cases (auto simp: grant_def soft_def split: sysresp.splits errno.splits)
  show "grant r n = Done k \<Longrightarrow> k \<le> n \<and> (k = 0 \<longrightarrow> n = 0)"
    using c by cases (auto simp: grant_def split: sysresp.splits)
qed

lemma sys_pread_fail:
  assumes "sys_pread s fd count offset = (Fail e, s')"
  shows "os_frame s s'" and "soft (script s) \<Longrightarrow> e = EAGAIN \<or> e = EINTR"
proof -
  obtain r where r: "next_resp s = (r, s')" "\<exists>n. grant r n = Fail e"
    using assms by (auto simp: sys_pread_def split: prod.splits sysret.splits)
  then show "os_frame s s'" "soft (script s) \<Longrightarrow> e = EAGAIN \<or> e = EINTR"
    using next_resp_grant [OF r(1)] by blast+
qed

lemma sys_pread_done:
  assumes "sys_pread s fd count offset = (Done bs, s')"
  shows "os_frame s s'" and "length bs \<le> count" and "bs = slice offset (length bs) (files s fd)"
    and "bs = [] \<Longrightarrow> count = 0 \<or> length (files s fd) \<le> offset"
proof -
  let ?n = "min count (length (files s fd) - offset)"
  obtain r k where r: "next_resp s = (r, s')" and k: "grant r ?n = Done k" "bs = slice offset k (files s' fd)"
    using assms next_resp_grant(1) [of s] os_frame_simps
    by (auto simp: sys_pread_def split: prod.splits sysret.splits)
  note g = next_resp_grant [OF r]
  have k': "k \<le> ?n" "k = 0 \<longrightarrow> ?n = 0" using g(3) [OF k(1)] by simp_all
  have bs: "bs = slice offset k (files s fd)" using k(2) os_frame_simps [OF g(1)] by simp
  then have "length bs = k" using k'(1) by simp
  then show "os_frame s s'" "length bs \<le> count" "bs = slice offset (length bs) (files s fd)"
    "bs = [] \<Longrightarrow> count = 0 \<or> length (files s fd) \<le> offset"
    using g(1) k' bs by auto
qed

text \<open>
  \<open>spy_pread\<close> returns \<open>count\<close> with the bytes of the file, or \<open>-1\<close>; the latter only after a hard error
  or at the end of the file.
\<close>

lemma pread_loop_ok:
  assumes "pread_loop s fd count offset acc = (n, bs, s')"
  shows "os_frame s s' \<and>
    (n = int (length acc + count) \<and> bs = acc @ slice offset count (files s fd) \<and>
       (0 < count \<longrightarrow> offset + count \<le> length (files s fd)) \<or>
     n = - 1 \<and> 0 < count \<and> (soft (script s) \<longrightarrow> length (files s fd) < offset + count))"
  using assms
proof (induction s fd count offset acc rule: pread_loop.induct)
  case (1 s fd count offset acc)
  consider (zero) "count = 0" | (retry) e s1 where "count > 0" "sys_pread s fd count offset = (Fail e, s1)" "e = EAGAIN \<or> e = EINTR"
    | (hard) e s1 where "count > 0" "sys_pread s fd count offset = (Fail e, s1)" "\<not> (e = EAGAIN \<or> e = EINTR)"
    | (eof) s1 where "count > 0" "sys_pread s fd count offset = (Done [], s1)"
    | (some) b s1 where "count > 0" "sys_pread s fd count offset = (Done b, s1)" "b \<noteq> []"
    by (metis gr0I surj_pair sysret.exhaust)
  then show ?case
  proof cases
    case zero
    then show ?thesis using "1.prems" by (auto simp: pread_loop.simps [of s] slice_def)
  next
    case retry
    note f = sys_pread_fail [OF retry(2)]
    have "pread_loop s1 fd count offset acc = (n, bs, s')"
      using "1.prems" retry by (auto simp: pread_loop.simps [of s])
    from "1.IH"(1) [OF retry(1) retry(2) [symmetric] _ retry(3) this] show ?thesis
      using f os_frame_simps [OF f(1)] by (auto intro: os_frame_trans simp: os_frame_def)
  next
    case hard
    then show ?thesis using "1.prems" sys_pread_fail [OF hard(2)] by (auto simp: pread_loop.simps [of s])
  next
    case eof
    then show ?thesis using "1.prems" sys_pread_done [OF eof(2)] by (auto simp: pread_loop.simps [of s])
  next
    case some
    note d = sys_pread_done [OF some(2)]
    have "pread_loop s1 fd (count - length b) (offset + length b) (acc @ b) = (n, bs, s')"
      using "1.prems" some by (auto simp: pread_loop.simps [of s])
    from "1.IH"(2) [OF some(1) some(2) [symmetric] _ some(3) this]
    have IH: "os_frame s1 s' \<and>
      (n = int (length acc + count) \<and> bs = acc @ b @ slice (offset + length b) (count - length b) (files s fd) \<and>
         (0 < count - length b \<longrightarrow> offset + count \<le> length (files s fd)) \<or>
       n = - 1 \<and> 0 < count - length b \<and> (soft (script s1) \<longrightarrow> length (files s fd) < offset + count))"
      using d(2) os_frame_simps [OF d(1)] by auto
    have "b @ slice (offset + length b) (count - length b) (files s fd) = slice offset count (files s fd)"
      using d(2) slice_append_slice [of offset "length b" "files s fd" "count - length b"] d(3) by simp
    moreover have "offset + length b \<le> length (files s fd)"
      using arg_cong [OF d(3), of length] some(3) by (auto simp: neq_Nil_conv)
    ultimately show ?thesis
      using IH d(1, 2) by (auto intro: os_frame_trans simp: os_frame_def)
  qed
qed

lemma pread_loop_length:
  "pread_loop s fd count offset acc = (n, bs, s') \<Longrightarrow> length bs \<le> length acc + count"
proof (induction s fd count offset acc rule: pread_loop.induct)
  case (1 s fd count offset acc)
  show ?case
  proof (cases "sys_pread s fd count offset")
    case (Pair r s1)
    show ?thesis
    proof (cases r)
      case (Fail e)
      with Pair 1 show ?thesis by (auto simp: pread_loop.simps [of s] split: if_splits)
    next
      case (Done b)
      with Pair have "length b \<le> count" using sys_pread_done(2) by blast
      then show ?thesis
        using "1.IH"(2) [OF _ Pair [symmetric] Done] "1.prems" Pair Done
        by (fastforce simp: pread_loop.simps [of s] split: if_splits)
    qed
  qed
qed

text \<open>The state after \<open>bs\<close> have been written at \<open>off\<close>.\<close>

definition fwrote :: "nat \<Rightarrow> nat \<Rightarrow> bytes \<Rightarrow> os \<Rightarrow> os" where
  "fwrote fd off bs s =
     (if bs = [] then s else s\<lparr>files := (files s)(fd := pwrite_at off bs (files s fd))\<rparr>)"

lemma fwrote_append: "fwrote fd (off + length xs) ys (fwrote fd off xs s) = fwrote fd off (xs @ ys) s"
  by (simp add: fwrote_def pwrite_at_append)

lemma script_fwrote [simp]: "script (fwrote fd off bs s) = script s"
  by (simp add: fwrote_def)

lemma os_frame_fwrote: "os_frame s s' \<Longrightarrow> os_frame (fwrote fd off bs s) (fwrote fd off bs s')"
  by (auto simp: os_frame_def fwrote_def)

lemma sys_pwrite_fail:
  assumes "sys_pwrite s fd buf offset = (Fail e, s')"
  shows "os_frame s s'" and "soft (script s) \<Longrightarrow> e = EAGAIN \<or> e = EINTR"
proof -
  obtain r where r: "next_resp s = (r, s')" "grant r (length buf) = Fail e"
    using assms by (auto simp: sys_pwrite_def split: prod.splits sysret.splits)
  then show "os_frame s s'" "soft (script s) \<Longrightarrow> e = EAGAIN \<or> e = EINTR"
    using next_resp_grant [OF r(1)] by blast+
qed

lemma sys_pwrite_done:
  assumes "sys_pwrite s fd buf offset = (Done n, s')" and "buf \<noteq> []"
  shows "os_frame (fwrote fd offset (take n buf) s) s'" and "n \<le> length buf" and "0 < n"
proof -
  obtain r s1 where r: "next_resp s = (r, s1)" and g: "grant r (length buf) = Done n"
    and s': "s' = s1\<lparr>files := (files s1)(fd := pwrite_at offset (take n buf) (files s1 fd))\<rparr>"
    using assms(1) by (auto simp: sys_pwrite_def split: prod.splits sysret.splits)
  show n: "n \<le> length buf" "0 < n" using next_resp_grant(3) [OF r g] assms(2) by auto
  have "s' = fwrote fd offset (take n buf) s1" using n assms(2) s' by (simp add: fwrote_def)
  then show "os_frame (fwrote fd offset (take n buf) s) s'"
    using next_resp_grant(1) [OF r] by (simp add: os_frame_fwrote)
qed

lemma pwrite_loop_ok:
  assumes "pwrite_loop s fd p offset tot = (n, s')"
  shows "\<exists>w\<le>length p. os_frame (fwrote fd offset (take w p) s) s' \<and>
    (n = int (tot + length p) \<and> w = length p \<or> n = - 1 \<and> w < length p \<and> \<not> soft (script s))"
  using assms
proof (induction s fd p offset tot rule: pwrite_loop.induct)
  case (1 s fd p offset tot)
  consider (zero) "p = []" | (retry) e s1 where "p \<noteq> []" "sys_pwrite s fd p offset = (Fail e, s1)" "e = EAGAIN \<or> e = EINTR"
    | (hard) e s1 where "p \<noteq> []" "sys_pwrite s fd p offset = (Fail e, s1)" "\<not> (e = EAGAIN \<or> e = EINTR)"
    | (some) k s1 where "p \<noteq> []" "sys_pwrite s fd p offset = (Done k, s1)"
    by (metis surj_pair sysret.exhaust)
  then show ?case
  proof cases
    case zero
    then show ?thesis using "1.prems" by (auto simp: pwrite_loop.simps [of s] fwrote_def)
  next
    case retry
    note f = sys_pwrite_fail [OF retry(2)]
    have "pwrite_loop s1 fd p offset tot = (n, s')"
      using "1.prems" retry by (auto simp: pwrite_loop.simps [of s])
    from "1.IH"(1) [OF retry(1) retry(2) [symmetric] _ retry(3) this] obtain w where
      "w \<le> length p" "os_frame (fwrote fd offset (take w p) s1) s'"
      "n = int (tot + length p) \<and> w = length p \<or> n = - 1 \<and> w < length p \<and> \<not> soft (script s1)" by blast
    then show ?thesis
      using os_frame_trans [OF os_frame_fwrote [OF f(1)]] os_frame_soft [OF f(1)] by blast
  next
    case hard
    have "n = - 1 \<and> s' = s1" using "1.prems" hard by (auto simp: pwrite_loop.simps [of s])
    then show ?thesis
      using sys_pwrite_fail [OF hard(2)] hard by (intro exI [of _ 0]) (auto simp: fwrote_def)
  next
    case some
    note d = sys_pwrite_done [OF some(2, 1)]
    have "pwrite_loop s1 fd (drop k p) (offset + k) (tot + k) = (n, s')"
      using "1.prems" some d(3) by (auto simp: pwrite_loop.simps [of s])
    from "1.IH"(2) [OF some(1) some(2) [symmetric] _ _ this] d(3) obtain w where
      w: "w \<le> length p - k" "os_frame (fwrote fd (offset + k) (take w (drop k p)) s1) s'"
        "n = int (tot + k + (length p - k)) \<and> w = length p - k \<or> n = - 1 \<and> w < length p - k \<and> \<not> soft (script s1)"
      by auto
    have "fwrote fd (offset + k) (take w (drop k p)) (fwrote fd offset (take k p) s) = fwrote fd offset (take (k + w) p) s"
      using fwrote_append [of fd offset "take k p" "take w (drop k p)" s] d(2) by (simp add: take_add)
    with w(2) os_frame_fwrote [OF d(1), of fd "offset + k" "take w (drop k p)"]
    have "os_frame (fwrote fd offset (take (k + w) p) s) s'" by (metis os_frame_trans)
    moreover have "\<not> soft (script s1) \<longrightarrow> \<not> soft (script s)" using d(1) by (auto simp: os_frame_def)
    ultimately show ?thesis using w(1, 3) d(2) by (intro exI [of _ "k + w"]) auto
  qed
qed

lemma spy_pread_ok:
  assumes "spy_pread s fd count offset = (n, bs, s')"
  shows "os_frame s s'"
    and "n = int count \<and> bs = slice offset count (files s fd) \<and> (0 < count \<longrightarrow> offset + count \<le> length (files s fd)) \<or>
      n = - 1 \<and> 0 < count \<and> (soft (script s) \<longrightarrow> length (files s fd) < offset + count)"
  using pread_loop_ok [OF assms [unfolded spy_pread_def]] by auto

lemma spy_pread_length: "spy_pread s fd count offset = (n, bs, s') \<Longrightarrow> length bs \<le> count"
  using pread_loop_length [of s fd count offset "[]"] by (simp add: spy_pread_def)

lemma spy_pwrite_ok:
  assumes "spy_pwrite s fd buf offset = (n, s')"
  obtains w where "w \<le> length buf" "os_frame (fwrote fd offset (take w buf) s) s'"
    "n = int (length buf) \<and> w = length buf \<or> n = - 1 \<and> w < length buf \<and> \<not> soft (script s)"
  using pwrite_loop_ok [OF assms [unfolded spy_pwrite_def]] by auto

section \<open>Properties\<close>

text \<open>(C21) Positioned writes are complete or fail: under every sequence of short transfers, interrupted
  calls and hard errors, \<open>spy_pwrite\<close> returns, and either it returns the full count, the file holds
  the buffer at the offset and is otherwise unchanged, or it returns \<open>-1\<close>, a hard error occurred and
  a proper prefix was written. Reading the range back with \<open>spy_pread\<close> then gives the buffer, unless a
  hard error occurs.\<close>

theorem pwrite_pread:
  assumes "spy_pwrite s fd buf offset = (n, s')"
  shows "(n = int (length buf) \<and> os_frame (fwrote fd offset buf s) s' \<and>
      (soft (script s') \<longrightarrow> (\<exists>s''. spy_pread s' fd (length buf) offset = (int (length buf), buf, s'')))) \<or>
    (n = - 1 \<and> \<not> soft (script s) \<and> (\<exists>w<length buf. os_frame (fwrote fd offset (take w buf) s) s'))"
proof -
  obtain w where w: "w \<le> length buf" "os_frame (fwrote fd offset (take w buf) s) s'"
    "n = int (length buf) \<and> w = length buf \<or> n = - 1 \<and> w < length buf \<and> \<not> soft (script s)"
    using spy_pwrite_ok [OF assms] .
  obtain k bs s'' where r: "spy_pread s' fd (length buf) offset = (k, bs, s'')" by (metis prod_cases3)
  have "buf \<noteq> [] \<Longrightarrow> w = length buf \<Longrightarrow> files s' fd = pwrite_at offset buf (files s fd)"
    using os_frame_simps [OF w(2)] by (simp add: fwrote_def)
  then have "soft (script s') \<Longrightarrow> w = length buf \<Longrightarrow> k = int (length buf) \<and> bs = buf"
    using spy_pread_ok(2) [OF r] by (cases "buf = []") auto
  then show ?thesis using w r by auto
qed

theorem pwrite_pread_witness:
  "\<exists>s'. spy_pwrite \<lparr>files = (\<lambda>_. [0, 0, 0, 0]), fpos = (\<lambda>_. 0), script = [SysN 0, SysErr EINTR, SysN 0, SysErr EAGAIN], clock = 0\<rparr>
      3 [7, 8, 9] 1 = (3, s') \<and> files s' 3 = [0, 7, 8, 9] \<and>
    (\<exists>s''. spy_pread s' 3 3 1 = (3, [7, 8, 9], s''))"
proof -
  let ?s = "\<lparr>files = (\<lambda>_. [0, 0, 0, 0]), fpos = (\<lambda>_. 0), script = [SysN 0, SysErr EINTR, SysN 0, SysErr EAGAIN], clock = 0\<rparr>"
  obtain n s' where w: "spy_pwrite ?s 3 [7, 8, 9] 1 = (n, s')" by (cases "spy_pwrite ?s 3 [7, 8, 9] 1")
  have "n = 3 \<and> os_frame (fwrote 3 1 [7, 8, 9] ?s) s' \<and>
      (soft (script s') \<longrightarrow> (\<exists>s''. spy_pread s' 3 3 1 = (3, [7, 8, 9], s'')))"
    using pwrite_pread [OF w] by (simp add: numeral_3_eq_3)
  moreover from this have "soft (script s')" "files s' = files (fwrote 3 1 [7, 8, 9] ?s)"
    by (auto simp: os_frame_def fwrote_def)
  ultimately show ?thesis using w by (auto simp: fwrote_def pwrite_at_def)
qed

end
