(* ===== verification/Spy_Types.thy ===== *)
theory Spy_Types
  imports Spy_RwBuffer Spy_Io
begin

text \<open>
  The enumerations of \<^verbatim>\<open>spy_enum.h\<close> and the structures of \<^verbatim>\<open>spy_store.h\<close> and \<^verbatim>\<open>spy_server.h\<close> that the
  store and the server share. Chunks, connections and jobs are referred to by numbers (their
  addresses); index entries are never changed after they are made and are values.
\<close>

datatype spy_error =
    SUCCESS | SERVER_ID_MISMATCH | CHUNK_UNAVAILABLE | FILE_NOT_FOUND | FILE_EXISTS | WRITE_ERROR
  | READ_ERROR | INTERNAL_ERROR | IO_JOB_UNAVAILABLE | REACH_MEMORY_LIMIT | SERVER_READ_ONLY | KILLED
  | CHUNK_CHECK_ERROR

primrec error_code :: "spy_error \<Rightarrow> u8" where
  "error_code SUCCESS = 0"
| "error_code SERVER_ID_MISMATCH = 1"
| "error_code CHUNK_UNAVAILABLE = 2"
| "error_code FILE_NOT_FOUND = 3"
| "error_code FILE_EXISTS = 4"
| "error_code WRITE_ERROR = 5"
| "error_code READ_ERROR = 6"
| "error_code INTERNAL_ERROR = 7"
| "error_code IO_JOB_UNAVAILABLE = 8"
| "error_code REACH_MEMORY_LIMIT = 9"
| "error_code SERVER_READ_ONLY = 10"
| "error_code KILLED = 11"
| "error_code CHUNK_CHECK_ERROR = 12"

datatype spy_opcode =
    OPCODE_WRITE | OPCODE_READ | OPCODE_DELETE | OPCODE_PING | OPCODE_CHECK_DISK | OPCODE_SET_STATUS
  | OPCODE_GET_STATUS | OPCODE_KILL_PD_WR | OPCODE_QUERY_IO_STATUS | OPCODE_QUERY_DETAIL_INFOS
  | OPCODE_DUMP_CHUNK

primrec opcode_num :: "spy_opcode \<Rightarrow> u8" where
  "opcode_num OPCODE_WRITE = 0"
| "opcode_num OPCODE_READ = 1"
| "opcode_num OPCODE_DELETE = 2"
| "opcode_num OPCODE_PING = 10"
| "opcode_num OPCODE_CHECK_DISK = 11"
| "opcode_num OPCODE_SET_STATUS = 20"
| "opcode_num OPCODE_GET_STATUS = 21"
| "opcode_num OPCODE_KILL_PD_WR = 30"
| "opcode_num OPCODE_QUERY_IO_STATUS = 31"
| "opcode_num OPCODE_QUERY_DETAIL_INFOS = 32"
| "opcode_num OPCODE_DUMP_CHUNK = 40"

datatype spy_conn_state = RECEIVE_HDR | RECEIVE_BODY | PROCESS_REQUEST | SEND_RSP

datatype spy_server_status = STATUS_RW | STATUS_RO | STATUS_PRE_RO

record spy_connection =
  conn_fd :: nat
  request :: rw_buffer
  rsp_body :: rw_buffer
  rsp_header :: bytes
  sentlen :: int
  opcode :: u8
  conn_error :: u8
  body_len :: u32
  conn_state :: spy_conn_state

record spy_file =
  f_fid :: u64
  f_ref :: u16
  f_size :: u32
  f_checksum :: u64
  f_timestamp :: u64

record spy_file_index_entry =
  e_chunk_id :: u64
  e_fid :: u64
  e_offset :: u64
  e_size :: u32

record spy_chunk =
  c_fd :: nat
  c_path :: string
  c_chunk_id :: u64
  files_alloc :: u32
  files_count :: u32
  current_offset :: u64
  avail_space :: u64
  file_size :: u64

text \<open>The anonymous union of \<open>spy_io_job_t\<close>.\<close>

datatype io_arg = JobOffset u64 | JobEntry spy_file_index_entry

text \<open>\<open>work.fn\<close> and \<open>work.done\<close> always belong together.\<close>

datatype work_fn = WNone | WWrite | WRead | WCheck | WDump

record spy_io_job =
  retcode :: int
  job_arg :: io_arg
  job_conn :: nat
  job_file :: spy_file
  job_chunk :: "nat option"
  job_work :: work_fn
  req_time :: int

text \<open>\<open>memset(io_job, 0, sizeof(spy_io_job_t))\<close>\<close>

definition zero_job :: spy_io_job where
  "zero_job = \<lparr>retcode = 0, job_arg = JobOffset 0, job_conn = 0,
     job_file = \<lparr>f_fid = 0, f_ref = 0, f_size = 0, f_checksum = 0, f_timestamp = 0\<rparr>,
     job_chunk = None, job_work = WNone, req_time = 0\<rparr>"

definition SUPERBLOCK_MAGIC :: bytes where
  "SUPERBLOCK_MAGIC = map of_char ''CHUNK_SB_MAGIC!''"

definition SUPERBLOCK_MAGIC_SIZE :: nat where "SUPERBLOCK_MAGIC_SIZE = 15"

definition SUPERBLOCK_SIZE :: nat where
  "SUPERBLOCK_SIZE = SUPERBLOCK_MAGIC_SIZE + 8 + 4 + 4 + 8 + 8 + 8"

definition FILE_META_SIZE :: nat where "FILE_META_SIZE = 30"
definition BUFFER_SIZE :: nat where "BUFFER_SIZE = 4194304"
definition CHUNK_FILENAME_LEN_MAX :: nat where "CHUNK_FILENAME_LEN_MAX = 32"
definition DEF_CHUNK_SIZE :: nat where "DEF_CHUNK_SIZE = 2 ^ 31"
definition DEF_CHECK_BLOCK_SIZE :: nat where "DEF_CHECK_BLOCK_SIZE = 2 ^ 12"
definition CHUNK_HASH_SIZE :: u64 where "CHUNK_HASH_SIZE = 2 ^ 10"
definition FILE_HASH_SIZE :: u64 where "FILE_HASH_SIZE = 2 ^ 20"
definition DEF_MAX_PENDING_WRITES :: u32 where "DEF_MAX_PENDING_WRITES = 20"
definition DEF_PENDING_WRITE_TIMEOUT :: int where "DEF_PENDING_WRITE_TIMEOUT = 5"
definition DEF_DETAIL_INFOS_HDR_SIZE :: nat where "DEF_DETAIL_INFOS_HDR_SIZE = 76"
definition REQ_HDR_SIZE :: nat where "REQ_HDR_SIZE = 1 + 4"
definition REQ_INNER_HDR_SIZE :: nat where "REQ_INNER_HDR_SIZE = 2 + 8"
definition RSP_HDR_SIZE :: nat where "RSP_HDR_SIZE = 1 + 1 + 4"

lemma layout_sizes [simp]:
  "SUPERBLOCK_MAGIC_SIZE = 15" "SUPERBLOCK_SIZE = 55" "FILE_META_SIZE = 30"
  "length SUPERBLOCK_MAGIC = 15" "RSP_HDR_SIZE = 6" "REQ_HDR_SIZE = 5" "REQ_INNER_HDR_SIZE = 10"
  by (simp_all add: SUPERBLOCK_MAGIC_SIZE_def SUPERBLOCK_SIZE_def FILE_META_SIZE_def SUPERBLOCK_MAGIC_def
      RSP_HDR_SIZE_def REQ_HDR_SIZE_def REQ_INNER_HDR_SIZE_def)

end
