(* ===== verification/Spy_Chunk.thy ===== *)
theory Spy_Chunk
  imports Spy_Codec Spy_BufferAdler Spy_Types
begin

text \<open>
  The on-disk records of \<^verbatim>\<open>spy_store.c\<close>: the superblock at the start of a chunk file and the metadata in
  front of every stored file, both protected by Adler-32 checksums.
\<close>

section \<open>The superblock\<close>

text \<open>\<open>buf\<close> is the caller's uninitialised array of \<open>SUPERBLOCK_SIZE\<close> bytes.\<close>

definition spy_fill_superblock :: "bytes \<Rightarrow> spy_chunk \<Rightarrow> bytes option" where
  "spy_fill_superblock buf chunk = do {
     let buf = poke 0 SUPERBLOCK_MAGIC buf;
     let p = SUPERBLOCK_MAGIC_SIZE;
     let buf = at_off p (\<lambda>p. spy_mach_write_to_8 p (c_chunk_id chunk)) buf;
     let p = p + 8;
     let buf = at_off p (\<lambda>p. spy_mach_write_to_4 p (files_alloc chunk)) buf;
     let p = p + 4;
     let buf = at_off p (\<lambda>p. spy_mach_write_to_4 p (files_count chunk)) buf;
     let p = p + 4;
     let buf = at_off p (\<lambda>p. spy_mach_write_to_8 p (current_offset chunk)) buf;
     let p = p + 8;
     let buf = at_off p (\<lambda>p. spy_mach_write_to_8 p (avail_space chunk)) buf;
     let p = p + 8;
     checksum \<leftarrow> spy_adler32 0 (Some buf) p;
     Some (at_off p (\<lambda>p. spy_mach_write_to_8 p checksum) buf)
   }"

text \<open>
  \<open>max_chunk_id\<close> is the field of the server that the function also updates. A failed assertion
  aborts the start of the server.
\<close>

definition spy_parse_chunk_superblock :: "bytes \<Rightarrow> spy_chunk \<Rightarrow> u64 \<Rightarrow> (spy_chunk \<times> u64) option" where
  "spy_parse_chunk_superblock sb_buf chunk max_chunk_id =
     (if take SUPERBLOCK_MAGIC_SIZE sb_buf = SUPERBLOCK_MAGIC then do {
        let p = SUPERBLOCK_MAGIC_SIZE;
        let chunk = chunk\<lparr>c_chunk_id := spy_mach_read_from_8 (drop p sb_buf)\<rparr>;
        let p = p + 8;
        let chunk = chunk\<lparr>files_alloc := spy_mach_read_from_4 (drop p sb_buf)\<rparr>;
        let p = p + 4;
        let chunk = chunk\<lparr>files_count := spy_mach_read_from_4 (drop p sb_buf)\<rparr>;
        let p = p + 4;
        let chunk = chunk\<lparr>current_offset := spy_mach_read_from_8 (drop p sb_buf)\<rparr>;
        let p = p + 8;
        let chunk = chunk\<lparr>avail_space := spy_mach_read_from_8 (drop p sb_buf)\<rparr>;
        let p = p + 8;
        let checksum = spy_mach_read_from_8 (drop p sb_buf);
        checksum2 \<leftarrow> spy_adler32 0 (Some sb_buf) p;
        if checksum = checksum2 then
          Some (chunk, if max_chunk_id < c_chunk_id chunk then c_chunk_id chunk else max_chunk_id)
        else None
      } else None)"

text \<open>The stack array is modelled by its contents \<open>junk\<close>, which the result does not depend on.\<close>

definition spy_write_chunk_superblock :: "bytes \<Rightarrow> spy_chunk \<Rightarrow> os \<Rightarrow> (int \<times> os) option" where
  "spy_write_chunk_superblock junk chunk s = do {
     buf \<leftarrow> spy_fill_superblock junk chunk;
     let (n, s) = spy_pwrite s (c_fd chunk) buf 0;
     if n \<noteq> int SUPERBLOCK_SIZE then Some (- 1, s) else Some (0, s)
   }"

section \<open>File metadata\<close>

text \<open>
  \<open>spy_fill_file_meta\<close>: returns the filled array, the job's file record with the checksum set, and the
  request buffer, whose cursor the checksum moves and restores.
\<close>

definition spy_fill_file_meta ::
    "bytes \<Rightarrow> spy_file \<Rightarrow> rw_buffer \<Rightarrow> mem_state \<Rightarrow> os \<Rightarrow> (bytes \<times> spy_file \<times> rw_buffer) option" where
  "spy_fill_file_meta meta file req m s =
     (if length meta = FILE_META_SIZE then do {
        let buf = at_off 0 (\<lambda>p. spy_mach_write_to_8 p (f_fid file)) meta;
        let buf = at_off 8 (\<lambda>p. spy_mach_write_to_2 p (f_ref file)) buf;
        let buf = at_off 10 (\<lambda>p. spy_mach_write_to_4 p (f_size file)) buf;
        (checksum, req) \<leftarrow> spy_buffer_adler32 m 0 req (unat (f_size file));
        let file = file\<lparr>f_checksum := checksum\<rparr>;
        let buf = at_off 14 (\<lambda>p. spy_mach_write_to_8 p checksum) buf;
        let buf = at_off 22 (\<lambda>p. spy_mach_write_to_8 p (spy_current_time_sec s)) buf;
        Some (buf, file, req)
      } else None)"

text \<open>The decoding of the metadata in \<open>spy_read_file\<close>.\<close>

definition read_file_meta :: "bytes \<Rightarrow> spy_file" where
  "read_file_meta buf =
     \<lparr>f_fid = spy_mach_read_from_8 buf, f_ref = spy_mach_read_from_2 (drop 8 buf),
      f_size = spy_mach_read_from_4 (drop 10 buf), f_checksum = spy_mach_read_from_8 (drop 14 buf),
      f_timestamp = spy_mach_read_from_8 (drop 22 buf)\<rparr>"

section \<open>Layout\<close>

text \<open>The checksum of a byte sequence, and the records as sequences of encoded fields.\<close>

definition adler_of :: "bytes \<Rightarrow> u64" where
  "adler_of xs = adler_value (adler_ref (0, 0) xs)"

definition sb_fields :: "spy_chunk \<Rightarrow> bytes" where
  "sb_fields c = SUPERBLOCK_MAGIC @ be8.enc (c_chunk_id c) @ be4.enc (files_alloc c) @ be4.enc (files_count c) @
     be8.enc (current_offset c) @ be8.enc (avail_space c)"

definition sb_bytes :: "spy_chunk \<Rightarrow> bytes" where
  "sb_bytes c = sb_fields c @ be8.enc (adler_of (sb_fields c))"

definition meta_bytes :: "spy_file \<Rightarrow> bytes" where
  "meta_bytes f = be8.enc (f_fid f) @ be2.enc (f_ref f) @ be4.enc (f_size f) @ be8.enc (f_checksum f) @
     be8.enc (f_timestamp f)"

lemma length_sb_fields [simp]: "length (sb_fields c) = 47"
  by (simp add: sb_fields_def)

lemma length_sb_bytes [simp]: "length (sb_bytes c) = 55"
  by (simp add: sb_bytes_def)

lemma length_meta_bytes [simp]: "length (meta_bytes f) = 30"
  by (simp add: meta_bytes_def)

lemma halves_zero: "reduced (halves 0)" "unats (halves 0) = (0, 0)"
  by (simp_all add: halves_def reduced_def unats_def BASE_def)

lemma adler32_of: "len \<le> length b \<Longrightarrow> spy_adler32 0 (Some b) len = Some (adler_of (take len b))"
  using spy_adler32_ref [OF halves_zero(1)] by (simp add: adler_of_def halves_zero)

lemmas at_off_encs = be1.at_off_wr be2.at_off_wr be4.at_off_wr be8.at_off_wr

lemma fill_superblock_bytes:
  assumes "length buf = 55"
  shows "spy_fill_superblock buf c = Some (sb_bytes c)"
  using assms
  by (simp add: spy_fill_superblock_def at_off_encs poke_def adler32_of sb_bytes_def sb_fields_def)

lemma parse_superblock_bytes:
  "spy_parse_chunk_superblock (sb_bytes c) c0 mx =
     Some (c0\<lparr>c_chunk_id := c_chunk_id c, files_alloc := files_alloc c, files_count := files_count c,
             current_offset := current_offset c, avail_space := avail_space c\<rparr>, max mx (c_chunk_id c))"
proof -
  have "take 47 (sb_bytes c) = sb_fields c" by (simp add: sb_bytes_def)
  then have "spy_adler32 0 (Some (sb_bytes c)) 47 = Some (adler_of (sb_fields c))" by (simp add: adler32_of)
  then show ?thesis
    by (simp add: spy_parse_chunk_superblock_def)
      (auto simp: sb_bytes_def sb_fields_def be8.rd_enc be4.rd_enc be8.rd_enc [of _ "[]", simplified] Let_def max_def)
qed

lemma read_file_meta_bytes: "read_file_meta (meta_bytes f @ ys) = f"
  by (cases f) (simp add: read_file_meta_def meta_bytes_def be8.rd_enc be2.rd_enc be4.rd_enc)

lemma fill_file_meta_bytes:
  assumes "rwb_ok m b" and "unat (f_size f) \<le> write_pos b - read_pos b" and "length meta = 30"
  obtains b' where "spy_fill_file_meta meta f b m s =
      Some (meta_bytes (f\<lparr>f_checksum := adler_of (take (unat (f_size f)) (unread m b)), f_timestamp := clock s\<rparr>),
        f\<lparr>f_checksum := adler_of (take (unat (f_size f)) (unread m b))\<rparr>, b')"
    "rwb_ok m b'" "unread m b' = unread m b" "write_side b' = write_side b" "read_pos b' = read_pos b"
proof -
  let ?ck = "adler_of (take (unat (f_size f)) (unread m b))"
  obtain b' where b': "spy_buffer_adler32 m 0 b (unat (f_size f)) = Some (?ck, b')"
    "rwb_ok m b'" "unread m b' = unread m b" "write_side b' = write_side b" "read_pos b' = read_pos b"
    using buffer_adler32_ref [OF assms(1, 2) halves_zero(1)] by (auto simp: halves_zero adler_of_def)
  then have "spy_fill_file_meta meta f b m s = Some (meta_bytes (f\<lparr>f_checksum := ?ck, f_timestamp := clock s\<rparr>), f\<lparr>f_checksum := ?ck\<rparr>, b')"
    using assms(3) by (simp add: spy_fill_file_meta_def at_off_encs poke_def meta_bytes_def spy_current_time_sec_def)
  with b' that show ?thesis by blast
qed

section \<open>Error detection\<close>

text \<open>Changing one byte changes the first sum, hence the checksum.\<close>

lemma fst_adler_raw: "fst (adler_raw (a, s) xs) = a + sum_list (map unat xs)"
  by (induction xs arbitrary: a s) simp_all

lemma fst_adler_ref: "fst (adler_ref (0, 0) xs) = sum_list (map unat xs) mod 65521"
  using adler_ref_mod_pair [of "(0, 0)" xs] fst_adler_raw [of 0 0 xs]
  by (cases "adler_raw (0, 0) xs") (auto simp: mod_pair_def dest!: arg_cong [where f = fst])

lemma adler_of_sums:
  assumes "adler_of xs = adler_of ys"
  shows "sum_list (map unat xs) mod 65521 = sum_list (map unat ys) mod 65521"
proof -
  have h: "unats (halves (adler_of zs)) = adler_ref (0, 0) zs" for zs
    using adler_ref_bounded [of "(0, 0)" zs] unfolding adler_of_def by (intro halves_value) simp_all
  have "adler_ref (0, 0) xs = adler_ref (0, 0) ys"
    using h [of xs] h [of ys] unfolding assms by (simp only:)
  then show ?thesis using fst_adler_ref [of xs] fst_adler_ref [of ys] by (simp only:)
qed

lemma mod_add_cancel:
  fixes r x y n :: nat
  assumes "(r + x) mod n = (r + y) mod n" and "x < n" and "y < n"
  shows "x = y"
proof -
  have "int (r + x) mod int n = int (r + y) mod int n" using assms(1) by (metis zmod_int)
  then have "(int (r + x) - int r) mod int n = (int (r + y) - int r) mod int n" by (rule mod_diff_cong) simp
  then show ?thesis using assms(2, 3) by simp
qed

lemma adler_of_update:
  assumes "i < length xs" and "adler_of (xs[i := x]) = adler_of xs"
  shows "x = xs ! i"
proof -
  let ?r = "sum_list (map unat (take i xs)) + sum_list (map unat (drop (Suc i) xs))"
  have "sum_list (map unat (xs[i := x])) = ?r + unat x"
    using assms(1) by (simp add: upd_conv_take_nth_drop)
  moreover have "sum_list (map unat xs) = ?r + unat (xs ! i)"
    using assms(1) id_take_nth_drop [OF assms(1)]
    by (metis (no_types, lifting) add.assoc add.commute list.simps(9) map_append sum_list.Cons sum_list_append)
  ultimately have m: "(?r + unat x) mod 65521 = (?r + unat (xs ! i)) mod 65521"
    using adler_of_sums [OF assms(2)] by simp
  have b: "unat x \<le> 255" "unat (xs ! i) \<le> 255"
    using unsigned_less [of x, where ?'a = nat] unsigned_less [of "xs ! i", where ?'a = nat] by simp_all
  have "unat x = unat (xs ! i)" using b by (intro mod_add_cancel [OF m]) simp_all
  then show ?thesis by (simp add: word_unat_eq_iff)
qed

section \<open>Properties\<close>

text \<open>(C14) The superblock survives a round trip: filling an array with a chunk's superblock gives 55 bytes that
  do not depend on what was in the array, and parsing them into any chunk structure passes both
  assertions, restores chunk id, file counters, write offset and free space, keeps the other fields and
  raises the highest known chunk id.\<close>

theorem superblock_roundtrip:
  assumes "length buf = SUPERBLOCK_SIZE"
  shows "\<exists>sb. spy_fill_superblock buf c = Some sb \<and> length sb = SUPERBLOCK_SIZE \<and>
    (\<forall>buf'. length buf' = SUPERBLOCK_SIZE \<longrightarrow> spy_fill_superblock buf' c = Some sb) \<and>
    spy_parse_chunk_superblock sb c0 mx =
      Some (c0\<lparr>c_chunk_id := c_chunk_id c, files_alloc := files_alloc c, files_count := files_count c,
              current_offset := current_offset c, avail_space := avail_space c\<rparr>, max mx (c_chunk_id c))"
  using assms fill_superblock_bytes parse_superblock_bytes by simp

definition demo_chunk :: spy_chunk where
  "demo_chunk = \<lparr>c_fd = 3, c_path = ''d/chunk_1_7.chunk'', c_chunk_id = 7, files_alloc = 2, files_count = 2,
     current_offset = 155, avail_space = 2147483493, file_size = 2147483648\<rparr>"

theorem superblock_roundtrip_witness:
  "length (replicate 55 0 :: bytes) = SUPERBLOCK_SIZE \<and>
   (\<exists>sb. spy_fill_superblock (replicate 55 0) demo_chunk = Some sb \<and>
      spy_parse_chunk_superblock sb (demo_chunk\<lparr>current_offset := 55\<rparr>) 3 = Some (demo_chunk, 7))"
proof -
  have l: "length (replicate 55 0 :: bytes) = SUPERBLOCK_SIZE" by simp
  show ?thesis
    using l superblock_roundtrip [OF l, of demo_chunk "demo_chunk\<lparr>current_offset := 55\<rparr>" 3]
    by (auto simp: demo_chunk_def max_def)
qed

text \<open>(C20) A superblock with one wrong byte in its magic or fields is rejected: the server never starts with
  silently changed chunk state.\<close>

theorem superblock_corruption_detected:
  assumes "length buf = SUPERBLOCK_SIZE" and "spy_fill_superblock buf c = Some sb"
    and "i < SUPERBLOCK_SIZE - 8" and "x \<noteq> sb ! i"
  shows "spy_parse_chunk_superblock (sb[i := x]) c0 mx = None"
proof -
  have sb: "sb = sb_bytes c" using assms(1, 2) fill_superblock_bytes by simp
  have i: "i < 47" using assms(3) by simp
  have t: "take 47 (sb[i := x]) = (sb_fields c)[i := x]"
    using i by (simp add: sb sb_bytes_def list_update_append)
  have d: "drop 47 (sb[i := x]) = be8.enc (adler_of (sb_fields c))"
    using i by (simp add: sb sb_bytes_def list_update_append)
  have "sb ! i = sb_fields c ! i" using i by (simp add: sb sb_bytes_def nth_append)
  then have "adler_of ((sb_fields c)[i := x]) \<noteq> adler_of (sb_fields c)"
    using adler_of_update [of i "sb_fields c" x] i assms(4) by auto
  then have "spy_mach_read_from_8 (drop 47 (sb[i := x])) \<noteq> adler_of (take 47 (sb[i := x]))"
    unfolding t d using be8.rd_enc [of _ "[]"] by simp
  moreover have "spy_adler32 0 (Some (sb[i := x])) 47 = Some (adler_of (take 47 (sb[i := x])))"
    by (rule adler32_of) (simp add: sb)
  ultimately show ?thesis by (simp add: spy_parse_chunk_superblock_def Let_def)
qed

theorem superblock_corruption_detected_witness:
  "\<exists>sb. spy_fill_superblock (replicate 55 0) demo_chunk = Some sb \<and>
     spy_parse_chunk_superblock (sb[20 := sb ! 20 + 1]) demo_chunk 0 = None"
proof -
  have l: "length (replicate 55 0 :: bytes) = SUPERBLOCK_SIZE" by simp
  have f: "spy_fill_superblock (replicate 55 0) demo_chunk = Some (sb_bytes demo_chunk)"
    by (rule fill_superblock_bytes) simp
  have "spy_parse_chunk_superblock ((sb_bytes demo_chunk)[20 := sb_bytes demo_chunk ! 20 + 1]) demo_chunk 0 = None"
    by (rule superblock_corruption_detected [OF l f]) simp_all
  with f show ?thesis by simp
qed

end
