(* ===== verification/Spy_Store.thy ===== *)
theory Spy_Store
  imports Spy_Chunk
begin

text \<open>
  The worker functions of \<^verbatim>\<open>spy_store.c\<close> that move a file between a connection's buffers and a chunk file.
  Each takes the objects its job refers to and returns them updated. A local array that the code
  fills completely before use is \<open>uninit n\<close>.
\<close>

definition uninit :: "nat \<Rightarrow> bytes" where
  "uninit n = replicate n 0"

text \<open>\<open>fsync\<close> changes nothing the program can read back.\<close>

definition spy_flush_and_sync_chunk :: "spy_chunk \<Rightarrow> os \<Rightarrow> int \<times> os" where
  "spy_flush_and_sync_chunk chunk s =
     (case next_resp s of (r, s) \<Rightarrow> (case r of Some (SysErr e) \<Rightarrow> (- 1, s) | _ \<Rightarrow> (0, s)))"

section \<open>Writing a file\<close>

text \<open>
  The loop over the request body. The flag tells that \<open>WRITE_ERROR\<close> was reached; \<open>left\<close> is an \<open>int\<close>.
\<close>

function write_body_loop ::
    "mem_state \<Rightarrow> nat \<Rightarrow> int \<Rightarrow> rw_buffer \<Rightarrow> u64 \<Rightarrow> os \<Rightarrow> (bool \<times> int \<times> rw_buffer \<times> os) option" where
  "write_body_loop m fd left req offset s =
     (if left > 0 then do {
        (req, next) \<leftarrow> spy_rw_buffer_next_readable m req;
        (case next of None \<Rightarrow> Some (False, left, req, s)
         | Some (buf, len) \<Rightarrow> do {
             let shouldwrite = min (int len) left;
             data \<leftarrow> load_area m buf (nat shouldwrite);
             let (nwrite, s) = spy_pwrite s fd data (unat offset);
             if nwrite \<noteq> shouldwrite then Some (True, left, req, s)
             else if nwrite = 0 then None
             else write_body_loop m fd (left - nwrite) (req\<lparr>read_pos := read_pos req + nat nwrite\<rparr>)
                    (offset + of_int nwrite) s
           })
      } else Some (False, left, req, s))"
  by pat_completeness auto
termination
  by (relation "measure (\<lambda>(m, fd, left, req, offset, s). nat left)") (auto simp: min_def split: if_splits)

declare write_body_loop.simps [simp del]

text \<open>
  \<open>io_job->file.size + FILE_META_SIZE\<close> is a 32-bit sum; it is widened when it is added to the 64-bit
  fields.
\<close>

definition spy_write_file ::
    "bool \<Rightarrow> spy_io_job \<Rightarrow> spy_connection \<Rightarrow> spy_chunk \<Rightarrow> mem_state \<Rightarrow> os \<Rightarrow>
     (spy_io_job \<times> spy_connection \<times> spy_chunk \<times> os) option" where
  "spy_write_file sync io_job conn chunk m s = do {
     offset \<leftarrow> (case job_arg io_job of JobOffset off \<Rightarrow> Some off | JobEntry e \<Rightarrow> None);
     (filemeta, file, req) \<leftarrow> spy_fill_file_meta (uninit FILE_META_SIZE) (job_file io_job) (request conn) m s;
     let io_job = io_job\<lparr>job_file := file\<rparr>;
     let conn = conn\<lparr>request := req\<rparr>;
     let (nwrite, s) = spy_pwrite s (c_fd chunk) filemeta (unat offset);
     if nwrite \<noteq> int FILE_META_SIZE then Some (io_job\<lparr>retcode := - 1\<rparr>, conn, chunk, s)
     else do {
       let offset = offset + of_nat FILE_META_SIZE;
       (err, left, req, s) \<leftarrow> write_body_loop m (c_fd chunk) (sint (f_size file)) (request conn) offset s;
       let conn = conn\<lparr>request := req\<rparr>;
       if err \<or> left \<noteq> 0 then Some (io_job\<lparr>retcode := - 1\<rparr>, conn, chunk, s)
       else do {
         let len = (ucast (f_size file + of_nat FILE_META_SIZE :: u32) :: u64);
         let chunk = chunk\<lparr>current_offset := current_offset chunk + len, avail_space := avail_space chunk - len,
           files_alloc := files_alloc chunk + 1, files_count := files_count chunk + 1\<rparr>;
         (n, s) \<leftarrow> spy_write_chunk_superblock (uninit SUPERBLOCK_SIZE) chunk s;
         let s = (if n = 0 \<and> sync then snd (spy_flush_and_sync_chunk chunk s) else s);
         Some (io_job\<lparr>retcode := 0\<rparr>, conn, chunk, s)
       }
     }
   }"

text \<open>\<open>spy_pwrite_file\<close> repeats the loop of \<open>spy_pwrite\<close>; nothing calls it.\<close>

definition spy_pwrite_file :: "os \<Rightarrow> nat \<Rightarrow> bytes \<Rightarrow> u64 \<Rightarrow> int \<times> os" where
  "spy_pwrite_file s fd data offset = pwrite_loop s fd data (unat offset) 0"

section \<open>Reading a file\<close>

text \<open>The loop that fills the response buffer; the flag tells that the read failed.\<close>

function read_body_loop ::
    "nat \<Rightarrow> nat \<Rightarrow> rw_buffer \<Rightarrow> u64 \<Rightarrow> mem_state \<Rightarrow> os \<Rightarrow> (bool \<times> rw_buffer \<times> mem_state \<times> os) option" where
  "read_body_loop fd left rsp offset m s =
     (if left > 0 then do {
        (rsp, next) \<leftarrow> spy_rw_buffer_next_writeable m rsp;
        (buf, len) \<leftarrow> next;
        let shouldread = min left len;
        let (n, data, s) = spy_pread s fd shouldread (unat offset);
        m \<leftarrow> store_area m buf data;
        if n \<noteq> int shouldread then Some (True, rsp, m, s)
        else if shouldread = 0 then None
        else read_body_loop fd (left - shouldread) (rsp\<lparr>write_pos := write_pos rsp + shouldread\<rparr>)
               (offset + of_nat shouldread) m s
      } else Some (False, rsp, m, s))"
  by pat_completeness auto
termination
  by (relation "measure (\<lambda>(fd, left, rsp, offset, m, s). left)") (auto simp: min_def split: if_splits)

declare read_body_loop.simps [simp del]

definition spy_read_file ::
    "spy_io_job \<Rightarrow> spy_connection \<Rightarrow> spy_chunk \<Rightarrow> mem_state \<Rightarrow> os \<Rightarrow>
     (spy_io_job \<times> spy_connection \<times> mem_state \<times> os) option" where
  "spy_read_file io_job conn chunk m s = do {
     index \<leftarrow> (case job_arg io_job of JobEntry e \<Rightarrow> Some e | JobOffset off \<Rightarrow> None);
     if unat (e_size index) \<le> cap (rsp_body conn) then do {
       (err, rsp, m, s) \<leftarrow> read_body_loop (c_fd chunk) (unat (e_size index)) (rsp_body conn) (e_offset index) m s;
       let conn = conn\<lparr>rsp_body := rsp\<rparr>;
       if err then Some (io_job\<lparr>retcode := - 1\<rparr>, conn, m, s)
       else do {
         (filemeta, rsp) \<leftarrow> spy_rw_buffer_read_n m (rsp_body conn) FILE_META_SIZE;
         if length filemeta = FILE_META_SIZE then do {
           let file = read_file_meta filemeta;
           (checksum, rsp) \<leftarrow> spy_buffer_adler32 m 0 rsp (unat (e_size index - of_nat FILE_META_SIZE));
           let conn = conn\<lparr>rsp_body := rsp\<rparr>;
           let io_job = io_job\<lparr>job_file := file\<rparr>;
           if f_fid file \<noteq> e_fid index \<or> f_checksum file \<noteq> checksum
           then Some (io_job\<lparr>retcode := - 1\<rparr>, conn, m, s)
           else Some (io_job\<lparr>retcode := 0\<rparr>, conn, m, s)
         } else None
       }
     } else None
   }"

section \<open>Checking and dumping a chunk\<close>

text \<open>\<open>rand()\<close> is the argument \<open>rnd\<close>.\<close>

definition spy_check_chunk :: "nat \<Rightarrow> spy_io_job \<Rightarrow> spy_chunk \<Rightarrow> os \<Rightarrow> spy_io_job \<times> os" where
  "spy_check_chunk rnd io_job chunk s =
     (let offset = rnd mod (DEF_CHUNK_SIZE div DEF_CHECK_BLOCK_SIZE);
          offset = offset * DEF_CHECK_BLOCK_SIZE;
          (n, buf, s) = spy_pread s (c_fd chunk) DEF_CHECK_BLOCK_SIZE offset
      in (io_job\<lparr>retcode := (if n = int DEF_CHECK_BLOCK_SIZE then 0 else - 1)\<rparr>, s))"

text \<open>
  \<open>write\<close> on a blocking socket: the stream \<open>files s fd\<close> of the socket's descriptor grows by what was
  sent.
\<close>

definition sys_send :: "os \<Rightarrow> nat \<Rightarrow> bytes \<Rightarrow> nat sysret \<times> os" where
  "sys_send s fd buf =
     (case next_resp s of (r, s) \<Rightarrow>
        (case grant r (length buf) of
           Fail e \<Rightarrow> (Fail e, s)
         | Done n \<Rightarrow> (Done n, s\<lparr>files := (files s)(fd := files s fd @ take n buf)\<rparr>)))"

text \<open>\<open>sendfile64\<close>: at most \<open>count\<close> bytes of the file from \<open>offset\<close> go to the socket.\<close>

definition sys_sendfile :: "os \<Rightarrow> nat \<Rightarrow> nat \<Rightarrow> nat \<Rightarrow> nat \<Rightarrow> nat sysret \<times> os" where
  "sys_sendfile s out_fd in_fd offset count = sys_send s out_fd (slice offset count (files s in_fd))"

text \<open>
  The header loop as written: \<open>total\<close> is decreased by what was sent and \<open>sent\<close> is subtracted from it
  again. \<open>rsp_header + sent\<close> with \<open>total - sent\<close> bytes; a count of zero makes no progress and repeats for
  ever, and a negative one is a huge \<open>size_t\<close>, which the call answers with an error.
\<close>

function dump_header_loop :: "os \<Rightarrow> nat \<Rightarrow> bytes \<Rightarrow> nat \<Rightarrow> int \<Rightarrow> (bool \<times> os) option" where
  "dump_header_loop s fd header sent tot =
     (if tot > 0 then
        (if tot - int sent = 0 then None
         else if tot - int sent < 0 then Some (False, s)
         else
           (case sys_send s fd (slice sent (nat (tot - int sent)) header) of
              (Fail e, s) \<Rightarrow> Some (False, s)
            | (Done n, s) \<Rightarrow>
                if n = 0 then None else dump_header_loop s fd header (sent + n) (tot - int n)))
      else Some (True, s))"
  by pat_completeness auto
termination
  by (relation "measure (\<lambda>(s, fd, header, sent, tot). nat tot)") auto

text \<open>The \<open>sendfile\<close> loop; at the end of a file shorter than \<open>file_size\<close> it makes no progress.\<close>

function dump_body_loop :: "os \<Rightarrow> nat \<Rightarrow> nat \<Rightarrow> nat \<Rightarrow> nat \<Rightarrow> (bool \<times> os) option" where
  "dump_body_loop s fd cfd offset fsz =
     (if offset < fsz then
        (case sys_sendfile s fd cfd offset (fsz - offset) of
           (Fail e, s) \<Rightarrow> Some (False, s)
         | (Done n, s) \<Rightarrow> if n = 0 then None else dump_body_loop s fd cfd (offset + n) fsz)
      else Some (True, s))"
  by pat_completeness auto
termination
  by (relation "measure (\<lambda>(s, fd, cfd, offset, fsz). fsz - offset)") auto

declare dump_header_loop.simps [simp del] dump_body_loop.simps [simp del]

text \<open>Returns \<open>retcode\<close> with the connection and the system state.\<close>

definition spy_dump_chunkfile :: "spy_connection \<Rightarrow> spy_chunk \<Rightarrow> os \<Rightarrow> (int \<times> spy_connection \<times> os) option" where
  "spy_dump_chunkfile conn chunk s = do {
     let h = at_off 0 (\<lambda>p. spy_mach_write_to_1 p (opcode conn)) (rsp_header conn);
     let h = at_off 1 (\<lambda>p. spy_mach_write_to_1 p 0) h;
     let h = at_off 2 (\<lambda>p. spy_mach_write_to_4 p (ucast (file_size chunk))) h;
     let conn = conn\<lparr>rsp_header := h\<rparr>;
     (ok, s) \<leftarrow> dump_header_loop s (conn_fd conn) h 0 6;
     if ok then do {
       (ok, s) \<leftarrow> dump_body_loop s (conn_fd conn) (c_fd chunk) 0 (unat (file_size chunk));
       Some (if ok then 0 else - 1, conn, s)
     } else Some (- 1, conn, s)
   }"

section \<open>What is written\<close>

lemma unat_add_nowrap: "unat (x :: u64) + n < 2 ^ 64 \<Longrightarrow> unat (x + of_nat n) = unat x + n"
  by (subst unat_add_lem [THEN iffD1]) (simp_all add: unat_of_nat take_bit_nat_eq_self)

lemma write_body_loop_ok:
  assumes "rwb_ok m b" and "left \<le> length (unread m b)" and "unat off + left < 2 ^ 64"
  shows "\<exists>err left' b' s' w. write_body_loop m fd (int left) b off s = Some (err, left', b', s') \<and>
    rwb_ok m b' \<and> write_side b' = write_side b \<and> w \<le> left \<and>
    os_frame (fwrote fd (unat off) (take w (unread m b)) s) s' \<and>
    (\<not> err \<and> left' = 0 \<and> w = left \<and> unread m b' = drop left (unread m b) \<or>
     err \<and> \<not> soft (script s))"
  using assms
proof (induction b left arbitrary: off s rule: rd.consume_induct)
  case (finish b)
  then show ?case by (auto simp: write_body_loop.simps [of m fd 0] fwrote_def)
next
  case (more b b' a k left)
  define n where "n = min k left"
  have n: "0 < n" "n \<le> k" "n \<le> left" "nat (min (int k) (int left)) = n" "min (int k) (int left) = int n"
    using more.hyps(2, 8) by (auto simp: n_def min_def)
  note l = more.hyps(10) [OF n(2)]
  let ?data = "take n (unread m b)"
  have dl: "length ?data = n" using n(3) more.hyps(3) by simp
  obtain r s1 where p: "spy_pwrite s fd ?data (unat off) = (r, s1)" by (cases "spy_pwrite s fd ?data (unat off)")
  obtain w1 where w1: "w1 \<le> n" "os_frame (fwrote fd (unat off) (take w1 ?data) s) s1"
    "r = int n \<and> w1 = n \<or> r = - 1 \<and> w1 < n \<and> \<not> soft (script s)"
    using spy_pwrite_ok [OF p] dl by metis
  have t1: "take w1 ?data = take w1 (unread m b)" using w1(1) by simp
  have step: "write_body_loop m fd (int left) b off s =
      (if r \<noteq> int n then Some (True, int left, b', s1)
       else write_body_loop m fd (int (left - n)) (advance_read n b') (off + of_nat n) s1)"
    using more.hyps(2, 4) l n p
    by (simp add: write_body_loop.simps [of m fd "int left"] advance_read_def of_nat_diff)
  show ?case
  proof (cases "r = int n")
    case False
    then show ?thesis
      using w1 n step t1 more.hyps(5, 7)
      by (intro exI [of _ True] exI [of _ "int left"] exI [of _ b'] exI [of _ s1] exI [of _ w1]) auto
  next
    case True
    then have "w1 = n" using w1(3) by auto
    have o: "unat (off + of_nat n) = unat off + n" using more.prems n(3) by (intro unat_add_nowrap) simp
    then have "unat (off + of_nat n) + (left - n) < 2 ^ 64" using more.prems n(3) by simp
    from more.IH [OF n(1, 2, 3) this, of s1] obtain err left' b'' s' w
      where IH: "write_body_loop m fd (int (left - n)) (advance_read n b') (off + of_nat n) s1 = Some (err, left', b'', s')"
        "rwb_ok m b''" "write_side b'' = write_side (advance_read n b')" "w \<le> left - n"
        "os_frame (fwrote fd (unat off + n) (take w (drop n (unread m b))) s1) s'"
        "\<not> err \<and> left' = 0 \<and> w = left - n \<and> unread m b'' = drop (left - n) (drop n (unread m b)) \<or> err \<and> \<not> soft (script s1)"
      using l o by auto
    have "fwrote fd (unat off + n) (take w (drop n (unread m b))) (fwrote fd (unat off) ?data s) =
        fwrote fd (unat off) (take (n + w) (unread m b)) s"
      using fwrote_append [of fd "unat off" ?data "take w (drop n (unread m b))" s] dl by (simp add: take_add)
    moreover have "os_frame (fwrote fd (unat off) ?data s) s1" using w1(2) \<open>w1 = n\<close> by simp
    ultimately have "os_frame (fwrote fd (unat off) (take (n + w) (unread m b)) s) s'"
      using os_frame_trans [OF os_frame_fwrote IH(5)] by metis
    moreover have "\<not> soft (script s1) \<Longrightarrow> \<not> soft (script s)"
      using os_frame_soft [OF w1(2)] by auto
    ultimately show ?thesis
      using IH step True n(3) l
      by (intro exI [of _ err] exI [of _ left'] exI [of _ b''] exI [of _ s'] exI [of _ "n + w"]) auto
  qed
qed

lemma sint_small: "unat (w :: u32) < 2 ^ 31 \<Longrightarrow> sint w = int (unat w)"
proof -
  assume "unat w < 2 ^ 31"
  then have "uint w < int (2 ^ 31)" by (intro nat_less_iff [OF uint_ge_0, THEN iffD1]) simp
  then have "uint w < 2 ^ 31" by simp
  moreover have "- (2 ^ 31) \<le> uint w" by (rule order.trans [OF _ uint_ge_0]) simp
  ultimately show ?thesis by (simp add: sint_uint signed_take_bit_int_eq_self)
qed

lemma flush_frame: "os_frame s (snd (spy_flush_and_sync_chunk c s))"
  using next_resp_grant(1) [of s]
  by (auto simp: spy_flush_and_sync_chunk_def split: prod.split option.split sysresp.split)

lemma write_superblock_ok:
  obtains n s' w where "spy_write_chunk_superblock (uninit SUPERBLOCK_SIZE) c s = Some (n, s')" "w \<le> 55"
    "os_frame (fwrote (c_fd c) 0 (take w (sb_bytes c)) s) s'"
    "n = 0 \<and> w = 55 \<or> n = - 1 \<and> \<not> soft (script s)"
proof -
  have f: "spy_fill_superblock (uninit SUPERBLOCK_SIZE) c = Some (sb_bytes c)"
    by (rule fill_superblock_bytes) (simp add: uninit_def)
  obtain r s' where p: "spy_pwrite s (c_fd c) (sb_bytes c) 0 = (r, s')" by (cases "spy_pwrite s (c_fd c) (sb_bytes c) 0")
  obtain w where w: "w \<le> 55" "os_frame (fwrote (c_fd c) 0 (take w (sb_bytes c)) s) s'"
    "r = 55 \<and> w = 55 \<or> r = - 1 \<and> \<not> soft (script s)"
    using spy_pwrite_ok [OF p] by (auto simp del: take_append)
  show ?thesis
  proof (rule that)
    show "spy_write_chunk_superblock (uninit SUPERBLOCK_SIZE) c s = Some (if r = 55 then 0 else - 1, s')"
      using f p by (simp add: spy_write_chunk_superblock_def)
  qed (use w in auto)
qed

text \<open>The bytes of a stored file, and the chunk after it.\<close>

definition file_record :: "spy_file \<Rightarrow> u64 \<Rightarrow> bytes \<Rightarrow> bytes" where
  "file_record f ts data = meta_bytes (f\<lparr>f_checksum := adler_of data, f_timestamp := ts\<rparr>) @ data"

definition chunk_after :: "spy_chunk \<Rightarrow> u32 \<Rightarrow> spy_chunk" where
  "chunk_after c sz = c\<lparr>current_offset := current_offset c + ucast (sz + 30), avail_space := avail_space c - ucast (sz + 30),
     files_alloc := files_alloc c + 1, files_count := files_count c + 1\<rparr>"

lemma length_file_record [simp]: "length (file_record f ts data) = 30 + length data"
  by (simp add: file_record_def)

lemma write_file_ok:
  fixes io_job conn
  defines "f \<equiv> job_file io_job" and "req \<equiv> request conn"
  assumes off: "job_arg io_job = JobOffset off" and ok: "rwb_ok m req" and len: "unat (f_size f) \<le> length (unread m req)"
    and small: "unat (f_size f) < 2 ^ 31" and nowrap: "unat off + 30 + unat (f_size f) < 2 ^ 64"
    and data: "data = take (unat (f_size f)) (unread m req)"
  obtains (stored) req' s1 s' w where
    "spy_write_file sync io_job conn chunk m s =
       Some (io_job\<lparr>job_file := f\<lparr>f_checksum := adler_of data\<rparr>, retcode := 0\<rparr>, conn\<lparr>request := req'\<rparr>,
         chunk_after chunk (f_size f), s')"
    "rwb_ok m req'" "write_side req' = write_side req" "unread m req' = drop (unat (f_size f)) (unread m req)"
    "os_frame (fwrote (c_fd chunk) (unat off) (file_record f (clock s) data) s) s1" "w \<le> 55"
    "os_frame (fwrote (c_fd chunk) 0 (take w (sb_bytes (chunk_after chunk (f_size f)))) s1) s'"
    "w = 55 \<or> \<not> soft (script s)"
  | (failed) req' s' w where
    "spy_write_file sync io_job conn chunk m s =
       Some (io_job\<lparr>job_file := f\<lparr>f_checksum := adler_of data\<rparr>, retcode := - 1\<rparr>, conn\<lparr>request := req'\<rparr>, chunk, s')"
    "rwb_ok m req'" "write_side req' = write_side req" "\<not> soft (script s)" "w \<le> 30 + unat (f_size f)"
    "os_frame (fwrote (c_fd chunk) (unat off) (take w (file_record f (clock s) data)) s) s'"
proof -
  let ?n = "unat (f_size f)" and ?fd = "c_fd chunk"
  let ?f = "f\<lparr>f_checksum := adler_of data\<rparr>" and ?meta = "meta_bytes (f\<lparr>f_checksum := adler_of data, f_timestamp := clock s\<rparr>)"
  have "?n \<le> write_pos req - read_pos req" using len length_unread [OF ok] by simp
  from fill_file_meta_bytes [OF ok this, of "uninit 30" s] obtain req1
    where m: "spy_fill_file_meta (uninit 30) f req m s = Some (?meta, ?f, req1)"
      "rwb_ok m req1" "unread m req1 = unread m req" "write_side req1 = write_side req"
    by (auto simp: uninit_def data)
  obtain r s1 where p: "spy_pwrite s ?fd ?meta (unat off) = (r, s1)" by (cases "spy_pwrite s ?fd ?meta (unat off)")
  obtain w1 where w1: "w1 \<le> 30" "os_frame (fwrote ?fd (unat off) (take w1 ?meta) s) s1"
    "r = 30 \<and> w1 = 30 \<or> r = - 1 \<and> w1 < 30 \<and> \<not> soft (script s)"
    using spy_pwrite_ok [OF p] by auto
  show ?thesis
  proof (cases "r = 30")
    case False
    then have "spy_write_file sync io_job conn chunk m s =
        Some (io_job\<lparr>job_file := ?f, retcode := - 1\<rparr>, conn\<lparr>request := req1\<rparr>, chunk, s1)"
      using off m(1) p by (simp add: spy_write_file_def f_def req_def)
    moreover have "take w1 (file_record f (clock s) data) = take w1 ?meta"
      using w1(1) by (simp add: file_record_def)
    ultimately show ?thesis using failed [of req1 s1 w1] m w1 False by auto
  next
    case True
    have o: "unat (off + 30) = unat off + 30" using unat_add_nowrap [of off 30] nowrap by simp
    then have "unat (off + 30) + ?n < 2 ^ 64" using nowrap by simp
    with write_body_loop_ok [OF m(2), of ?n "off + 30" ?fd s1] len m(3) obtain err left' req2 s2 w
      where b: "write_body_loop m ?fd (int ?n) req1 (off + 30) s1 = Some (err, left', req2, s2)"
        "rwb_ok m req2" "write_side req2 = write_side req1" "w \<le> ?n"
        "os_frame (fwrote ?fd (unat off + 30) (take w (unread m req)) s1) s2"
        "\<not> err \<and> left' = 0 \<and> w = ?n \<and> unread m req2 = drop ?n (unread m req) \<or> err \<and> \<not> soft (script s1)"
      by (auto simp: o)
    have fr: "os_frame (fwrote ?fd (unat off) ?meta s) s1" using w1(2, 3) True by auto
    have "fwrote ?fd (unat off + 30) (take w (unread m req)) (fwrote ?fd (unat off) ?meta s) =
        fwrote ?fd (unat off) (take (30 + w) (file_record f (clock s) data)) s"
      using fwrote_append [of ?fd "unat off" ?meta "take w (unread m req)" s] b(4)
      by (simp add: file_record_def data min_def)
    then have fr2: "os_frame (fwrote ?fd (unat off) (take (30 + w) (file_record f (clock s) data)) s) s2"
      using os_frame_trans [OF os_frame_fwrote [OF fr] b(5)] by simp
    have soft: "\<not> soft (script s1) \<Longrightarrow> \<not> soft (script s)" using os_frame_soft [OF fr] by auto
    show ?thesis
    proof (cases err)
      case True
      then have "spy_write_file sync io_job conn chunk m s =
          Some (io_job\<lparr>job_file := ?f, retcode := - 1\<rparr>, conn\<lparr>request := req2\<rparr>, chunk, s2)"
        using off m(1) p \<open>r = 30\<close> b(1) sint_small [OF small] by (simp add: spy_write_file_def f_def req_def)
      then show ?thesis using failed [of req2 s2 "30 + w"] True b m fr2 soft by auto
    next
      case False
      let ?c = "chunk_after chunk (f_size f)"
      obtain n s3 v where sb: "spy_write_chunk_superblock (uninit SUPERBLOCK_SIZE) ?c s2 = Some (n, s3)" "v \<le> 55"
        "os_frame (fwrote (c_fd ?c) 0 (take v (sb_bytes ?c)) s2) s3" "n = 0 \<and> v = 55 \<or> n = - 1 \<and> \<not> soft (script s2)"
        using write_superblock_ok by metis
      let ?s = "if n = 0 \<and> sync then snd (spy_flush_and_sync_chunk ?c s3) else s3"
      have "spy_write_file sync io_job conn chunk m s =
          Some (io_job\<lparr>job_file := ?f, retcode := 0\<rparr>, conn\<lparr>request := req2\<rparr>, ?c, ?s)"
        using off m(1) p \<open>r = 30\<close> b(1, 6) sint_small [OF small] False sb(1)
        by (simp add: spy_write_file_def f_def req_def chunk_after_def Let_def)
      moreover have "os_frame s3 ?s" using flush_frame by simp
      moreover have "take (30 + w) (file_record f (clock s) data) = file_record f (clock s) data"
        using b(6) False len by (simp add: data)
      moreover have "\<not> soft (script s2) \<Longrightarrow> \<not> soft (script s)" using os_frame_soft [OF fr2] by auto
      ultimately show ?thesis
        using stored [of req2 ?s s2 v] b m fr2 sb False os_frame_trans [OF sb(3)] by (auto simp: chunk_after_def)
    qed
  qed
qed

lemma write_file_soft:
  assumes "job_arg io_job = JobOffset off" and "rwb_ok m (request conn)" and "job_file io_job = f"
    and "unat (f_size f) \<le> length (unread m (request conn))" and "unat (f_size f) < 2 ^ 31"
    and "unat off + 30 + unat (f_size f) < 2 ^ 64" and "data = take (unat (f_size f)) (unread m (request conn))"
    and "soft (script s)"
  obtains req' s1 s' where
    "spy_write_file sync io_job conn chunk m s =
       Some (io_job\<lparr>job_file := f\<lparr>f_checksum := adler_of data\<rparr>, retcode := 0\<rparr>, conn\<lparr>request := req'\<rparr>,
         chunk_after chunk (f_size f), s')"
    "rwb_ok m req'" "write_side req' = write_side (request conn)"
    "os_frame (fwrote (c_fd chunk) (unat off) (file_record f (clock s) data) s) s1"
    "os_frame (fwrote (c_fd chunk) 0 (sb_bytes (chunk_after chunk (f_size f))) s1) s'"
proof (rule write_file_ok [of io_job off m conn data sync chunk s, unfolded assms(3)])
  show "job_arg io_job = JobOffset off" "rwb_ok m (request conn)"
    "unat (f_size f) \<le> length (unread m (request conn))" "unat (f_size f) < 2 ^ 31"
    "unat off + 30 + unat (f_size f) < 2 ^ 64" "data = take (unat (f_size f)) (unread m (request conn))"
    by (fact assms)+
qed (use that assms(8) in auto)

section \<open>What is read back\<close>

lemma read_body_loop_ok:
  assumes "rwb_ok m b" and "left \<le> room b" and "unat off + left < 2 ^ 64"
  shows "\<exists>err b' m' s'. read_body_loop fd left b off m s = Some (err, b', m', s') \<and> rwb_ok m' b' \<and>
    read_side b' = read_side b \<and> touched b m m' \<and> os_frame s s' \<and>
    (\<not> err \<and> written m' b' = written m b @ slice (unat off) left (files s fd) \<and>
       (0 < left \<longrightarrow> unat off + left \<le> length (files s fd)) \<or>
     err \<and> (soft (script s) \<longrightarrow> length (files s fd) < unat off + left))"
  using assms
proof (induction m b left arbitrary: off s rule: wr.produce_induct)
  case (finish m b)
  then show ?case by (auto simp: read_body_loop.simps [of fd 0] wr.touch_refl)
next
  case (full m b left)
  then show ?case by simp
next
  case (more m b b' a k left)
  define n where "n = min left k"
  have n: "0 < n" "n \<le> k" "n \<le> left" using more.hyps(2, 8) by (auto simp: n_def)
  obtain r bs s1 where p: "spy_pread s fd n (unat off) = (r, bs, s1)" by (metis prod_cases3)
  note pr = spy_pread_ok [OF p] and pl = spy_pread_length [OF p]
  obtain m1 where m1: "store_area m a bs = Some m1" "rwb_ok m1 (advance_write (length bs) b')"
    "written m1 (advance_write (length bs) b') = written m b @ bs" "room (advance_write (length bs) b') = room b - length bs"
    "read_side (advance_write (length bs) b') = read_side b" "touched b m m1"
    using more.hyps(10) [of bs] pl n(2) by (meson order.trans)
  have step: "read_body_loop fd left b off m s =
      (if r \<noteq> int n then Some (True, b', m1, s1)
       else read_body_loop fd (left - n) (advance_write n b') (off + of_nat n) m1 s1)"
    using more.hyps(2, 3) p m1(1) n
    by (simp add: read_body_loop.simps [of fd left] n_def [symmetric] advance_write_def)
  show ?case
  proof (cases "r = int n")
    case False
    have "rwb_ok m1 b'" using more.hyps(4) same_blocks_ok [OF m1(6) [unfolded touched_def]] by simp
    moreover have "soft (script s) \<longrightarrow> length (files s fd) < unat off + left"
      using pr(2) False n(3) by linarith
    ultimately show ?thesis
      using False step pr(1) more.hyps(6) m1(6)
      by (intro exI [of _ True] exI [of _ b'] exI [of _ m1] exI [of _ s1]) simp
  next
    case True
    then have bs: "bs = slice (unat off) n (files s fd)" "unat off + n \<le> length (files s fd)"
      using pr(2) n(1) by auto
    then have bl: "length bs = n" by simp
    note m1 = m1 [unfolded bl]
    have o: "unat (off + of_nat n) = unat off + n" using more.prems(2) n(3) by (intro unat_add_nowrap) simp
    have "left - n \<le> room (advance_write n b')" "unat (off + of_nat n) + (left - n) < 2 ^ 64"
      using more.prems n(3) m1(4) o by simp_all
    from more.IH [OF n(1, 3) m1(2) this, of s1] obtain err b'' m' s'
      where IH: "read_body_loop fd (left - n) (advance_write n b') (off + of_nat n) m1 s1 = Some (err, b'', m', s')"
        "rwb_ok m' b''" "read_side b'' = read_side b" "touched (advance_write n b') m1 m'" "os_frame s1 s'"
        "\<not> err \<and> written m' b'' = (written m b @ bs) @ slice (unat off + n) (left - n) (files s fd) \<and>
           (0 < left - n \<longrightarrow> unat off + n + (left - n) \<le> length (files s fd)) \<or>
         err \<and> (soft (script s1) \<longrightarrow> length (files s fd) < unat off + n + (left - n))"
      using m1(3, 5) o os_frame_simps [OF pr(1)] by auto
    have glue: "bs @ slice (unat off + n) (left - n) (files s fd) = slice (unat off) left (files s fd)"
      using slice_append_slice [of "unat off" n "files s fd" "left - n"] bs(1) n(3) by simp
    have "\<not> err \<and> written m' b'' = written m b @ slice (unat off) left (files s fd) \<and>
        unat off + left \<le> length (files s fd) \<or>
      err \<and> (soft (script s) \<longrightarrow> length (files s fd) < unat off + left)"
    proof (cases err)
      case True
      then have "soft (script s1) \<longrightarrow> length (files s fd) < unat off + left" using IH(6) n(3) by simp
      with True os_frame_soft [OF pr(1)] show ?thesis by blast
    next
      case False
      then have "written m' b'' = (written m b @ bs) @ slice (unat off + n) (left - n) (files s fd)"
        "0 < left - n \<longrightarrow> unat off + left \<le> length (files s fd)" using IH(6) n(3) by simp_all
      then show ?thesis using False glue bs(2) n(3) by (cases "left = n") simp_all
    qed
    moreover have "touched b m m'" by (rule wr.touch_trans [OF m1(6) IH(4) m1(5)])
    ultimately show ?thesis
      using IH(1, 2, 3) step True os_frame_trans [OF pr(1) IH(5)] by (simp only: if_False simp_thms) blast
  qed
qed

text \<open>
  \<open>spy_read_file\<close> into an empty response buffer with enough room: the read fails (with a hard error or
  beyond the end of the file), or the stored metadata decides.
\<close>

lemma read_file_ok:
  fixes conn io_job
  defines "rsp \<equiv> rsp_body conn"
  assumes e: "job_arg io_job = JobEntry e" and ok: "rwb_ok m rsp" and emp: "write_pos rsp = 0"
    and room: "unat (e_size e) \<le> cap rsp" and meta: "30 \<le> unat (e_size e)"
    and nowrap: "unat (e_offset e) + unat (e_size e) < 2 ^ 64"
    and data: "data = slice (unat (e_offset e)) (unat (e_size e)) (files s (c_fd chunk))"
  obtains (error) rsp' m' s' where
    "spy_read_file io_job conn chunk m s = Some (io_job\<lparr>retcode := - 1\<rparr>, conn\<lparr>rsp_body := rsp'\<rparr>, m', s')"
    "rwb_ok m' rsp'" "touched rsp m m'" "os_frame s s'" "mem_blocks rsp' = mem_blocks rsp"
    "soft (script s) \<Longrightarrow> length (files s (c_fd chunk)) < unat (e_offset e) + unat (e_size e)"
  | (decided) rsp' m' s' where
    "spy_read_file io_job conn chunk m s =
       Some (io_job\<lparr>job_file := read_file_meta (take 30 data),
          retcode := (if f_fid (read_file_meta (take 30 data)) = e_fid e \<and>
            f_checksum (read_file_meta (take 30 data)) = adler_of (drop 30 data) then 0 else - 1)\<rparr>,
        conn\<lparr>rsp_body := rsp'\<rparr>, m', s')"
    "rwb_ok m' rsp'" "touched rsp m m'" "os_frame s s'" "mem_blocks rsp' = mem_blocks rsp" "unread m' rsp' = drop 30 data"
    "unat (e_offset e) + unat (e_size e) \<le> length (files s (c_fd chunk))"
proof -
  let ?n = "unat (e_size e)" and ?fd = "c_fd chunk" and ?off = "unat (e_offset e)"
  have rp: "read_pos rsp = 0" "written m rsp = []" using ok emp by (simp_all add: rwb_ok_def written_def)
  have "?n \<le> room rsp" using room emp by (simp add: room_def)
  from read_body_loop_ok [OF ok this nowrap, of ?fd s] obtain err b1 m1 s1
    where l: "read_body_loop ?fd ?n rsp (e_offset e) m s = Some (err, b1, m1, s1)" "rwb_ok m1 b1"
      "read_side b1 = read_side rsp" "touched rsp m m1" "os_frame s s1"
      "\<not> err \<and> written m1 b1 = data \<and> (0 < ?n \<longrightarrow> ?off + ?n \<le> length (files s ?fd)) \<or>
       err \<and> (soft (script s) \<longrightarrow> length (files s ?fd) < ?off + ?n)"
    by (auto simp: rp data)
  show ?thesis
  proof (cases err)
    case True
    then have "spy_read_file io_job conn chunk m s = Some (io_job\<lparr>retcode := - 1\<rparr>, conn\<lparr>rsp_body := b1\<rparr>, m1, s1)"
      using e room l(1) by (simp add: spy_read_file_def rsp_def)
    then show ?thesis using error True l by (auto simp: read_side_def)
  next
    case False
    have d: "written m1 b1 = data" "?off + ?n \<le> length (files s ?fd)" using l(6) False meta by auto
    then have dl: "length data = ?n" by (simp add: data)
    have u1: "unread m1 b1 = data" using d l(3) rp by (simp add: unread_def read_side_def)
    from read_n_ok [OF l(2), of 30] obtain b2 where b2: "spy_rw_buffer_read_n m1 b1 30 = Some (take 30 data, b2)"
      "rwb_ok m1 b2" "unread m1 b2 = drop 30 data" "write_side b2 = write_side b1"
      by (auto simp: u1)
    have "unat (e_size e - 30) = ?n - 30" using meta by (subst unat_sub) (simp_all add: word_le_nat_alt)
    moreover have "?n - 30 \<le> write_pos b2 - read_pos b2" using length_unread [OF b2(2)] b2(3) dl by simp
    ultimately obtain b3 where b3: "spy_buffer_adler32 m1 0 b2 (unat (e_size e - 30)) = Some (adler_of (drop 30 data), b3)"
      "rwb_ok m1 b3" "unread m1 b3 = drop 30 data" "write_side b3 = write_side b2"
      using buffer_adler32_ref [OF b2(2) _ halves_zero(1), of "?n - 30"] b2(3) dl
      by (auto simp: halves_zero adler_of_def)
    let ?job = "io_job\<lparr>job_file := read_file_meta (take 30 data),
      retcode := (if f_fid (read_file_meta (take 30 data)) = e_fid e \<and>
        f_checksum (read_file_meta (take 30 data)) = adler_of (drop 30 data) then 0 else - 1)\<rparr>"
    have "spy_read_file io_job conn chunk m s = Some (?job, conn\<lparr>rsp_body := b3\<rparr>, m1, s1)"
      using e room l(1) False b2(1) b3(1) meta dl by (simp add: spy_read_file_def rsp_def Let_def)
    moreover have "mem_blocks b3 = mem_blocks rsp"
      using b3(4) b2(4) l(3) by (simp add: write_side_def read_side_def)
    ultimately show ?thesis using decided l(4, 5) b3 d(2) by blast
  qed
qed

lemma read_file_soft:
  assumes "job_arg io_job = JobEntry e" and "rwb_ok m (rsp_body conn)" and "write_pos (rsp_body conn) = 0"
    and "unat (e_size e) \<le> cap (rsp_body conn)" and "30 \<le> unat (e_size e)"
    and "unat (e_offset e) + unat (e_size e) < 2 ^ 64"
    and "slice (unat (e_offset e)) (unat (e_size e)) (files s (c_fd chunk)) = data"
    and "soft (script s)" and "unat (e_offset e) + unat (e_size e) \<le> length (files s (c_fd chunk))"
    and "f = read_file_meta (take 30 data)"
  obtains rsp' m' s' where
    "spy_read_file io_job conn chunk m s =
       Some (io_job\<lparr>job_file := f,
          retcode := (if f_fid f = e_fid e \<and> f_checksum f = adler_of (drop 30 data) then 0 else - 1)\<rparr>,
        conn\<lparr>rsp_body := rsp'\<rparr>, m', s')"
    "rwb_ok m' rsp'" "unread m' rsp' = drop 30 data"
proof (rule read_file_ok [OF assms(1-6) assms(7) [symmetric]])
qed (use that assms(8-10) in auto)

section \<open>Properties\<close>

lemma unat_size_meta: "unat (sz :: u32) < 2 ^ 31 \<Longrightarrow> unat (sz + 30) = unat sz + 30"
  by (subst unat_add_lem [THEN iffD1]) simp_all

lemma unat_ucast_32_64: "unat (ucast (x :: u32) :: u64) = unat x"
proof -
  have "unat x < 2 ^ 64" by (rule less_trans [OF unsigned_less]) simp
  then show ?thesis by (simp add: unsigned_ucast_eq take_bit_nat_eq_self)
qed

lemma chunk_after_offset:
  assumes "unat sz < 2 ^ 31" and "unat (current_offset c) + 30 + unat sz < 2 ^ 64"
  shows "unat (current_offset (chunk_after c sz)) = unat (current_offset c) + 30 + unat sz"
proof -
  have "unat (ucast (sz + 30) :: u64) = unat sz + 30"
    unfolding unat_ucast_32_64 by (rule unat_size_meta [OF assms(1)])
  then show ?thesis
    using assms(2) unfolding chunk_after_def by (simp add: unat_add_lem [THEN iffD1])
qed

lemma slice_record:
  assumes "bs \<noteq> []" and "55 \<le> off" and "length sb \<le> 55" and "os_frame (fwrote fd off bs s) s1"
    and "os_frame (fwrote fd 0 sb s1) s'"
  shows "slice off (length bs) (files s' fd) = bs" and "off + length bs \<le> length (files s' fd)"
proof -
  have f: "files s' fd = (if sb = [] then id else pwrite_at 0 sb) (pwrite_at off bs (files s fd))"
    using os_frame_simps [OF assms(4)] os_frame_simps [OF assms(5)] assms(1) by (simp add: fwrote_def)
  show "slice off (length bs) (files s' fd) = bs"
    using assms(2, 3) by (simp add: f slice_pwrite_after)
  show "off + length bs \<le> length (files s' fd)" by (simp add: f le_max_iff_disj)
qed

text \<open>(C12) A file that was stored is read back: when no hard error occurs, \<open>spy_write_file\<close> stores the first
  \<open>size\<close> bytes of the request body with their metadata at the job's offset and succeeds; later
  \<open>spy_read_file\<close>, given the index entry made for the file and a chunk file that still holds these bytes,
  succeeds, puts exactly these bytes into the response buffer and decodes the file's id, reference
  count, size, checksum and time stamp. Short transfers, interrupted calls and the block borders of
  both buffers do not matter.\<close>

theorem write_read_roundtrip:
  assumes "job_arg io_job = JobOffset off" and "rwb_ok m (request conn)" and "job_file io_job = f"
    and "unat (f_size f) \<le> length (unread m (request conn))" and "unat (f_size f) < 2 ^ 31"
    and "55 \<le> unat off" and "unat off + 30 + unat (f_size f) < 2 ^ 64" and "soft (script s)"
    and "job_arg io_job2 = JobEntry e" and "e_offset e = off" and "e_fid e = f_fid f" and "e_size e = f_size f + 30"
    and "rwb_ok m2 (rsp_body conn2)" and "write_pos (rsp_body conn2) = 0"
    and "unat (f_size f) + 30 \<le> cap (rsp_body conn2)" and "c_fd chunk2 = c_fd chunk"
  shows "\<exists>io_job' conn' chunk' s'. spy_write_file sync io_job conn chunk m s = Some (io_job', conn', chunk', s') \<and>
    retcode io_job' = 0 \<and>
    (\<forall>s2. soft (script s2) \<and> slice (unat off) (30 + unat (f_size f)) (files s2 (c_fd chunk)) =
         slice (unat off) (30 + unat (f_size f)) (files s' (c_fd chunk)) \<and>
         unat off + 30 + unat (f_size f) \<le> length (files s2 (c_fd chunk)) \<longrightarrow>
      (\<exists>io_job2' conn2' m2' s2'. spy_read_file io_job2 conn2 chunk2 m2 s2 = Some (io_job2', conn2', m2', s2') \<and>
        retcode io_job2' = 0 \<and> unread m2' (rsp_body conn2') = take (unat (f_size f)) (unread m (request conn)) \<and>
        job_file io_job2' = f\<lparr>f_checksum := f_checksum (job_file io_job'), f_timestamp := clock s\<rparr>))"
proof -
  let ?n = "unat (f_size f)" and ?fd = "c_fd chunk"
  define data where "data = take ?n (unread m (request conn))"
  have dl: "length data = ?n" using assms(4) by (simp add: data_def)
  let ?rec = "file_record f (clock s) data"
  obtain req' s1 s' where W: "spy_write_file sync io_job conn chunk m s =
       Some (io_job\<lparr>job_file := f\<lparr>f_checksum := adler_of data\<rparr>, retcode := 0\<rparr>, conn\<lparr>request := req'\<rparr>,
         chunk_after chunk (f_size f), s')"
    "os_frame (fwrote ?fd (unat off) ?rec s) s1"
    "os_frame (fwrote ?fd 0 (sb_bytes (chunk_after chunk (f_size f))) s1) s'"
    by (rule write_file_soft [OF assms(1-5, 7) data_def assms(8)])
  have "?rec \<noteq> []" using length_file_record [of f "clock s" data] by fastforce
  then have rec: "slice (unat off) (30 + ?n) (files s' ?fd) = ?rec"
    using slice_record(1) [OF _ assms(6) _ W(2, 3)] dl by simp
  have es: "unat (e_size e) = 30 + ?n" using unat_size_meta [OF assms(5)] assms(12) by simp
  have R: "\<exists>io_job2' conn2' m2' s2'. spy_read_file io_job2 conn2 chunk2 m2 s2 = Some (io_job2', conn2', m2', s2') \<and>
        retcode io_job2' = 0 \<and> unread m2' (rsp_body conn2') = data \<and>
        job_file io_job2' = f\<lparr>f_checksum := adler_of data, f_timestamp := clock s\<rparr>"
    if soft: "soft (script s2)" and sl: "slice (unat off) (30 + ?n) (files s2 ?fd) = ?rec"
      and len: "unat off + 30 + ?n \<le> length (files s2 ?fd)" for s2
  proof -
    have d: "slice (unat (e_offset e)) (unat (e_size e)) (files s2 (c_fd chunk2)) = ?rec"
      using sl es assms(10, 16) by simp
    have meta: "read_file_meta (take 30 ?rec) = f\<lparr>f_checksum := adler_of data, f_timestamp := clock s\<rparr>"
      using read_file_meta_bytes [of _ "[]"] by (simp add: file_record_def)
    have c: "unat (e_size e) \<le> cap (rsp_body conn2)" "30 \<le> unat (e_size e)" "unat (e_offset e) + unat (e_size e) < 2 ^ 64"
      "unat (e_offset e) + unat (e_size e) \<le> length (files s2 (c_fd chunk2))"
      using es assms(7, 10, 15, 16) len by simp_all
    let ?f = "f\<lparr>f_checksum := adler_of data, f_timestamp := clock s\<rparr>"
    obtain rsp' m2' s2' where "spy_read_file io_job2 conn2 chunk2 m2 s2 =
        Some (io_job2\<lparr>job_file := ?f, retcode :=
            (if f_fid ?f = e_fid e \<and> f_checksum ?f = adler_of (drop 30 ?rec) then 0 else - 1)\<rparr>,
          conn2\<lparr>rsp_body := rsp'\<rparr>, m2', s2')" "unread m2' rsp' = drop 30 ?rec"
      by (rule read_file_soft [OF assms(9, 13, 14) c(1-3) d soft c(4) meta [symmetric]])
    moreover have "drop 30 ?rec = data" by (simp add: file_record_def)
    ultimately show ?thesis using assms(11) by simp
  qed
  show ?thesis
    using W(1) R rec unfolding data_def [symmetric] by auto
qed

text \<open>Objects for the witnesses: three bytes in the request, an empty response buffer of 40 bytes.\<close>

definition demo_mem2 :: mem_state where
  "demo_mem2 = \<lparr>blocks = (\<lambda>_. \<lparr>mb_size = 40, mb_buf = (\<lambda>k. of_nat (97 + k))\<rparr>), next_block = 2, calloc_left = 0,
     free_mem_blocks = [], mem_blocks_alloc = 2, mem_blocks_alloc_limit = 2, mem_blocks_used = 2\<rparr>"

definition demo_conn :: spy_connection where
  "demo_conn = \<lparr>conn_fd = 9,
     request = \<lparr>mem_blocks = [0], read_pos = 0, write_pos = 3, cap = 40, read_block = Some 0, write_block = Some 0,
       read_base = 0, write_base = 0\<rparr>,
     rsp_body = \<lparr>mem_blocks = [1], read_pos = 0, write_pos = 0, cap = 40, read_block = Some 1, write_block = Some 1,
       read_base = 0, write_base = 0\<rparr>,
     rsp_header = replicate 6 0, sentlen = 0, opcode = 0, conn_error = 0, body_len = 0, conn_state = RECEIVE_HDR\<rparr>"

definition demo_job :: spy_io_job where
  "demo_job = zero_job\<lparr>job_arg := JobOffset 155, job_file := \<lparr>f_fid = 5, f_ref = 1, f_size = 3, f_checksum = 0, f_timestamp = 0\<rparr>\<rparr>"

definition demo_os :: "sysresp list \<Rightarrow> os" where
  "demo_os rs = \<lparr>files = (\<lambda>_. replicate 155 0), fpos = (\<lambda>_. 0), script = rs, clock = 1000\<rparr>"

definition demo_entry :: spy_file_index_entry where
  "demo_entry = \<lparr>e_chunk_id = 7, e_fid = 5, e_offset = 155, e_size = 33\<rparr>"

lemma demo_facts:
  "rwb_ok demo_mem2 (request demo_conn)" "rwb_ok demo_mem2 (rsp_body demo_conn)"
  "length (unread demo_mem2 (request demo_conn)) = 3" "job_arg demo_job = JobOffset 155"
  "f_size (job_file demo_job) = 3" "f_fid (job_file demo_job) = 5" "write_pos (rsp_body demo_conn) = 0" "cap (rsp_body demo_conn) = 40"
  "unat (155 :: u64) = 155"
  by (simp_all add: rwb_ok_def cursor_ok_def demo_mem2_def demo_conn_def unread_def written_def flat_def bdata_def
      demo_job_def)

theorem write_read_roundtrip_witness:
  "\<exists>io_job' conn' chunk' s'. spy_write_file True demo_job demo_conn demo_chunk demo_mem2
      (demo_os [SysN 3, SysErr EINTR, SysN 0]) = Some (io_job', conn', chunk', s') \<and> retcode io_job' = 0"
  using write_read_roundtrip [of demo_job 155 demo_mem2 demo_conn "job_file demo_job" "demo_os [SysN 3, SysErr EINTR, SysN 0]"
      "demo_job\<lparr>job_arg := JobEntry demo_entry\<rparr>" demo_entry demo_mem2 demo_conn demo_chunk demo_chunk True]
  by (simp add: demo_facts) (auto simp: demo_os_def demo_entry_def)

text \<open>(C13) A write that fails changes nothing that was stored before: for every behaviour of the disk,
  \<open>spy_write_file\<close> returns; when it reports an error, the chunk's offset, free space and counters are
  unchanged, a hard error did occur, and every byte of the chunk file before the job's offset, the
  superblock among them, is as it was. When it reports success, the bytes before the offset and after
  the superblock are as they were and the write offset has advanced by the size of the stored record.\<close>

theorem write_file_failure_atomic:
  assumes "job_arg io_job = JobOffset off" and "rwb_ok m (request conn)" and "job_file io_job = f"
    and "unat (f_size f) \<le> length (unread m (request conn))" and "unat (f_size f) < 2 ^ 31"
    and "unat off + 30 + unat (f_size f) < 2 ^ 64" and "55 \<le> unat off" and "unat off \<le> length (files s (c_fd chunk))"
    and "unat (current_offset chunk) + 30 + unat (f_size f) < 2 ^ 64"
  shows "\<exists>io_job' conn' chunk' s'. spy_write_file sync io_job conn chunk m s = Some (io_job', conn', chunk', s') \<and>
    (retcode io_job' = - 1 \<and> \<not> soft (script s) \<and> chunk' = chunk \<and>
       take (unat off) (files s' (c_fd chunk)) = take (unat off) (files s (c_fd chunk)) \<or>
     retcode io_job' = 0 \<and> unat (current_offset chunk') = unat (current_offset chunk) + 30 + unat (f_size f) \<and>
       files_count chunk' = files_count chunk + 1 \<and>
       slice 55 (unat off - 55) (files s' (c_fd chunk)) = slice 55 (unat off - 55) (files s (c_fd chunk)))"
proof -
  let ?fd = "c_fd chunk" and ?rec = "file_record f (clock s) (take (unat (f_size f)) (unread m (request conn)))"
  have files: "take (unat off) (files s1 ?fd) = take (unat off) (files s ?fd) \<and> unat off \<le> length (files s1 ?fd)"
    if "os_frame (fwrote ?fd (unat off) bs s) s1" for bs s1
    using os_frame_simps [OF that] assms(8) by (auto simp: fwrote_def take_pwrite_before)
  note hyps = assms(1, 2) assms(4-6) [folded assms(3)] refl
  show ?thesis
  proof (cases rule: write_file_ok [OF hyps, of sync chunk s, unfolded assms(3)])
    case (1 req' s1 s' w)
    note stored = 1
    note f1 = files [OF stored(5)]
    let ?sb = "take w (sb_bytes (chunk_after chunk (f_size f)))"
    have "files s' ?fd = (if ?sb = [] then files s1 ?fd else pwrite_at 0 ?sb (files s1 ?fd))"
      using os_frame_simps [OF stored(7)] by (simp add: fwrote_def)
    then have "slice 55 (unat off - 55) (files s' ?fd) = slice 55 (unat off - 55) (files s1 ?fd)"
      using stored(6) by (simp add: slice_pwrite_after)
    also have "\<dots> = slice 55 (unat off - 55) (files s ?fd)"
      using f1 assms(7) by (simp add: slice_def take_drop)
    finally have "slice 55 (unat off - 55) (files s' ?fd) = slice 55 (unat off - 55) (files s ?fd)" .
    moreover have "unat (current_offset (chunk_after chunk (f_size f))) = unat (current_offset chunk) + 30 + unat (f_size f)"
      by (rule chunk_after_offset [OF assms(5, 9)])
    ultimately show ?thesis using stored(1) by (simp add: chunk_after_def)
  next
    case (2 req' s' w)
    note failed = 2
    show ?thesis using failed files [OF failed(6)] by simp
  qed
qed

theorem write_file_failure_atomic_witness:
  "\<exists>io_job' conn' chunk' s'. spy_write_file True demo_job demo_conn demo_chunk demo_mem2
      (demo_os [SysN 40, SysErr EOTHER]) = Some (io_job', conn', chunk', s') \<and>
    (retcode io_job' = - 1 \<and> chunk' = demo_chunk \<and>
       take 155 (files s' 3) = replicate 155 0 \<or> retcode io_job' = 0)"
  using write_file_failure_atomic [of demo_job 155 demo_mem2 demo_conn "job_file demo_job"
      "demo_os [SysN 40, SysErr EOTHER]" demo_chunk True]
  by (simp add: demo_facts) (auto simp: demo_os_def demo_chunk_def)

text \<open>(C19) A changed data byte is detected: when one byte of a stored file's contents differs from what was
  written, \<open>spy_read_file\<close> reports a read error instead of returning the data.\<close>

theorem read_file_detects_corruption:
  assumes "job_arg io_job = JobEntry e" and "rwb_ok m (rsp_body conn)" and "write_pos (rsp_body conn) = 0"
    and "unat (e_size e) = 30 + length data" and "unat (e_size e) \<le> cap (rsp_body conn)"
    and "unat (e_offset e) + unat (e_size e) < 2 ^ 64"
    and "slice (unat (e_offset e)) (unat (e_size e)) (files s (c_fd chunk)) = (file_record f ts data)[30 + i := x]"
    and "unat (e_offset e) + unat (e_size e) \<le> length (files s (c_fd chunk))"
    and "soft (script s)" and "i < length data" and "x \<noteq> data ! i"
  shows "\<exists>io_job' conn' m' s'. spy_read_file io_job conn chunk m s = Some (io_job', conn', m', s') \<and> retcode io_job' = - 1"
proof -
  let ?rec = "(file_record f ts data)[30 + i := x]" and ?f = "f\<lparr>f_checksum := adler_of data, f_timestamp := ts\<rparr>"
  have rec: "?rec = meta_bytes ?f @ data[i := x]" by (simp add: file_record_def list_update_append)
  have meta: "?f = read_file_meta (take 30 ?rec)" unfolding rec using read_file_meta_bytes [of ?f "[]"] by simp
  have d: "drop 30 ?rec = data[i := x]" by (simp add: rec)
  have "adler_of (data[i := x]) \<noteq> adler_of data" using adler_of_update [OF assms(10)] assms(11) by blast
  then have ck: "f_checksum ?f \<noteq> adler_of (drop 30 ?rec)" unfolding d by simp
  have n30: "30 \<le> unat (e_size e)" using assms(4) by simp
  obtain rsp' m' s' where "spy_read_file io_job conn chunk m s =
       Some (io_job\<lparr>job_file := ?f, retcode := (if f_fid ?f = e_fid e \<and> f_checksum ?f = adler_of (drop 30 ?rec) then 0 else - 1)\<rparr>,
        conn\<lparr>rsp_body := rsp'\<rparr>, m', s')"
    by (rule read_file_soft [OF assms(1-3, 5) n30 assms(6, 7, 9, 8) meta])
  with ck show ?thesis by simp
qed

theorem read_file_detects_corruption_witness:
  "\<exists>s io_job' conn' m' s'. slice 155 33 (files s 3) = (file_record (job_file demo_job) 1000 [1, 2, 3])[31 := 9] \<and>
     spy_read_file (demo_job\<lparr>job_arg := JobEntry demo_entry\<rparr>) demo_conn demo_chunk demo_mem2 s =
       Some (io_job', conn', m', s') \<and> retcode io_job' = - 1"
proof -
  let ?r = "(file_record (job_file demo_job) 1000 [1, 2, 3])[31 := 9]"
  let ?s = "\<lparr>files = (\<lambda>_. replicate 155 0 @ ?r), fpos = (\<lambda>_. 0), script = [], clock = 0\<rparr>"
  have sl: "slice 155 33 (files ?s 3) = ?r" by (simp add: slice_def)
  have "\<exists>io_job' conn' m' s'. spy_read_file (demo_job\<lparr>job_arg := JobEntry demo_entry\<rparr>) demo_conn demo_chunk demo_mem2 ?s =
       Some (io_job', conn', m', s') \<and> retcode io_job' = - 1"
    by (rule read_file_detects_corruption [where e = demo_entry and data = "[1, 2, 3]" and i = 1 and x = 9
          and f = "job_file demo_job" and ts = 1000])
      (simp_all add: demo_facts demo_entry_def demo_chunk_def slice_def)
  with sl show ?thesis by blast
qed

section \<open>Dumping\<close>

text \<open>Responses without errors.\<close>

definition patient :: "sysresp list \<Rightarrow> bool" where
  "patient = list_all (\<lambda>r. case r of SysN k \<Rightarrow> True | SysErr e \<Rightarrow> False)"

lemma sys_send_patient:
  assumes "patient (script s)" and "buf \<noteq> []"
  obtains n s' where "sys_send s fd buf = (Done n, s')" "0 < n" "n \<le> length buf" "patient (script s')"
    "files s' = (files s)(fd := files s fd @ take n buf)"
    "n = (case script s of SysN k # _ \<Rightarrow> min (k + 1) (length buf) | _ \<Rightarrow> length buf)"
proof (cases "script s")
  case Nil
  then show ?thesis
    using that [of "length buf"] assms by (simp add: sys_send_def next_resp_def grant_def)
next
  case (Cons r rs)
  then obtain k where "r = SysN k" "patient rs" using assms(1) by (cases r) (auto simp: patient_def)
  with Cons assms(2) show ?thesis
    using that [of "min (k + 1) (length buf)"] by (simp add: sys_send_def next_resp_def grant_def Suc_le_eq)
qed

lemma dump_body_loop_ok:
  "patient (script s) \<Longrightarrow> fd \<noteq> cfd \<Longrightarrow> fsz \<le> length (files s cfd) \<Longrightarrow> offset \<le> fsz \<Longrightarrow>
   \<exists>s'. dump_body_loop s fd cfd offset fsz = Some (True, s') \<and>
     files s' = (files s)(fd := files s fd @ slice offset (fsz - offset) (files s cfd))"
proof (induction s fd cfd offset fsz rule: dump_body_loop.induct)
  case (1 s fd cfd offset fsz)
  show ?case
  proof (cases "offset < fsz")
    case False
    then show ?thesis using 1 by (simp add: dump_body_loop.simps [of s])
  next
    case True
    let ?buf = "slice offset (fsz - offset) (files s cfd)"
    have bl: "length ?buf = fsz - offset" using 1(4) by simp
    have "length ?buf \<noteq> 0" unfolding bl using True by simp
    then have "?buf \<noteq> []" by (metis list.size(3))
    then obtain n s1 where n: "sys_send s fd ?buf = (Done n, s1)" "0 < n" "n \<le> fsz - offset" "patient (script s1)"
      "files s1 = (files s)(fd := files s fd @ take n ?buf)"
      using sys_send_patient [OF "1.prems"(1)] bl by metis
    have "\<exists>s'. dump_body_loop s1 fd cfd (offset + n) fsz = Some (True, s') \<and>
        files s' = (files s1)(fd := files s1 fd @ slice (offset + n) (fsz - (offset + n)) (files s1 cfd))"
      using 1 True n by (intro "1.IH" [of "Done n" s1 n]) (auto simp: sys_sendfile_def)
    moreover have e: "n + (fsz - (offset + n)) = fsz - offset" using n(3) by arith
    have "take n ?buf @ slice (offset + n) (fsz - (offset + n)) (files s cfd) = ?buf"
      using n(3) slice_append_slice [of offset n "files s cfd" "fsz - (offset + n)"] e by (simp add: take_slice)
    ultimately show ?thesis
      using n True "1.prems"(2) by (auto simp: dump_body_loop.simps [of s] sys_sendfile_def)
  qed
qed

text \<open>Once a part of the header has been sent, the loop never gets to its end.\<close>

lemma dump_header_stuck:
  "0 < sent \<Longrightarrow> tot = 6 - int sent \<Longrightarrow> sent < 6 \<Longrightarrow> dump_header_loop s fd header sent tot \<noteq> Some (True, s')"
proof (induction s fd header sent tot rule: dump_header_loop.induct)
  case (1 s fd header sent tot)
  show ?case
  proof
    assume ok: "dump_header_loop s fd header sent tot = Some (True, s')"
    then obtain n s1 where n: "sys_send s fd (slice sent (nat (tot - int sent)) header) = (Done n, s1)" "n \<noteq> 0"
      "0 < tot - int sent" "dump_header_loop s1 fd header (sent + n) (tot - int n) = Some (True, s')"
      using "1.prems" by (auto simp: dump_header_loop.simps [of s] split: if_splits sysret.splits prod.splits)
    have "n \<le> nat (tot - int sent)"
      using n(1) by (auto simp: sys_send_def grant_def min_def split: prod.splits option.splits sysresp.splits if_splits)
    then have "sent + n < 6" using "1.prems" n(3) by linarith
    then show False
      using "1.IH" [of "Done n" s1 n] n "1.prems" by (auto simp: algebra_simps)
  qed
qed

lemma dump_header_whole:
  assumes "patient (script s)" and "length header = 6" and "\<forall>k rs. script s = SysN k # rs \<longrightarrow> 5 \<le> k"
  shows "\<exists>s'. dump_header_loop s fd header 0 6 = Some (True, s') \<and> patient (script s') \<and>
    files s' = (files s)(fd := files s fd @ header)"
proof -
  have h: "slice 0 6 header = header" using assms(2) by (simp add: slice_def)
  have ne: "header \<noteq> []" using assms(2) by auto
  obtain n s1 where n: "sys_send s fd header = (Done n, s1)" "patient (script s1)"
    "files s1 = (files s)(fd := files s fd @ take n header)"
    "n = (case script s of SysN k # _ \<Rightarrow> min (k + 1) (length header) | _ \<Rightarrow> length header)"
    using sys_send_patient [OF assms(1) ne] by metis
  have "n = 6" using n(4) assms(2, 3) by (auto split: list.splits sysresp.splits)
  then show ?thesis
    using n h assms(2) by (simp add: dump_header_loop.simps [of s] dump_header_loop.simps [of s1])
qed

lemma dump_header_bytes:
  assumes "length h = 6"
  shows "at_off 2 (\<lambda>p. spy_mach_write_to_4 p v) (at_off 1 (\<lambda>p. spy_mach_write_to_1 p y)
     (at_off 0 (\<lambda>p. spy_mach_write_to_1 p x) h)) = [x, y] @ be4.enc v"
proof -
  obtain a b t where h: "h = a # b # t" "length t = 4" using assms by (auto simp: eval_nat_numeral length_Suc_conv)
  have "at_off 1 (\<lambda>p. spy_mach_write_to_1 p y) (at_off 0 (\<lambda>p. spy_mach_write_to_1 p x) h) = x # y # t"
    by (simp add: h at_off_def spy_mach_write_to_1_def)
  then show ?thesis using h(2) be4.wr_eq_enc [of t v] by (simp add: at_off_def)
qed

text \<open>(C29) Dumping a chunk: when the header goes out in one piece and no call fails, the client receives the
  6-byte header with the file size, then exactly the chunk file, however the body is split up.\<close>

theorem dump_chunkfile_complete:
  assumes "patient (script s)" and "\<forall>k rs. script s = SysN k # rs \<longrightarrow> 5 \<le> k" and "length (rsp_header conn) = 6"
    and "conn_fd conn \<noteq> c_fd chunk" and "unat (file_size chunk) \<le> length (files s (c_fd chunk))"
  shows "\<exists>conn' s'. spy_dump_chunkfile conn chunk s = Some (0, conn', s') \<and>
    files s' (conn_fd conn) = files s (conn_fd conn) @ [opcode conn, 0] @ be4.enc (ucast (file_size chunk)) @
      take (unat (file_size chunk)) (files s (c_fd chunk))"
proof -
  let ?h = "[opcode conn, 0] @ be4.enc (ucast (file_size chunk))"
  have "length ?h = 6" by simp
  from dump_header_whole [OF assms(1) this assms(2)] obtain s1
    where h: "dump_header_loop s (conn_fd conn) ?h 0 6 = Some (True, s1)" "patient (script s1)"
      "files s1 = (files s)(conn_fd conn := files s (conn_fd conn) @ ?h)" by blast
  have "\<exists>s'. dump_body_loop s1 (conn_fd conn) (c_fd chunk) 0 (unat (file_size chunk)) = Some (True, s') \<and>
      files s' = (files s1)(conn_fd conn := files s1 (conn_fd conn) @
        slice 0 (unat (file_size chunk) - 0) (files s1 (c_fd chunk)))"
    using h assms by (intro dump_body_loop_ok) auto
  with h assms(3, 4) dump_header_bytes [OF assms(3)] show ?thesis
    by (auto simp: spy_dump_chunkfile_def slice_def)
qed

theorem dump_chunkfile_complete_witness:
  "\<exists>conn' s'. spy_dump_chunkfile demo_conn (demo_chunk\<lparr>file_size := 100\<rparr>) (demo_os [SysN 5, SysN 17]) = Some (0, conn', s') \<and>
     length (files s' 9) = 155 + 6 + 100"
proof -
  have p: "patient (script (demo_os [SysN 5, SysN 17]))" by (simp add: patient_def demo_os_def)
  have "\<forall>k rs. script (demo_os [SysN 5, SysN 17]) = SysN k # rs \<longrightarrow> 5 \<le> k" by (simp add: demo_os_def)
  from dump_chunkfile_complete [OF p this, of demo_conn "demo_chunk\<lparr>file_size := 100\<rparr>"] show ?thesis
    by (auto simp: demo_conn_def demo_chunk_def demo_os_def)
qed

text \<open>(C30) A header that is sent only in part never completes: if the first \<open>write\<close> takes fewer than 6 bytes, the
  dump does not succeed, whatever happens afterwards. The loop subtracts what was sent twice, from
  \<open>total\<close> and again in \<open>total - sent\<close>, so it fails or repeats for ever.\<close>

theorem dump_chunkfile_short_header:
  assumes "script s = SysN k # rs" and "k < 5" and "length (rsp_header conn) = 6"
  shows "\<nexists>conn' s'. spy_dump_chunkfile conn chunk s = Some (0, conn', s')"
proof -
  let ?h = "[opcode conn, 0] @ be4.enc (ucast (file_size chunk))"
  have "slice 0 6 ?h = ?h" by (simp add: slice_def)
  then obtain s1 where "dump_header_loop s (conn_fd conn) ?h 0 6 = dump_header_loop s1 (conn_fd conn) ?h (k + 1) (6 - int (k + 1))"
    using assms(1, 2) by (simp add: dump_header_loop.simps [of s] sys_send_def next_resp_def grant_def)
  then have "dump_header_loop s (conn_fd conn) ?h 0 6 \<noteq> Some (True, s')" for s'
    using dump_header_stuck [of "k + 1" "6 - int (k + 1)"] assms(2) by simp
  then show ?thesis
    using dump_header_bytes [OF assms(3)] 
    by (auto simp: spy_dump_chunkfile_def Let_def split: bind_splits if_splits)
qed

theorem dump_chunkfile_short_header_witness:
  "\<nexists>conn' s'. spy_dump_chunkfile demo_conn demo_chunk (demo_os [SysN 2]) = Some (0, conn', s')"
  by (rule dump_chunkfile_short_header [of _ 2 "[]"]) (simp_all add: demo_os_def demo_conn_def)

end
