(* ===== verification/Spy_Index.thy ===== *)
theory Spy_Index
  imports Spy_Types
begin

text \<open>
  The chunk table and the in-memory index of the server: \<open>spy_add_chunk\<close>, \<open>spy_add_file_index\<close> and
  \<open>spy_alloc_chunk\<close> of \<^verbatim>\<open>spy_store.c\<close>, \<open>spy_lookup_file_index\<close> of \<^verbatim>\<open>spy_server.c\<close>. A hash table is the list of
  entries of every bucket, in the order in which a walk over the bucket visits them.
\<close>

section \<open>State\<close>

text \<open>\<open>chunk_tab\<close> is the memory of the chunk structures, \<open>next_chunk\<close> the address \<open>malloc\<close> returns next.\<close>

record spy_store =
  chunk_tab :: "nat \<Rightarrow> spy_chunk"
  next_chunk :: nat
  chunks :: "nat list"
  writing_chunks :: "nat list"
  chunk_index :: "nat \<Rightarrow> nat list"
  file_index :: "nat \<Rightarrow> spy_file_index_entry list"
  n_chunks :: int
  max_chunk_id :: u64

section \<open>Operations\<close>

definition chunk_bucket :: "u64 \<Rightarrow> nat" where
  "chunk_bucket chunk_id = unat (chunk_id mod CHUNK_HASH_SIZE)"

definition file_bucket :: "u64 \<Rightarrow> nat" where
  "file_bucket fid = unat (fid mod FILE_HASH_SIZE)"

text \<open>\<open>size\<close> is a \<open>uint32_t\<close> parameter.\<close>

definition spy_alloc_chunk :: "u64 \<Rightarrow> nat \<Rightarrow> u64 \<Rightarrow> string \<Rightarrow> u32 \<Rightarrow> spy_chunk" where
  "spy_alloc_chunk config_chunk_size fd chunk_id path sz =
     \<lparr>c_fd = fd, c_path = path, c_chunk_id = chunk_id, files_alloc = 0, files_count = 0,
      current_offset = of_nat SUPERBLOCK_SIZE, avail_space = config_chunk_size - of_nat SUPERBLOCK_SIZE,
      file_size = ucast sz\<rparr>"

text \<open>The chunk gets its address when it enters the tables; a second chunk with its id aborts.\<close>

definition spy_add_chunk :: "spy_chunk \<Rightarrow> spy_store \<Rightarrow> spy_store option" where
  "spy_add_chunk chunk st =
     (let a = next_chunk st;
          st = st\<lparr>chunk_tab := (chunk_tab st)(a := chunk), next_chunk := a + 1\<rparr>;
          st = st\<lparr>chunks := a # chunks st\<rparr>;
          head = chunk_bucket (c_chunk_id chunk)
      in if \<forall>tmp\<in>set (chunk_index st head). c_chunk_id (chunk_tab st tmp) \<noteq> c_chunk_id chunk then
           Some (st\<lparr>chunk_index := (chunk_index st)(head := a # chunk_index st head), n_chunks := n_chunks st + 1\<rparr>)
         else None)"

text \<open>The same on the file index alone and on the state.\<close>

definition index_add ::
    "(nat \<Rightarrow> spy_file_index_entry list) \<Rightarrow> spy_file_index_entry \<Rightarrow> (nat \<Rightarrow> spy_file_index_entry list) option" where
  "index_add t e =
     (let head = file_bucket (e_fid e)
      in if \<forall>tmp\<in>set (t head). e_fid tmp \<noteq> e_fid e then Some (t(head := e # t head)) else None)"

definition spy_add_file_index :: "u64 \<Rightarrow> u64 \<Rightarrow> u64 \<Rightarrow> u32 \<Rightarrow> spy_store \<Rightarrow> spy_store option" where
  "spy_add_file_index chunk_id fid offset sz st = do {
     t \<leftarrow> index_add (file_index st) \<lparr>e_chunk_id = chunk_id, e_fid = fid, e_offset = offset, e_size = sz\<rparr>;
     Some (st\<lparr>file_index := t\<rparr>)
   }"

definition index_lookup :: "(nat \<Rightarrow> spy_file_index_entry list) \<Rightarrow> u64 \<Rightarrow> spy_file_index_entry option" where
  "index_lookup t fid = find (\<lambda>tmp. e_fid tmp = fid) (t (file_bucket fid))"

text \<open>The entry found and the bucket.\<close>

definition spy_lookup_file_index :: "u64 \<Rightarrow> spy_store \<Rightarrow> spy_file_index_entry option \<times> nat" where
  "spy_lookup_file_index fid st = (index_lookup (file_index st) fid, file_bucket fid)"

text \<open>The walk over a bucket of \<open>chunk_index\<close> in \<open>spy_handle_read\<close> and \<open>spy_handle_check_disk\<close>.\<close>

definition lookup_chunk :: "u64 \<Rightarrow> spy_store \<Rightarrow> nat option" where
  "lookup_chunk cid st = find (\<lambda>ctmp. c_chunk_id (chunk_tab st ctmp) = cid) (chunk_index st (chunk_bucket cid))"

section \<open>The contract of an index\<close>

text \<open>What the handlers and the recovery rely on: a table of entries with unique keys.\<close>

fun add_all :: "('t \<Rightarrow> 'e \<Rightarrow> 't option) \<Rightarrow> 'e list \<Rightarrow> 't \<Rightarrow> 't option" where
  "add_all add [] t = Some t"
| "add_all add (e # es) t = do { t \<leftarrow> add t e; add_all add es t }"

locale unique_index =
  fixes ok :: "'t \<Rightarrow> bool"
    and key :: "'e \<Rightarrow> 'k"
    and lookup :: "'t \<Rightarrow> 'k \<Rightarrow> 'e option"
    and add :: "'t \<Rightarrow> 'e \<Rightarrow> 't option"
  assumes add_fresh: "ok t \<Longrightarrow> lookup t (key e) = None \<Longrightarrow> \<exists>t'. add t e = Some t' \<and> ok t'"
    and add_dup: "ok t \<Longrightarrow> lookup t (key e) \<noteq> None \<Longrightarrow> add t e = None"
    and lookup_add: "ok t \<Longrightarrow> add t e = Some t' \<Longrightarrow> lookup t' k = (if k = key e then Some e else lookup t k)"
    and lookup_key: "ok t \<Longrightarrow> lookup t k = Some e \<Longrightarrow> key e = k"
begin

lemma add_ok: "ok t \<Longrightarrow> add t e = Some t' \<Longrightarrow> ok t' \<and> lookup t (key e) = None"
  using add_fresh [of t e] add_dup [of t e] by (cases "lookup t (key e)") auto

text \<open>Adding a list of entries succeeds exactly when all keys are new and different; then the table has
  the old entries and these.\<close>

lemma add_all_lookup:
  "ok t \<Longrightarrow> distinct (map key es) \<Longrightarrow> \<forall>e\<in>set es. lookup t (key e) = None \<Longrightarrow>
   \<exists>t'. add_all add es t = Some t' \<and> ok t' \<and>
     (\<forall>k. lookup t' k = (case find (\<lambda>e. key e = k) es of None \<Rightarrow> lookup t k | Some e \<Rightarrow> Some e))"
proof (induction es arbitrary: t)
  case (Cons e es)
  obtain t1 where t1: "add t e = Some t1" "ok t1" using add_fresh [OF Cons.prems(1)] Cons.prems(3) by auto
  note l1 = lookup_add [OF Cons.prems(1) t1(1)]
  have "\<forall>x\<in>set es. lookup t1 (key x) = None" using Cons.prems(2, 3) l1 by (auto simp: image_iff)
  from Cons.IH [OF t1(2) _ this] Cons.prems(2) obtain t' where t': "add_all add es t1 = Some t'" "ok t'"
    "\<forall>k. lookup t' k = (case find (\<lambda>e. key e = k) es of None \<Rightarrow> lookup t1 k | Some e \<Rightarrow> Some e)" by auto
  have "find (\<lambda>x. key x = key e) es = None" using Cons.prems(2)
    by (auto simp: find_None_iff) (metis image_eqI)
  then have "lookup t' k = (case find (\<lambda>e. key e = k) (e # es) of None \<Rightarrow> lookup t k | Some e \<Rightarrow> Some e)" for k
    using t'(3) l1 by (cases "k = key e"; cases "find (\<lambda>e. key e = k) es") auto
  with t1 t' show ?case by auto
qed simp

lemma add_all_dup:
  assumes "ok t" and "\<not> (distinct (map key es) \<and> (\<forall>e\<in>set es. lookup t (key e) = None))"
  shows "add_all add es t = None"
  using assms
proof (induction es arbitrary: t)
  case (Cons e es)
  show ?case
  proof (cases "add t e")
    case (Some t1)
    note a = add_ok [OF Cons.prems(1) Some] and l1 = lookup_add [OF Cons.prems(1) Some]
    have "\<not> (distinct (map key es) \<and> (\<forall>x\<in>set es. lookup t1 (key x) = None))"
      using Cons.prems(2) a l1 by (auto split: if_splits)
    with Cons.IH [of t1] a Some show ?thesis by simp
  qed simp
qed simp

end

section \<open>Both tables satisfy it\<close>

definition index_ok :: "(nat \<Rightarrow> spy_file_index_entry list) \<Rightarrow> bool" where
  "index_ok t \<longleftrightarrow> (\<forall>b. distinct (map e_fid (t b)) \<and> (\<forall>e\<in>set (t b). file_bucket (e_fid e) = b))"

lemma index_lookup_Some: "index_lookup t k = Some e \<Longrightarrow> e_fid e = k"
  by (auto simp: index_lookup_def find_Some_iff)

lemma index_lookup_None: "index_lookup t k = None \<longleftrightarrow> (\<forall>e\<in>set (t (file_bucket k)). e_fid e \<noteq> k)"
  by (auto simp: index_lookup_def find_None_iff)

interpretation fi: unique_index index_ok e_fid index_lookup index_add
proof (unfold_locales, goal_cases)
  case (1 t e)
  then show ?case by (auto simp: index_ok_def index_add_def index_lookup_None Let_def)
next
  case (2 t e)
  then show ?case by (auto simp: index_add_def index_lookup_None Let_def)
next
  case (3 t e t' k)
  then show ?case by (auto simp: index_add_def index_lookup_def Let_def split: if_splits)
next
  case (4 t k e)
  then show ?case by (simp add: index_lookup_Some)
qed

lemma index_find:
  assumes "index_ok t" and "e \<in> set (t b)"
  shows "index_lookup t (e_fid e) = Some e"
proof -
  have b: "b = file_bucket (e_fid e)" "distinct (map e_fid (t b))" using assms by (auto simp: index_ok_def)
  then have "index_lookup t (e_fid e) \<noteq> None" using assms(2) by (auto simp: index_lookup_None)
  then obtain e' where e': "index_lookup t (e_fid e) = Some e'" by auto
  then have "e' \<in> set (t b)" "e_fid e' = e_fid e" by (auto simp: index_lookup_def find_Some_iff b(1))
  with b(2) assms(2) have "e' = e" by (simp add: distinct_map inj_on_def)
  with e' show ?thesis by simp
qed

text \<open>The chunk tables, for the walks that look a chunk up by its id.\<close>

definition chunks_ok :: "spy_store \<Rightarrow> bool" where
  "chunks_ok st \<longleftrightarrow>
     (\<forall>b. distinct (map (c_chunk_id \<circ> chunk_tab st) (chunk_index st b)) \<and>
       (\<forall>a\<in>set (chunk_index st b). a < next_chunk st \<and> chunk_bucket (c_chunk_id (chunk_tab st a)) = b)) \<and>
     distinct (chunks st @ writing_chunks st) \<and>
     (\<forall>a. a \<in> set (chunks st @ writing_chunks st) \<longleftrightarrow> (\<exists>b. a \<in> set (chunk_index st b))) \<and>
     n_chunks st = int (length (chunks st) + length (writing_chunks st))"

lemma lookup_chunk_Some:
  "lookup_chunk cid st = Some a \<Longrightarrow> a \<in> set (chunk_index st (chunk_bucket cid)) \<and> c_chunk_id (chunk_tab st a) = cid"
  by (auto simp: lookup_chunk_def find_Some_iff)

lemma lookup_chunk_None:
  "lookup_chunk cid st = None \<longleftrightarrow> (\<forall>a\<in>set (chunk_index st (chunk_bucket cid)). c_chunk_id (chunk_tab st a) \<noteq> cid)"
  by (auto simp: lookup_chunk_def find_None_iff)

text \<open>The tables at the start of the server.\<close>

definition empty_store :: spy_store where
  "empty_store = \<lparr>chunk_tab = (\<lambda>_. spy_alloc_chunk 0 0 0 [] 0), next_chunk = 0, chunks = [], writing_chunks = [],
     chunk_index = (\<lambda>_. []), file_index = (\<lambda>_. []), n_chunks = 0, max_chunk_id = 0\<rparr>"

lemma empty_store_ok: "chunks_ok empty_store" "index_ok (file_index empty_store)"
  by (simp_all add: chunks_ok_def index_ok_def empty_store_def)

lemma chunks_ok_index:
  assumes "chunks_ok st"
  shows "distinct (map (c_chunk_id \<circ> chunk_tab st) (chunk_index st b))"
    and "a \<in> set (chunk_index st b) \<Longrightarrow> a < next_chunk st \<and> chunk_bucket (c_chunk_id (chunk_tab st a)) = b"
    and "a \<in> set (chunks st) \<or> a \<in> set (writing_chunks st) \<longleftrightarrow> (\<exists>b. a \<in> set (chunk_index st b))"
  using assms by (auto simp: chunks_ok_def)

lemma add_chunk_ok:
  assumes "chunks_ok st" and "spy_add_chunk c st = Some st'"
  shows "chunks_ok st'" and "lookup_chunk (c_chunk_id c) st = None"
    and "lookup_chunk cid st' = (if cid = c_chunk_id c then Some (next_chunk st) else lookup_chunk cid st)"
    and "chunk_tab st' (next_chunk st) = c" and "file_index st' = file_index st" and "chunks st' = next_chunk st # chunks st"
proof -
  let ?a = "next_chunk st" and ?h = "chunk_bucket (c_chunk_id c)"
  have lt: "a < ?a" if "a \<in> set (chunk_index st b)" for a b using chunks_ok_index(2) [OF assms(1) that] by simp
  then have ne: "a \<noteq> ?a" if "a \<in> set (chunk_index st b)" for a b using that by blast
  have lists: "a < ?a" if "a \<in> set (chunks st) \<or> a \<in> set (writing_chunks st)" for a
    using that chunks_ok_index(3) [OF assms(1)] lt by blast
  have st': "st' = st\<lparr>chunk_tab := (chunk_tab st)(?a := c), next_chunk := ?a + 1, chunks := ?a # chunks st,
      chunk_index := (chunk_index st)(?h := ?a # chunk_index st ?h), n_chunks := n_chunks st + 1\<rparr>"
    and new: "\<forall>tmp\<in>set (chunk_index st ?h). c_chunk_id (chunk_tab st tmp) \<noteq> c_chunk_id c"
    using assms(2) ne by (auto simp: spy_add_chunk_def Let_def split: if_splits)
  show "lookup_chunk (c_chunk_id c) st = None" using new by (simp add: lookup_chunk_None)
  have same: "map (c_chunk_id \<circ> (chunk_tab st)(?a := c)) (chunk_index st b) = map (c_chunk_id \<circ> chunk_tab st) (chunk_index st b)" for b
    using ne by auto
  have d: "distinct (map (c_chunk_id \<circ> chunk_tab st') (chunk_index st' b))" for b
  proof (cases "b = ?h")
    case True
    then have "map (c_chunk_id \<circ> chunk_tab st') (chunk_index st' b) =
        c_chunk_id c # map (c_chunk_id \<circ> chunk_tab st) (chunk_index st ?h)"
      using same [of ?h] by (simp add: st' del: map_eq_conv)
    then show ?thesis using chunks_ok_index(1) [OF assms(1), of ?h] new by (auto simp del: map_eq_conv)
  next
    case False
    then have "map (c_chunk_id \<circ> chunk_tab st') (chunk_index st' b) = map (c_chunk_id \<circ> chunk_tab st) (chunk_index st b)"
      using same [of b] by (simp add: st' del: map_eq_conv)
    then show ?thesis using chunks_ok_index(1) [OF assms(1), of b] by (simp del: map_eq_conv)
  qed
  have w: "a < next_chunk st' \<and> chunk_bucket (c_chunk_id (chunk_tab st' a)) = b" if "a \<in> set (chunk_index st' b)" for a b
    using that chunks_ok_index(2) [OF assms(1), of a b] by (auto simp: st' split: if_splits)
  have l: "a \<in> set (chunks st' @ writing_chunks st') \<longleftrightarrow> (\<exists>b. a \<in> set (chunk_index st' b))" for a
  proof -
    have "a \<in> set (chunk_index st' b) \<longleftrightarrow> b = ?h \<and> a = ?a \<or> a \<in> set (chunk_index st b)" for b by (auto simp: st')
    then have "(\<exists>b. a \<in> set (chunk_index st' b)) \<longleftrightarrow> a = ?a \<or> (\<exists>b. a \<in> set (chunk_index st b))" by blast
    moreover have "a \<in> set (chunks st' @ writing_chunks st') \<longleftrightarrow> a = ?a \<or> a \<in> set (chunks st) \<or> a \<in> set (writing_chunks st)"
      by (simp add: st')
    ultimately show ?thesis using chunks_ok_index(3) [OF assms(1), of a] by blast
  qed
  have "distinct (chunks st' @ writing_chunks st')" "n_chunks st' = int (length (chunks st') + length (writing_chunks st'))"
    using assms(1) lists by (auto simp: st' chunks_ok_def)
  with d w l show "chunks_ok st'" unfolding chunks_ok_def by blast
  have "find (\<lambda>ctmp. c_chunk_id (((chunk_tab st)(?a := c)) ctmp) = cid) (chunk_index st b) =
      find (\<lambda>ctmp. c_chunk_id (chunk_tab st ctmp) = cid) (chunk_index st b)" for b
    using ne by (intro find_cong) auto
  then show "lookup_chunk cid st' = (if cid = c_chunk_id c then Some ?a else lookup_chunk cid st)"
    by (auto simp: lookup_chunk_def st')
  show "chunk_tab st' ?a = c" "file_index st' = file_index st" "chunks st' = ?a # chunks st" by (simp_all add: st')
qed

section \<open>Properties\<close>

text \<open>(C22) The file index is a map with unique keys: \<open>spy_add_file_index\<close> aborts exactly when the file id is
  already present; otherwise afterwards the lookup of this id finds the new entry, every other lookup
  gives what it gave before, and the chunk tables are untouched.\<close>

theorem file_index_is_map:
  assumes "index_ok (file_index st)"
  shows "(spy_add_file_index cid fid off sz st = None \<longleftrightarrow> fst (spy_lookup_file_index fid st) \<noteq> None) \<and>
    (\<forall>st'. spy_add_file_index cid fid off sz st = Some st' \<longrightarrow>
       index_ok (file_index st') \<and> st' = st\<lparr>file_index := file_index st'\<rparr> \<and>
       (\<forall>k. fst (spy_lookup_file_index k st') =
         (if k = fid then Some \<lparr>e_chunk_id = cid, e_fid = fid, e_offset = off, e_size = sz\<rparr>
          else fst (spy_lookup_file_index k st))))"
proof -
  let ?e = "\<lparr>e_chunk_id = cid, e_fid = fid, e_offset = off, e_size = sz\<rparr>"
  show ?thesis
  proof (cases "index_add (file_index st) ?e")
    case None
    then have "index_lookup (file_index st) fid \<noteq> None" using fi.add_fresh [OF assms, of ?e] by auto
    with None show ?thesis by (simp add: spy_add_file_index_def spy_lookup_file_index_def)
  next
    case (Some t)
    then show ?thesis
      using fi.add_ok [OF assms Some] fi.lookup_add [OF assms Some]
      by (simp add: spy_add_file_index_def spy_lookup_file_index_def)
  qed
qed

theorem file_index_is_map_witness:
  "index_ok (file_index empty_store) \<and>
   (\<exists>st. spy_add_file_index 1 5 55 40 empty_store = Some st \<and>
     fst (spy_lookup_file_index 5 st) = Some \<lparr>e_chunk_id = 1, e_fid = 5, e_offset = 55, e_size = 40\<rparr> \<and>
     fst (spy_lookup_file_index 6 st) = None)"
proof -
  note ok = empty_store_ok(2)
  have none: "fst (spy_lookup_file_index k empty_store) = None" for k
    by (simp add: spy_lookup_file_index_def index_lookup_def empty_store_def)
  note m = file_index_is_map [OF ok, of 1 5 55 40]
  obtain st where st: "spy_add_file_index 1 5 55 40 empty_store = Some st" using m none [of 5] by fastforce
  have "fst (spy_lookup_file_index 5 st) = Some \<lparr>e_chunk_id = 1, e_fid = 5, e_offset = 55, e_size = 40\<rparr>"
    "fst (spy_lookup_file_index 6 st) = None"
    using conjunct2 [OF m, rule_format, OF st] none by simp_all
  with ok st show ?thesis by blast
qed

end
