(* ===== verification/Spy_Recovery.thy ===== *)
theory Spy_Recovery
  imports Spy_Store Spy_Index
begin

text \<open>
  Restart: the incremental parser of \<^verbatim>\<open>spy_store.c\<close> that rebuilds the file index from a chunk file through
  one read buffer, and the set-up of a chunk. The parser's positions are C \<open>int\<close>s; \<open>nread\<close> is a
  \<open>size_t\<close>, so an error return of \<open>read\<close> is the largest 64-bit number.
\<close>

section \<open>The parser\<close>

record file_parser =
  p_fd :: nat
  p_fpos :: int
  p_chunk_id :: u64
  p_chunk_offset :: u64
  p_buf :: bytes
  p_buf_size :: int
  p_buf_pos :: int
  p_buf_left :: int

definition spy_alloc_file_parser :: "nat \<Rightarrow> spy_chunk \<Rightarrow> int \<Rightarrow> nat \<Rightarrow> file_parser" where
  "spy_alloc_file_parser fd chunk pos buffer_size =
     \<lparr>p_fd = fd, p_fpos = pos, p_chunk_id = c_chunk_id chunk, p_chunk_offset = current_offset chunk,
      p_buf = uninit buffer_size, p_buf_size = i32 (int buffer_size), p_buf_pos = 0, p_buf_left = 0\<rparr>"

text \<open>\<open>read(fd, buf + at, rsize)\<close> into the parser's buffer, with the result as a \<open>size_t\<close>.\<close>

definition parser_read :: "file_parser \<Rightarrow> int \<Rightarrow> int \<Rightarrow> os \<Rightarrow> (int \<times> file_parser \<times> os) option" where
  "parser_read p at rsize s =
     (if 0 \<le> at \<and> 0 \<le> rsize \<and> at + rsize \<le> p_buf_size p then
        (case sys_read s (p_fd p) (nat rsize) of
           (Fail e, s) \<Rightarrow> Some (2 ^ 64 - 1, p, s)
         | (Done bs, s) \<Rightarrow> Some (int (length bs), p\<lparr>p_buf := poke (nat at) bs (p_buf p)\<rparr>, s))
      else None)"

text \<open>\<open>fleft = parser->chunk_offset - parser->fpos\<close>, a 64-bit difference converted to \<open>int\<close>.\<close>

definition file_left :: "file_parser \<Rightarrow> int" where
  "file_left p = i32 (uint (p_chunk_offset p - of_int (p_fpos p)))"

text \<open>
  Lines 162 to 183: refill the buffer when less than a header is left. The flag tells that the function
  returned \<open>-1\<close>. \<open>nread < 0\<close> is never true, so an interrupted call is not repeated.
\<close>

definition parser_refill :: "file_parser \<Rightarrow> os \<Rightarrow> (bool \<times> file_parser \<times> os) option" where
  "parser_refill p s =
     (if p_buf_left p < int FILE_META_SIZE then do {
        let p = (if p_buf_left p > 0
          then p\<lparr>p_buf := poke 0 (slice (nat (p_buf_pos p)) (nat (p_buf_left p)) (p_buf p)) (p_buf p)\<rparr> else p);
        let p = p\<lparr>p_buf_pos := 0\<rparr>;
        let fleft = file_left p;
        if fleft \<le> 0 then Some (True, p, s)
        else do {
          let buf_free = p_buf_size p - p_buf_left p;
          let rsize = (if fleft < buf_free then fleft else buf_free);
          (nread, p, s) \<leftarrow> parser_read p (p_buf_left p) rsize s;
          if nread = 0 then Some (True, p, s)
          else Some (False, p\<lparr>p_buf_left := i32 (p_buf_left p + nread), p_fpos := i32 (p_fpos p + nread)\<rparr>, s)
        }
      } else Some (False, p, s))"

text \<open>Lines 213 to 238: skip the part of the body that is not in the buffer.\<close>

function parse_body_loop :: "int \<Rightarrow> file_parser \<Rightarrow> os \<Rightarrow> (bool \<times> file_parser \<times> os) option" where
  "parse_body_loop cur_fleft p s =
     (if cur_fleft > 0 then do {
        let fleft = file_left p;
        if fleft \<le> 0 then Some (True, p, s)
        else do {
          let rsize = (if fleft < p_buf_size p then fleft else p_buf_size p);
          (nread, p, s) \<leftarrow> parser_read p 0 rsize s;
          if nread \<le> 0 then Some (True, p, s)
          else do {
            let p = p\<lparr>p_fpos := i32 (p_fpos p + nread), p_buf_left := i32 nread\<rparr>;
            if cur_fleft > nread
            then parse_body_loop (cur_fleft - nread) (p\<lparr>p_buf_pos := 0, p_buf_left := 0\<rparr>) s
            else parse_body_loop 0 (p\<lparr>p_buf_pos := cur_fleft, p_buf_left := p_buf_left p - cur_fleft\<rparr>) s
          }
        }
      } else Some (False, p, s))"
  by pat_completeness auto
termination
  by (relation "measure (\<lambda>(cur_fleft, p, s). nat cur_fleft)") auto

declare parse_body_loop.simps [simp del]

text \<open>Returns \<open>0\<close> at the end, \<open>1\<close> after a file, \<open>-1\<close> on an error.\<close>

definition spy_parse_next_file ::
    "file_parser \<Rightarrow> spy_store \<Rightarrow> os \<Rightarrow> (int \<times> file_parser \<times> spy_store \<times> os) option" where
  "spy_parse_next_file p st s =
     (if p_chunk_offset p \<le> of_int (p_fpos p) \<and> p_buf_left p = 0 then Some (0, p, st, s)
      else do {
        (err, p, s) \<leftarrow> parser_refill p s;
        if err then Some (- 1, p, st, s)
        else if p_buf_left p < int FILE_META_SIZE then None
        else do {
          let h = drop (nat (p_buf_pos p)) (p_buf p);
          let fid = spy_mach_read_from_8 h;
          let sz = int (unat (spy_mach_read_from_4 (drop 10 h)));
          let p = p\<lparr>p_buf_pos := p_buf_pos p + int FILE_META_SIZE, p_buf_left := p_buf_left p - int FILE_META_SIZE\<rparr>;
          (err, p, s) \<leftarrow>
            (if p_buf_left p < sz then parse_body_loop (i32 (sz - p_buf_left p)) p s
             else Some (False, p\<lparr>p_buf_pos := p_buf_pos p + sz, p_buf_left := p_buf_left p - sz\<rparr>, s));
          if err then Some (- 1, p, st, s)
          else do {
            let foff = (of_int (p_fpos p) - of_int sz - of_nat FILE_META_SIZE - of_int (p_buf_left p) :: u64);
            st \<leftarrow> spy_add_file_index (p_chunk_id p) fid foff (of_int (sz + int FILE_META_SIZE)) st;
            Some (1, p, st, s)
          }
        }
      })"

text \<open>\<open>while (result = spy_parse_next_file(parser))\<close>: ends with the result \<open>0\<close> or \<open>-1\<close>.\<close>

partial_function (option) parse_all :: "file_parser \<Rightarrow> spy_store \<Rightarrow> os \<Rightarrow> (file_parser \<times> spy_store \<times> os) option" where
  "parse_all p st s = do {
     (result, p, st, s) \<leftarrow> spy_parse_next_file p st s;
     if result = 0 \<or> result < 0 then Some (p, st, s) else parse_all p st s
   }"

section \<open>Setting up a chunk\<close>

lemma sys_read_fail_measure: "sys_read s fd n = (Fail e, s') \<Longrightarrow> length (script s') < length (script s)"
  using sys_pread_measure [of s fd n "fpos s fd"] by (auto simp: sys_read_def split: prod.splits sysret.splits)

text \<open>
  \<open>fd\<close> is the descriptor \<open>open\<close> returned; a failed \<open>open\<close> makes the following \<open>fstat\<close> fail and aborts.
  \<open>junk\<close> are the contents of the uninitialised \<open>sb_buf\<close>, which a short read leaves in place. The first
  loop of the function would repeat an interrupted \<open>read\<close>; there \<open>nread\<close> is an \<open>int\<close>.
\<close>

function read_superblock :: "nat \<Rightarrow> os \<Rightarrow> bytes sysret \<times> os" where
  "read_superblock fd s =
     (case sys_read s fd SUPERBLOCK_SIZE of
        (Fail e, s) \<Rightarrow> if e = EINTR then read_superblock fd s else (Fail e, s)
      | (Done bs, s) \<Rightarrow> (Done bs, s))"
  by pat_completeness auto
termination
  by (relation "measure (\<lambda>(fd, s). length (script s))") (auto dest!: sys_read_fail_measure [OF sym])

declare read_superblock.simps [simp del]

definition spy_setup_chunk ::
    "u64 \<Rightarrow> bytes \<Rightarrow> nat \<Rightarrow> string \<Rightarrow> spy_store \<Rightarrow> os \<Rightarrow> (spy_store \<times> os) option" where
  "spy_setup_chunk config_chunk_size junk fd path st s = do {
     let chunk = spy_alloc_chunk config_chunk_size fd 0 path (of_nat (length (files s fd)));
     (case read_superblock fd s of
        (Fail e, s) \<Rightarrow> None
      | (Done bs, s) \<Rightarrow>
          if bs = [] then None
          else do {
            let sb_buf = bs @ drop (length bs) junk;
            (chunk, mx) \<leftarrow> spy_parse_chunk_superblock sb_buf chunk (max_chunk_id st);
            let st = st\<lparr>max_chunk_id := mx\<rparr>;
            let parser = spy_alloc_file_parser fd chunk (int SUPERBLOCK_SIZE) BUFFER_SIZE;
            (parser, st, s) \<leftarrow> parse_all parser st s;
            if of_int (p_fpos parser) < current_offset chunk then None
            else do {
              st \<leftarrow> spy_add_chunk chunk st;
              Some (st, s)
            }
          })
   }"

section \<open>The image of a chunk file\<close>

text \<open>A stored file: the record, its time stamp and its data.\<close>

type_synonym stored = "spy_file \<times> u64 \<times> bytes"

definition stored_ok :: "stored \<Rightarrow> bool" where
  "stored_ok = (\<lambda>(f, ts, data). unat (f_size f) = length data)"

definition stored_bytes :: "stored \<Rightarrow> bytes" where
  "stored_bytes = (\<lambda>(f, ts, data). file_record f ts data)"

definition stored_entry :: "u64 \<Rightarrow> nat \<Rightarrow> stored \<Rightarrow> spy_file_index_entry" where
  "stored_entry cid pos = (\<lambda>(f, ts, data).
     \<lparr>e_chunk_id = cid, e_fid = f_fid f, e_offset = of_nat pos, e_size = f_size f + 30\<rparr>)"

text \<open>The entries of consecutive records from a position on.\<close>

fun stored_entries :: "u64 \<Rightarrow> nat \<Rightarrow> stored list \<Rightarrow> spy_file_index_entry list" where
  "stored_entries cid pos [] = []"
| "stored_entries cid pos (r # rs) = stored_entry cid pos r # stored_entries cid (pos + length (stored_bytes r)) rs"

abbreviation stored_all :: "stored list \<Rightarrow> bytes" where
  "stored_all rs \<equiv> concat (map stored_bytes rs)"

text \<open>The superblock of a chunk state, then its records, then unused space.\<close>

definition chunk_image :: "spy_chunk \<Rightarrow> stored list \<Rightarrow> bytes \<Rightarrow> bool" where
  "chunk_image c rs f \<longleftrightarrow>
     take 55 f = sb_bytes c \<and> slice 55 (length (stored_all rs)) f = stored_all rs \<and>
     unat (current_offset c) = 55 + length (stored_all rs) \<and> 55 + length (stored_all rs) \<le> length f \<and>
     (\<forall>r\<in>set rs. stored_ok r)"

lemma length_stored_bytes: "length (stored_bytes r) = 30 + length (snd (snd r))"
  by (cases r) (simp add: stored_bytes_def)

text \<open>
  The parser invariant: the buffer holds the bytes of the file between the logical position \<open>pos\<close>, up to
  which everything is parsed, and the file position; \<open>fin\<close> is the end of the records.
\<close>

definition parser_base :: "bytes \<Rightarrow> nat \<Rightarrow> file_parser \<Rightarrow> os \<Rightarrow> bool" where
  "parser_base f fin p s \<longleftrightarrow>
     files s (p_fd p) = f \<and> script s = [] \<and> int (fpos s (p_fd p)) = p_fpos p \<and> p_fpos p \<le> int fin \<and>
     fin \<le> length f \<and> fin < 2 ^ 31 \<and> unat (p_chunk_offset p) = fin \<and>
     int (length (p_buf p)) = p_buf_size p \<and> p_buf_size p < 2 ^ 31 \<and> 30 \<le> p_buf_size p"

definition parser_ok :: "bytes \<Rightarrow> nat \<Rightarrow> nat \<Rightarrow> file_parser \<Rightarrow> os \<Rightarrow> bool" where
  "parser_ok f fin pos p s \<longleftrightarrow>
     parser_base f fin p s \<and> 0 \<le> p_buf_left p \<and> p_fpos p = int pos + p_buf_left p \<and>
     0 \<le> p_buf_pos p \<and> p_buf_pos p + p_buf_left p \<le> p_buf_size p \<and>
     slice (nat (p_buf_pos p)) (nat (p_buf_left p)) (p_buf p) = slice pos (nat (p_buf_left p)) f"

definition same_parser :: "file_parser \<Rightarrow> os \<Rightarrow> file_parser \<Rightarrow> os \<Rightarrow> bool" where
  "same_parser p s p' s' \<longleftrightarrow> p_fd p' = p_fd p \<and> p_chunk_id p' = p_chunk_id p \<and> files s' = files s"

lemma file_left_ok:
  assumes "parser_base f fin p s"
  shows "file_left p = int fin - p_fpos p"
proof -
  have r: "0 \<le> p_fpos p" "p_fpos p \<le> int fin" "fin < 2 ^ 31" "uint (p_chunk_offset p) = int fin"
    using assms by (auto simp: parser_base_def)
  have u: "uint (of_int (p_fpos p) :: u64) = p_fpos p"
    using r by (simp add: uint_word_of_int_eq take_bit_int_eq_self)
  then have "uint (p_chunk_offset p - of_int (p_fpos p)) = int fin - p_fpos p"
    using r by (subst uint_sub_lem [THEN iffD1]) simp_all
  then show ?thesis using r by (simp add: file_left_def i32_small)
qed

text \<open>Reading from the file with no interference.\<close>

lemma parser_read_ideal:
  assumes "parser_base f fin p s" and "at + n \<le> nat (p_buf_size p)" and "p_fpos p + int n \<le> int fin"
    and "p' = p\<lparr>p_buf := poke at (slice (nat (p_fpos p)) n f) (p_buf p)\<rparr>"
    and "s' = s\<lparr>fpos := (fpos s)(p_fd p := fpos s (p_fd p) + n)\<rparr>"
  shows "parser_read p (int at) (int n) s = Some (int n, p', s')"
    and "parser_base f fin (p'\<lparr>p_fpos := i32 (p_fpos p + int n)\<rparr>) s'" and "i32 (p_fpos p + int n) = p_fpos p + int n"
proof -
  have b: "files s (p_fd p) = f" "script s = []" "int (fpos s (p_fd p)) = p_fpos p" "fin \<le> length f" "fin < 2 ^ 31"
    using assms(1) by (auto simp: parser_base_def)
  have fp: "fpos s (p_fd p) = nat (p_fpos p)" using b(3) by linarith
  have l: "nat (p_fpos p) + n \<le> length f" using b(3, 4) assms(3) by linarith
  then have mn: "min n (length f - nat (p_fpos p)) = n" by simp
  have "sys_read s (p_fd p) n = (Done (slice (nat (p_fpos p)) n f), s')"
    using b(1, 2) fp assms(5) mn by (simp add: sys_read_def sys_pread_def next_resp_def grant_def)
  moreover have "int at + int n \<le> p_buf_size p" using assms(1, 2) by (auto simp: parser_base_def)
  ultimately show "parser_read p (int at) (int n) s = Some (int n, p', s')"
    using l assms(4) by (simp add: parser_read_def)
  show i: "i32 (p_fpos p + int n) = p_fpos p + int n"
  proof (rule i32_small)
    have "int fin < 2147483648" using b(5) by simp
    then show "- (2 ^ 31) \<le> p_fpos p + int n" "p_fpos p + int n < 2 ^ 31" using b(3) assms(3) by simp_all
  qed
  have "length (poke at (slice (nat (p_fpos p)) n f) (p_buf p)) = length (p_buf p)"
    using assms(1, 2) l by (intro length_poke) (auto simp: parser_base_def)
  then show "parser_base f fin (p'\<lparr>p_fpos := i32 (p_fpos p + int n)\<rparr>) s'"
    using assms b(3) i by (simp add: parser_base_def)
qed

lemma slice_poke_join:
  assumes "at \<le> length buf" and "slice 0 at buf = slice pos at f" and "at + n \<le> length buf" and "pos + at + n \<le> length f"
  shows "slice 0 (at + n) (poke at (slice (pos + at) n f) buf) = slice pos (at + n) f"
proof -
  have "slice 0 (at + n) (poke at (slice (pos + at) n f) buf) = slice 0 at buf @ slice (pos + at) n f"
    using assms(1, 4) by (simp add: slice_def poke_def)
  then show ?thesis using assms(2) slice_append_slice [of pos at f n] by simp
qed

text \<open>Refilling keeps the logical position and leaves a whole header in the buffer.\<close>

lemma refill_ok:
  assumes ok: "parser_ok f fin pos p s" and "pos + 30 \<le> fin"
  obtains p' s' where "parser_refill p s = Some (False, p', s')" "parser_ok f fin pos p' s'" "30 \<le> p_buf_left p'"
    "same_parser p s p' s'"
proof (cases "p_buf_left p < 30")
  case False
  with ok that show ?thesis by (simp add: parser_refill_def same_parser_def)
next
  case True
  have base: "parser_base f fin p s" and r: "0 \<le> p_buf_left p" "p_fpos p = int pos + p_buf_left p" "0 \<le> p_buf_pos p"
    "p_buf_pos p + p_buf_left p \<le> p_buf_size p"
    "slice (nat (p_buf_pos p)) (nat (p_buf_left p)) (p_buf p) = slice pos (nat (p_buf_left p)) f"
    using ok by (auto simp: parser_ok_def)
  define at where "at = nat (p_buf_left p)"
  have at: "int at = p_buf_left p" using r(1) by (simp add: at_def)
  define buf where "buf = (if p_buf_left p > 0 then poke 0 (slice (nat (p_buf_pos p)) at (p_buf p)) (p_buf p) else p_buf p)"
  define p1 where "p1 = p\<lparr>p_buf := buf, p_buf_pos := 0\<rparr>"
  have sz: "int (length (p_buf p)) = p_buf_size p" "30 \<le> p_buf_size p" "fin < 2 ^ 31" "p_buf_size p < 2 ^ 31" "fin \<le> length f"
    using base by (auto simp: parser_base_def)
  have lb: "length buf = length (p_buf p)" using r sz at by (auto simp: buf_def)
  have sl: "slice 0 at buf = slice pos at f"
  proof (cases "p_buf_left p > 0")
    case True
    let ?bs = "slice (nat (p_buf_pos p)) at (p_buf p)"
    have "length ?bs = at" using r(3, 4) sz(1) at by simp
    then show ?thesis using True slice_poke_same [of 0 ?bs "p_buf p"] r(5) sz(1) r(3, 4) at
      by (simp add: buf_def at_def [symmetric])
  next
    case False
    then have "at = 0" using r(1) by (simp add: at_def)
    then show ?thesis by (simp add: slice_def)
  qed
  have base1: "parser_base f fin p1 s" using base lb by (simp add: p1_def parser_base_def)
  define n where "n = nat (min (int fin - p_fpos p) (p_buf_size p - p_buf_left p))"
  have n: "0 < int fin - p_fpos p" "int n = (if int fin - p_fpos p < p_buf_size p - p_buf_left p
      then int fin - p_fpos p else p_buf_size p - p_buf_left p)" "0 < n"
    using r True assms(2) sz(2) by (auto simp: n_def)
  have b1: "at + n \<le> nat (p_buf_size p1)" "p_fpos p1 + int n \<le> int fin"
    using n(2) at r(1) sz by (auto simp: p1_def split: if_splits)
  define p2 where "p2 = p1\<lparr>p_buf := poke at (slice (nat (p_fpos p1)) n f) buf\<rparr>"
  define s' where "s' = s\<lparr>fpos := (fpos s)(p_fd p := fpos s (p_fd p) + n)\<rparr>"
  note rd = parser_read_ideal [OF base1 b1, of p2 s']
  have rd1: "parser_read p1 (int at) (int n) s = Some (int n, p2, s')"
    and base2: "parser_base f fin (p2\<lparr>p_fpos := i32 (p_fpos p + int n)\<rparr>) s'"
    and i: "i32 (p_fpos p + int n) = p_fpos p + int n"
    using rd by (simp_all add: p2_def s'_def p1_def)
  let ?p = "p2\<lparr>p_buf_left := i32 (p_buf_left p + int n), p_fpos := i32 (p_fpos p + int n)\<rparr>"
  have il: "i32 (p_buf_left p + int n) = int (at + n)"
    using at b1(1) sz by (subst i32_small) (auto simp: p1_def)
  have pp: "(if p_buf_left p > 0
      then p\<lparr>p_buf := poke 0 (slice (nat (p_buf_pos p)) (nat (p_buf_left p)) (p_buf p)) (p_buf p)\<rparr> else p)\<lparr>p_buf_pos := 0\<rparr> = p1"
    by (simp add: p1_def buf_def at_def)
  have f1: "p_buf_left p1 = p_buf_left p" "p_buf_size p1 = p_buf_size p" "file_left p1 = int fin - p_fpos p"
    "p_buf_left p2 = p_buf_left p" "p_fpos p2 = p_fpos p"
    using file_left_ok [OF base1] by (simp_all add: p1_def p2_def)
  have "parser_refill p s = Some (False, ?p, s')"
    unfolding parser_refill_def Let_def pp f1 n(2) [symmetric] using True n(1, 3) rd1 [unfolded at] f1 by simp
  moreover have "parser_ok f fin pos ?p s'"
  proof -
    have "slice 0 (at + n) (poke at (slice (pos + at) n f) buf) = slice pos (at + n) f"
      using sl lb b1 sz r(2) at by (intro slice_poke_join) (auto simp: p1_def)
    moreover have "nat (p_fpos p1) = pos + at" using r(2) at by (simp add: p1_def)
    ultimately have c: "slice 0 (at + n) (p_buf ?p) = slice pos (at + n) f" by (simp add: p2_def)
    have e: "p_buf_left ?p = int (at + n)" "p_buf_pos ?p = 0" "p_fpos ?p = int pos + int (at + n)" "p_buf_size ?p = p_buf_size p"
      using il i r(2) at by (simp_all add: p2_def p1_def)
    have "int (at + n) \<le> p_buf_size p" using b1(1) sz(2) by (simp add: p1_def)
    moreover have "parser_base f fin ?p s'" using base2 by (simp add: parser_base_def)
    ultimately show ?thesis unfolding parser_ok_def e nat_int using c by simp
  qed
  moreover have "30 \<le> p_buf_left ?p"
    using il n(2) at r(2) assms(2) sz(2) by (simp split: if_splits)
  ultimately show ?thesis using that [of ?p s'] by (simp add: same_parser_def p2_def p1_def s'_def)
qed

text \<open>Skipping a body ends with the logical position behind it.\<close>

lemma slice_slice: "c + k \<le> n \<Longrightarrow> slice c k (slice p n xs) = slice (p + c) k xs"
  by (simp add: slice_def drop_take drop_drop add.commute)

lemma slice_poke_within:
  "c + k \<le> length bs \<Longrightarrow> length bs \<le> length buf \<Longrightarrow> slice c k (poke 0 bs buf) = slice c k bs"
  by (simp add: slice_def poke_def)

lemma body_loop_ok:
  assumes "parser_base f fin p s" and "0 < cur" and "p_fpos p + int cur \<le> int fin"
  shows "\<exists>p' s'. parse_body_loop (int cur) p s = Some (False, p', s') \<and>
    parser_ok f fin (nat (p_fpos p) + cur) p' s' \<and> same_parser p s p' s'"
  using assms
proof (induction cur arbitrary: p s rule: less_induct)
  case (less cur)
  note base = less.prems(1)
  have sz: "int (length (p_buf p)) = p_buf_size p" "30 \<le> p_buf_size p" "p_buf_size p < 2 ^ 31" "fin \<le> length f"
    "0 \<le> p_fpos p" using base by (auto simp: parser_base_def)
  define n where "n = nat (min (int fin - p_fpos p) (p_buf_size p))"
  have n: "int n = (if int fin - p_fpos p < p_buf_size p then int fin - p_fpos p else p_buf_size p)" "0 < n"
    "p_fpos p + int n \<le> int fin" "int n \<le> p_buf_size p"
    using less.prems(2, 3) sz(2) by (auto simp: n_def)
  define p1 where "p1 = p\<lparr>p_buf := poke 0 (slice (nat (p_fpos p)) n f) (p_buf p)\<rparr>"
  define s1 where "s1 = s\<lparr>fpos := (fpos s)(p_fd p := fpos s (p_fd p) + n)\<rparr>"
  have rd: "parser_read p 0 (int n) s = Some (int n, p1, s1)"
    and base1: "parser_base f fin (p1\<lparr>p_fpos := i32 (p_fpos p + int n)\<rparr>) s1"
    and i: "i32 (p_fpos p + int n) = p_fpos p + int n"
    using parser_read_ideal [OF base _ n(3) p1_def s1_def] n(4) sz(2) by simp_all
  have il: "i32 (int n) = int n" using n(4) sz(3) by (intro i32_small) simp_all
  have "\<not> file_left p \<le> 0" using file_left_ok [OF base] less.prems(2, 3) by simp
  then have step: "parse_body_loop (int cur) p s =
      (if int cur > int n
       then parse_body_loop (int cur - int n) (p1\<lparr>p_fpos := p_fpos p + int n, p_buf_pos := 0, p_buf_left := 0\<rparr>) s1
       else parse_body_loop 0 (p1\<lparr>p_fpos := p_fpos p + int n, p_buf_pos := int cur, p_buf_left := int n - int cur\<rparr>) s1)"
    using less.prems(2) n(2) rd i il file_left_ok [OF base]
    by (simp add: parse_body_loop.simps [of "int cur"] Let_def n(1) [symmetric] p1_def)
  have base2: "parser_base f fin (p1\<lparr>p_fpos := p_fpos p + int n, p_buf_pos := a, p_buf_left := b\<rparr>) s1" for a b
    using base1 i by (simp add: parser_base_def)
  show ?case
  proof (cases "n < cur")
    case True
    let ?q = "p1\<lparr>p_fpos := p_fpos p + int n, p_buf_pos := 0, p_buf_left := 0\<rparr>"
    have h: "cur - n < cur" "0 < cur - n" "p_fpos ?q + int (cur - n) \<le> int fin"
      using True n(2) less.prems(3) by (simp_all add: of_nat_diff)
    obtain p' s' where IH: "parse_body_loop (int (cur - n)) ?q s1 = Some (False, p', s')"
      "parser_ok f fin (nat (p_fpos ?q) + (cur - n)) p' s'" "same_parser ?q s1 p' s'"
      using less.IH [OF h(1) base2 h(2, 3)] by blast
    have e: "nat (p_fpos ?q) + (cur - n) = nat (p_fpos p) + cur" using True sz(5) by simp
    have "int cur - int n = int (cur - n)" using True by simp
    then have "parse_body_loop (int cur) p s = Some (False, p', s')" using step True IH(1) by (simp only: if_True of_nat_less_iff)
    moreover have "same_parser p s p' s'" using IH(3) by (simp add: same_parser_def p1_def s1_def)
    ultimately show ?thesis using IH(2) [unfolded e] by blast
  next
    case False
    let ?p = "p1\<lparr>p_fpos := p_fpos p + int n, p_buf_pos := int cur, p_buf_left := int n - int cur\<rparr>"
    have l: "length (slice (nat (p_fpos p)) n f) = n" using n(3) sz(4, 5) by simp
    have "slice cur (n - cur) (p_buf ?p) = slice (nat (p_fpos p) + cur) (n - cur) f"
      using False n(4) sz(1) l slice_poke_within [of cur "n - cur" "slice (nat (p_fpos p)) n f" "p_buf p"]
      by (simp add: p1_def slice_slice)
    moreover have e: "p_buf_left ?p = int (n - cur)" "p_buf_pos ?p = int cur" "p_buf_size ?p = p_buf_size p"
      "p_fpos ?p = int (nat (p_fpos p) + cur) + int (n - cur)" "int cur + int (n - cur) = int n"
      using False sz(5) by (simp_all add: p1_def)
    ultimately have "parser_ok f fin (nat (p_fpos p) + cur) ?p s1"
      unfolding parser_ok_def e nat_int using base2 n(4) by simp
    then show ?thesis using step False by (simp add: parse_body_loop.simps [of 0] same_parser_def p1_def s1_def)
  qed
qed

section \<open>Parsing all records\<close>

lemma header_fields:
  assumes "take 30 h = meta_bytes fl"
  shows "spy_mach_read_from_8 h = f_fid fl" and "spy_mach_read_from_4 (drop 10 h) = f_size fl"
proof -
  have "read_file_meta h = fl" using read_file_meta_bytes [of fl "drop 30 h"] assms by (metis append_take_drop_id)
  then show "spy_mach_read_from_8 h = f_fid fl" "spy_mach_read_from_4 (drop 10 h) = f_size fl"
    by (auto simp: read_file_meta_def)
qed

text \<open>A parser with a whole header in its buffer.\<close>

lemma next_file_body:
  assumes ok: "parser_ok f fin pos p s" and "30 \<le> p_buf_left p" and "pos + 30 + n \<le> fin"
    and "p1 = p\<lparr>p_buf_pos := p_buf_pos p + 30, p_buf_left := p_buf_left p - 30\<rparr>"
  obtains p' s' where
    "(if p_buf_left p1 < int n then parse_body_loop (i32 (int n - p_buf_left p1)) p1 s
      else Some (False, p1\<lparr>p_buf_pos := p_buf_pos p1 + int n, p_buf_left := p_buf_left p1 - int n\<rparr>, s)) = Some (False, p', s')"
    "parser_ok f fin (pos + 30 + n) p' s'" "same_parser p s p' s'"
proof (cases "p_buf_left p1 < int n")
  case True
  have base1: "parser_base f fin p1 s" using ok assms(4) by (simp add: parser_ok_def parser_base_def)
  define cur where "cur = nat (int n - p_buf_left p1)"
  have fp: "p_fpos p = int pos + p_buf_left p" "fin < 2 ^ 31" using ok by (auto simp: parser_ok_def parser_base_def)
  have cur: "int cur = int n - p_buf_left p1" "0 < cur" "p_fpos p1 + int cur \<le> int fin"
    using True fp assms(2-4) by (simp_all add: cur_def)
  have "i32 (int n - p_buf_left p1) = int cur"
    using cur(1) fp(2) assms(2-4) by (subst i32_small) simp_all
  moreover have "nat (p_fpos p1) + cur = pos + 30 + n"
    using cur(1) fp(1) assms(2, 4) by simp
  ultimately show ?thesis
    using body_loop_ok [OF base1 cur(2, 3)] True that assms(4) by (auto simp: same_parser_def)
next
  case False
  let ?p = "p1\<lparr>p_buf_pos := p_buf_pos p1 + int n, p_buf_left := p_buf_left p1 - int n\<rparr>"
  have r: "0 \<le> p_buf_pos p" "p_buf_pos p + p_buf_left p \<le> p_buf_size p" "p_fpos p = int pos + p_buf_left p"
    "slice (nat (p_buf_pos p)) (nat (p_buf_left p)) (p_buf p) = slice pos (nat (p_buf_left p)) f"
    using ok by (auto simp: parser_ok_def)
  define k where "k = nat (p_buf_left p - 30 - int n)"
  have k: "p_buf_left ?p = int k" "nat (p_buf_left p) = 30 + n + k" "p_buf_pos ?p = int (nat (p_buf_pos p) + (30 + n))"
    "p_fpos ?p = int (pos + 30 + n) + int k" "p_buf_size ?p = p_buf_size p"
    using False assms(2, 4) r by (simp_all add: k_def nat_diff_distrib nat_add_distrib)
  have "slice (nat (p_buf_pos p) + (30 + n)) k (p_buf p) = slice (pos + (30 + n)) k f"
    using arg_cong [OF r(4), of "slice (30 + n) k"] k(2) by (simp add: slice_slice)
  moreover have "parser_base f fin ?p s" using ok assms(4) by (simp add: parser_ok_def parser_base_def)
  moreover have "int (nat (p_buf_pos p) + (30 + n)) + int k \<le> p_buf_size p"
    using k(2) r(1, 2) assms(2) by simp
  ultimately have "parser_ok f fin (pos + 30 + n) ?p s"
    unfolding parser_ok_def k nat_int using assms(4) by (simp add: add.assoc)
  then show ?thesis using False that [of ?p s] assms(4) by (simp add: same_parser_def)
qed

lemma next_file_ok:
  assumes ok: "parser_ok f fin pos p s" and r: "r = (fl, ts, data)" "stored_ok r"
    and sl: "slice pos (length (stored_bytes r)) f = stored_bytes r" and fin: "pos + length (stored_bytes r) \<le> fin"
  obtains p' s' where "parser_ok f fin (pos + length (stored_bytes r)) p' s'" "same_parser p s p' s'"
    "spy_parse_next_file p st s = do {
       st \<leftarrow> spy_add_file_index (p_chunk_id p) (f_fid fl) (of_nat pos) (f_size fl + 30) st;
       Some (1, p', st, s') }"
proof -
  have len: "length (stored_bytes r) = 30 + length data" "unat (f_size fl) = length data"
    using r by (simp_all add: stored_bytes_def stored_ok_def)
  have first: "\<not> (p_chunk_offset p \<le> of_int (p_fpos p) \<and> p_buf_left p = 0)"
  proof
    assume "p_chunk_offset p \<le> of_int (p_fpos p) \<and> p_buf_left p = 0"
    moreover from this have "p_fpos p = int pos" "fin < 2 ^ 31" "unat (p_chunk_offset p) = fin"
      using ok by (auto simp: parser_ok_def parser_base_def)
    ultimately show False using fin len(1) by (simp add: word_le_nat_alt unat_of_nat take_bit_nat_eq_self)
  qed
  obtain p1 s1 where p1: "parser_refill p s = Some (False, p1, s1)" "parser_ok f fin pos p1 s1" "30 \<le> p_buf_left p1"
    "same_parser p s p1 s1" using refill_ok [OF ok, of thesis] fin len(1) by auto
  let ?h = "drop (nat (p_buf_pos p1)) (p_buf p1)"
  have "slice (nat (p_buf_pos p1)) (nat (p_buf_left p1)) (p_buf p1) = slice pos (nat (p_buf_left p1)) f"
    using p1(2) by (simp add: parser_ok_def)
  from arg_cong [OF this, of "take 30"] have "slice (nat (p_buf_pos p1)) 30 (p_buf p1) = slice pos 30 f"
    using p1(3) by (simp add: take_slice)
  then have "take 30 ?h = slice pos 30 f" by (simp add: slice_def)
  also have "\<dots> = take 30 (stored_bytes r)" using sl len(1) take_slice [of 30 "length (stored_bytes r)" pos f] by simp
  also have "\<dots> = meta_bytes (fl\<lparr>f_checksum := adler_of data, f_timestamp := ts\<rparr>)"
    using r(1) by (simp add: stored_bytes_def file_record_def)
  finally have hm: "take 30 ?h = meta_bytes (fl\<lparr>f_checksum := adler_of data, f_timestamp := ts\<rparr>)" .
  have h: "spy_mach_read_from_8 ?h = f_fid fl" "spy_mach_read_from_4 (drop 10 ?h) = f_size fl"
    using header_fields [OF hm] by simp_all
  have l: "pos + 30 + length data \<le> fin" using fin len(1) by simp
  define p2 where "p2 = p1\<lparr>p_buf_pos := p_buf_pos p1 + 30, p_buf_left := p_buf_left p1 - 30\<rparr>"
  obtain p' s' where body: "(if p_buf_left p2 < int (length data) then parse_body_loop (i32 (int (length data) - p_buf_left p2)) p2 s1
      else Some (False, p2\<lparr>p_buf_pos := p_buf_pos p2 + int (length data), p_buf_left := p_buf_left p2 - int (length data)\<rparr>, s1)) =
      Some (False, p', s')"
    "parser_ok f fin (pos + 30 + length data) p' s'" "same_parser p1 s1 p' s'"
    by (rule next_file_body [OF p1(2, 3) l p2_def])
  have "p_fpos p' = int (pos + 30 + length data) + p_buf_left p'" using body(2) by (simp add: parser_ok_def)
  then have foff: "(of_int (p_fpos p') - of_int (int (length data)) - of_nat FILE_META_SIZE - of_int (p_buf_left p') :: u64) = of_nat pos"
    by simp
  have szw: "(of_int (int (length data) + int FILE_META_SIZE) :: u32) = f_size fl + 30" 
    unfolding len(2) [symmetric] by simp
  have cid: "p_chunk_id p' = p_chunk_id p" using p1(4) body(3) by (simp add: same_parser_def)
  have nb: "\<not> p_buf_left p1 < int FILE_META_SIZE" using p1(3) by simp
  have p2': "p1\<lparr>p_buf_pos := p_buf_pos p1 + int FILE_META_SIZE, p_buf_left := p_buf_left p1 - int FILE_META_SIZE\<rparr> = p2"
    by (simp add: p2_def)
  have "spy_parse_next_file p st s = do {
       st \<leftarrow> spy_add_file_index (p_chunk_id p) (f_fid fl) (of_nat pos) (f_size fl + 30) st;
       Some (1, p', st, s') }"
    by (simp only: spy_parse_next_file_def Let_def first nb p1(1) h len(2) p2' body(1) foff szw cid if_False
        Option.bind.simps prod.case)
  moreover have "same_parser p s p' s'" using p1(4) body(3) by (simp add: same_parser_def)
  ultimately show ?thesis using that body(2) len(1) by (simp add: add.assoc)
qed

lemma next_file_end:
  assumes "parser_ok f fin fin p s"
  shows "spy_parse_next_file p st s = Some (0, p, st, s)"
proof -
  have "p_buf_left p = 0" "p_fpos p = int fin" "unat (p_chunk_offset p) = fin"
    using assms by (auto simp: parser_ok_def parser_base_def)
  then show ?thesis by (auto simp: spy_parse_next_file_def)
qed

text \<open>The whole loop adds one entry per record, in order; it stops early only when an id is already known.\<close>

lemma parse_all_ok:
  assumes "parser_ok f fin pos p s" and "slice pos (length (stored_all rs)) f = stored_all rs"
    and "fin = pos + length (stored_all rs)" and "\<forall>r\<in>set rs. stored_ok r"
  shows "\<exists>p' s'. parser_ok f fin fin p' s' \<and> same_parser p s p' s' \<and>
    parse_all p st s = do {
      t \<leftarrow> add_all index_add (stored_entries (p_chunk_id p) pos rs) (file_index st);
      Some (p', st\<lparr>file_index := t\<rparr>, s') }"
  using assms
proof (induction rs arbitrary: pos p st s)
  case Nil
  then have "parser_ok f fin fin p s" by simp
  then show ?case
    using next_file_end [of f fin p s st] by (intro exI [of _ p] exI [of _ s]) (simp add: parse_all.simps same_parser_def)
next
  case (Cons r rs)
  obtain fl ts data where r: "r = (fl, ts, data)" by (cases r)
  let ?n = "length (stored_bytes r)"
  have sl: "slice pos ?n f = stored_bytes r" "slice (pos + ?n) (length (stored_all rs)) f = stored_all rs"
  proof -
    have "slice pos ?n f @ slice (pos + ?n) (length (stored_all rs)) f = stored_bytes r @ stored_all rs"
      using Cons.prems(2) by (simp add: slice_append_slice)
    moreover have "length (slice pos ?n f) = ?n"
      using arg_cong [OF Cons.prems(2), of length] by simp
    ultimately show "slice pos ?n f = stored_bytes r" "slice (pos + ?n) (length (stored_all rs)) f = stored_all rs" by simp_all
  qed
  have fin: "pos + ?n \<le> fin" using Cons.prems(3) by simp
  obtain p1 s1 where p1: "parser_ok f fin (pos + ?n) p1 s1" "same_parser p s p1 s1"
    "spy_parse_next_file p st s = do {
       st \<leftarrow> spy_add_file_index (p_chunk_id p) (f_fid fl) (of_nat pos) (f_size fl + 30) st;
       Some (1, p1, st, s1) }"
    by (rule next_file_ok [OF Cons.prems(1) r _ sl(1) fin]) (use Cons.prems(4) in auto)
  let ?e = "stored_entry (p_chunk_id p) pos r"
  show ?case
  proof (cases "index_add (file_index st) ?e")
    case None
    obtain p' s' where q: "parser_ok f fin fin p' s'" "same_parser p1 s1 p' s'"
      using Cons.IH [OF p1(1) sl(2)] Cons.prems(3, 4) by fastforce
    have "parse_all p st s = None"
      using None p1(3) r by (simp add: parse_all.simps [of p] spy_add_file_index_def stored_entry_def)
    then show ?thesis using q p1(2) None by (intro exI [of _ p'] exI [of _ s']) (simp add: same_parser_def)
  next
    case (Some t)
    obtain p' s' where q: "parser_ok f fin fin p' s'" "same_parser p1 s1 p' s'"
      "parse_all p1 (st\<lparr>file_index := t\<rparr>) s1 = do {
        t \<leftarrow> add_all index_add (stored_entries (p_chunk_id p1) (pos + ?n) rs) t;
        Some (p', st\<lparr>file_index := t\<rparr>, s') }"
      using Cons.IH [OF p1(1) sl(2), of "st\<lparr>file_index := t\<rparr>"] Cons.prems(3, 4) by fastforce
    have "parse_all p st s = parse_all p1 (st\<lparr>file_index := t\<rparr>) s1"
      using Some p1(3) r by (simp add: parse_all.simps [of p] spy_add_file_index_def stored_entry_def)
    then show ?thesis
      using q p1(2) Some by (intro exI [of _ p'] exI [of _ s']) (simp add: same_parser_def)
  qed
qed

lemma setup_chunk_ok:
  assumes img: "chunk_image c rs (files s fd)" and "script s = []" and "fpos s fd = 0"
    and small: "unat (current_offset c) < 2 ^ 31" and junk: "length junk = SUPERBLOCK_SIZE"
  obtains s' where "files s' = files s" "script s' = []"
    "spy_setup_chunk cs junk fd path st s = do {
       t \<leftarrow> add_all index_add (stored_entries (c_chunk_id c) 55 rs) (file_index st);
       st \<leftarrow> spy_add_chunk (c\<lparr>c_fd := fd, c_path := path, file_size := ucast (of_nat (length (files s fd)) :: u32)\<rparr>)
         (st\<lparr>max_chunk_id := max (max_chunk_id st) (c_chunk_id c), file_index := t\<rparr>);
       Some (st, s') }"
proof -
  let ?f = "files s fd" and ?fin = "55 + length (stored_all rs)"
  have im: "take 55 ?f = sb_bytes c" "slice 55 (length (stored_all rs)) ?f = stored_all rs" "unat (current_offset c) = ?fin"
    "?fin \<le> length ?f" "\<forall>r\<in>set rs. stored_ok r" using img by (auto simp: chunk_image_def)
  define s1 where "s1 = s\<lparr>fpos := (fpos s)(fd := 55)\<rparr>"
  have mn: "min 55 (length ?f) = 55" using im(4) by simp
  have "sys_read s fd 55 = (Done (sb_bytes c), s1)"
    using assms(2, 3) im(1) mn by (simp add: sys_read_def sys_pread_def next_resp_def grant_def s1_def slice_def)
  then have rs: "read_superblock fd s = (Done (sb_bytes c), s1)" by (simp add: read_superblock.simps)
  define c' where "c' = c\<lparr>c_fd := fd, c_path := path, file_size := ucast (of_nat (length ?f) :: u32)\<rparr>"
  have ch: "(spy_alloc_chunk cs fd 0 path (of_nat (length ?f)))\<lparr>c_chunk_id := c_chunk_id c, files_alloc := files_alloc c,
      files_count := files_count c, current_offset := current_offset c, avail_space := avail_space c\<rparr> = c'"
    by (simp add: spy_alloc_chunk_def c'_def)
  have ps: "spy_parse_chunk_superblock (sb_bytes c) (spy_alloc_chunk cs fd 0 path (of_nat (length ?f))) (max_chunk_id st) =
      Some (c', max (max_chunk_id st) (c_chunk_id c))" by (simp only: parse_superblock_bytes ch)
  define p where "p = spy_alloc_file_parser fd c' 55 BUFFER_SIZE"
  have bs: "i32 (int BUFFER_SIZE) = int BUFFER_SIZE" by (rule i32_small) (simp_all add: BUFFER_SIZE_def)
  have "parser_ok ?f ?fin 55 p s1"
    using assms(2) im bs small
    by (simp add: parser_ok_def parser_base_def p_def spy_alloc_file_parser_def s1_def c'_def uninit_def slice_def)
      (simp add: BUFFER_SIZE_def)
  from parse_all_ok [OF this im(2) refl im(5), of "st\<lparr>max_chunk_id := max (max_chunk_id st) (c_chunk_id c)\<rparr>"]
  obtain p' s' where pa: "parser_ok ?f ?fin ?fin p' s'" "same_parser p s1 p' s'"
    "parse_all p (st\<lparr>max_chunk_id := max (max_chunk_id st) (c_chunk_id c)\<rparr>) s1 = do {
      t \<leftarrow> add_all index_add (stored_entries (p_chunk_id p) 55 rs) (file_index st);
      Some (p', st\<lparr>max_chunk_id := max (max_chunk_id st) (c_chunk_id c), file_index := t\<rparr>, s') }"
    by auto
  have "p_fpos p' = int ?fin" using pa(1) by (simp add: parser_ok_def parser_base_def)
  moreover have "current_offset c' = of_nat ?fin" unfolding im(3) [symmetric] by (simp add: c'_def)
  ultimately have fin: "\<not> of_int (p_fpos p') < current_offset c'" by simp
  have "p_chunk_id p = c_chunk_id c" by (simp add: p_def spy_alloc_file_parser_def c'_def)
  moreover have sb: "sb_bytes c \<noteq> []" using length_sb_bytes [of c] by force
  ultimately have "spy_setup_chunk cs junk fd path st s = do {
       t \<leftarrow> add_all index_add (stored_entries (c_chunk_id c) 55 rs) (file_index st);
       st \<leftarrow> spy_add_chunk c' (st\<lparr>max_chunk_id := max (max_chunk_id st) (c_chunk_id c), file_index := t\<rparr>);
       Some (st, s') }"
    using rs pa(3) fin junk by (simp add: spy_setup_chunk_def Let_def ps p_def)
  moreover have "files s' = files s" "script s' = []"
    using pa(1, 2) by (simp_all add: same_parser_def s1_def parser_ok_def parser_base_def)
  ultimately show ?thesis using that unfolding c'_def by blast
qed

section \<open>The image is kept by writing\<close>

lemma stored_all_snoc [simp]: "stored_all (rs @ [r]) = stored_all rs @ stored_bytes r"
  by simp

text \<open>A write behind the records.\<close>

lemma image_behind:
  assumes "chunk_image c rs f" and "unat (current_offset c) \<le> off"
  shows "chunk_image c rs (pwrite_at off bs f)"
  using assms by (auto simp: chunk_image_def take_pwrite_before slice_pwrite_before)

lemma image_append:
  assumes img: "chunk_image c rs f" and d: "length data = unat sz" "f_size fl = sz" "unat sz < 2 ^ 31"
    and b: "unat (current_offset c) + 30 + unat sz < 2 ^ 64"
  shows "chunk_image (chunk_after c sz) (rs @ [(fl, ts, data)])
    (pwrite_at 0 (sb_bytes (chunk_after c sz)) (pwrite_at (unat (current_offset c)) (file_record fl ts data) f))"
proof -
  let ?o = "unat (current_offset c)" and ?c = "chunk_after c sz" and ?r = "file_record fl ts data"
  let ?g = "pwrite_at ?o ?r f" and ?n = "length (stored_all rs)"
  have im: "slice 55 ?n f = stored_all rs" "?o = 55 + ?n" "55 + ?n \<le> length f" "\<forall>r\<in>set rs. stored_ok r"
    using img by (auto simp: chunk_image_def)
  have "slice 55 ?n ?g = stored_all rs" using im(1-3) slice_pwrite_before [of 55 ?n ?o f ?r] by simp
  moreover have "slice (55 + ?n) (length ?r) ?g = ?r" using slice_pwrite_same [of ?o ?r f] im(2) by simp
  ultimately have "slice 55 (?n + length ?r) ?g = stored_all rs @ ?r"
    using slice_append_slice [of 55 ?n ?g "length ?r"] by simp
  moreover have "take 55 (pwrite_at 0 (sb_bytes ?c) ?g) = sb_bytes ?c"
    using slice_pwrite_same [of 0 "sb_bytes ?c" ?g] by (simp add: slice_def)
  moreover have "slice 55 k (pwrite_at 0 (sb_bytes ?c) ?g) = slice 55 k ?g" for k
    by (rule slice_pwrite_after) simp
  moreover have "unat (current_offset ?c) = ?o + 30 + unat sz" by (rule chunk_after_offset [OF d(3) b])
  moreover have "stored_bytes (fl, ts, data) = ?r" "length ?r = 30 + unat sz" using d(1) by (simp_all add: stored_bytes_def)
  moreover have "stored_ok (fl, ts, data)" using d by (simp add: stored_ok_def)
  ultimately show ?thesis using im by (simp add: chunk_image_def)
qed

section \<open>The tables after a recovery\<close>

lemma store_frame [simp]:
  "chunks_ok (st\<lparr>max_chunk_id := x, file_index := t\<rparr>) = chunks_ok st"
  "lookup_chunk cid (st\<lparr>max_chunk_id := x, file_index := t\<rparr>) = lookup_chunk cid st"
  by (simp_all add: chunks_ok_def lookup_chunk_def)

lemma add_chunk_fresh:
  assumes "chunks_ok st" and "lookup_chunk (c_chunk_id c) st = None"
  obtains st' where "spy_add_chunk c st = Some st'" "max_chunk_id st' = max_chunk_id st"
    "\<forall>b. b \<noteq> next_chunk st \<longrightarrow> chunk_tab st' b = chunk_tab st b" "writing_chunks st' = writing_chunks st"
proof -
  have "a \<noteq> next_chunk st" if "a \<in> set (chunk_index st b)" for a b
    using chunks_ok_index(2) [OF assms(1) that] by simp
  then have "\<forall>a\<in>set (chunk_index st (chunk_bucket (c_chunk_id c))).
      c_chunk_id (((chunk_tab st)(next_chunk st := c)) a) \<noteq> c_chunk_id c"
    using assms(2) by (auto simp: lookup_chunk_None)
  then show ?thesis using that by (simp add: spy_add_chunk_def Let_def)
qed

lemma fids_stored_entries: "map e_fid (stored_entries cid pos rs) = map (f_fid \<circ> fst) rs"
  by (induction rs arbitrary: pos) (auto simp: stored_entry_def)

lemma fids_stored_all:
  "(\<forall>e\<in>set (stored_entries cid pos rs). index_lookup t (e_fid e) = None) \<longleftrightarrow>
   (\<forall>r\<in>set rs. index_lookup t (f_fid (fst r)) = None)"
  by (induction rs arbitrary: pos) (auto simp: stored_entry_def)

lemma recover_chunk:
  assumes "chunk_image c rs (files s fd)" and "script s = []" and "fpos s fd = 0"
    and "unat (current_offset c) < 2 ^ 31" and "length junk = SUPERBLOCK_SIZE"
    and ok: "index_ok (file_index st)" "chunks_ok st" and "lookup_chunk (c_chunk_id c) st = None"
    and fids: "distinct (map (f_fid \<circ> fst) rs)" "\<forall>r\<in>set rs. index_lookup (file_index st) (f_fid (fst r)) = None"
  obtains st' s' a where "spy_setup_chunk cs junk fd path st s = Some (st', s')" "files s' = files s" "script s' = []"
    "index_ok (file_index st')" "chunks_ok st'" "max_chunk_id st' = max (max_chunk_id st) (c_chunk_id c)"
    "\<And>k. index_lookup (file_index st') k =
       (case find (\<lambda>e. e_fid e = k) (stored_entries (c_chunk_id c) 55 rs) of
          None \<Rightarrow> index_lookup (file_index st) k | Some e \<Rightarrow> Some e)"
    "\<And>cid. lookup_chunk cid st' = (if cid = c_chunk_id c then Some a else lookup_chunk cid st)"
    "chunk_tab st' a = c\<lparr>c_fd := fd, c_path := path, file_size := ucast (of_nat (length (files s fd)) :: u32)\<rparr>"
    "chunks st' = a # chunks st" "writing_chunks st' = writing_chunks st"
    "\<And>cid. map_option (chunk_tab st') (lookup_chunk cid st') = (if cid = c_chunk_id c
       then Some (c\<lparr>c_fd := fd, c_path := path, file_size := ucast (of_nat (length (files s fd)) :: u32)\<rparr>)
       else map_option (chunk_tab st) (lookup_chunk cid st))"
proof -
  let ?c = "c\<lparr>c_fd := fd, c_path := path, file_size := ucast (of_nat (length (files s fd)) :: u32)\<rparr>"
  obtain s' where s': "files s' = files s" "script s' = []" "spy_setup_chunk cs junk fd path st s = do {
       t \<leftarrow> add_all index_add (stored_entries (c_chunk_id c) 55 rs) (file_index st);
       st \<leftarrow> spy_add_chunk ?c (st\<lparr>max_chunk_id := max (max_chunk_id st) (c_chunk_id c), file_index := t\<rparr>);
       Some (st, s') }"
    by (rule setup_chunk_ok [OF assms(1-5)])
  obtain t where t: "add_all index_add (stored_entries (c_chunk_id c) 55 rs) (file_index st) = Some t" "index_ok t"
    "\<forall>k. index_lookup t k = (case find (\<lambda>e. e_fid e = k) (stored_entries (c_chunk_id c) 55 rs) of
        None \<Rightarrow> index_lookup (file_index st) k | Some e \<Rightarrow> Some e)"
    using fi.add_all_lookup [OF ok(1), of "stored_entries (c_chunk_id c) 55 rs", unfolded fids_stored_entries fids_stored_all, OF fids]
    by blast
  let ?st = "st\<lparr>max_chunk_id := max (max_chunk_id st) (c_chunk_id c), file_index := t\<rparr>"
  have ok': "chunks_ok ?st" "lookup_chunk (c_chunk_id ?c) ?st = None" using ok(2) assms(8) by simp_all
  obtain st' where st': "spy_add_chunk ?c ?st = Some st'" "max_chunk_id st' = max_chunk_id ?st"
    "\<forall>b. b \<noteq> next_chunk ?st \<longrightarrow> chunk_tab st' b = chunk_tab ?st b" "writing_chunks st' = writing_chunks ?st"
    by (rule add_chunk_fresh [OF ok'])
  note a = add_chunk_ok [OF ok'(1) st'(1)]
  have old: "b \<noteq> next_chunk st" if "lookup_chunk cid st = Some b" for cid b
    using chunks_ok_index(2) [OF ok(2)] lookup_chunk_Some [OF that] by blast
  show ?thesis
  proof (rule that [of st' s' "next_chunk st"])
    show "map_option (chunk_tab st') (lookup_chunk cid st') = (if cid = c_chunk_id c then Some ?c
        else map_option (chunk_tab st) (lookup_chunk cid st))" for cid
      using a(3, 4) st'(3) old [of cid] by (cases "lookup_chunk cid st") auto
  qed (use s' t st' a in auto)
qed

section \<open>Properties\<close>

lemma pwrite_start: "pwrite_at 0 bs f = bs @ drop (length bs) f"
  by (simp add: pwrite_at_def)

text \<open>What a superblock write leaves that stopped after \<open>w\<close> bytes, when a record was appended before.\<close>

lemma image_torn:
  assumes "chunk_image c rs f" "length data = unat sz" "f_size fl = sz" "unat sz < 2 ^ 31"
    and "unat (current_offset c) + 30 + unat sz < 2 ^ 64" "w \<le> 55"
    and "g = pwrite_at 0 (take w (sb_bytes (chunk_after c sz))) (pwrite_at (unat (current_offset c)) (file_record fl ts data) f)"
  shows "take 55 g = take w (sb_bytes (chunk_after c sz)) @ drop w (sb_bytes c)"
    and "chunk_image (chunk_after c sz) (rs @ [(fl, ts, data)]) (sb_bytes (chunk_after c sz) @ drop 55 g)"
proof -
  let ?c = "chunk_after c sz"
  define h where "h = pwrite_at (unat (current_offset c)) (file_record fl ts data) f"
  have "take 55 f = sb_bytes c" "55 \<le> unat (current_offset c)" "55 \<le> length f" using assms(1) by (auto simp: chunk_image_def)
  then have h: "take 55 h = sb_bytes c" by (simp add: h_def take_pwrite_before)
  have g: "g = take w (sb_bytes ?c) @ drop w h" using assms(6,7) by (simp add: h_def pwrite_start)
  have "take (55 - w) (drop w h) = drop w (sb_bytes c)" using arg_cong [OF h, of "drop w"] by (simp add: drop_take)
  then show "take 55 g = take w (sb_bytes ?c) @ drop w (sb_bytes c)" using assms(6) by (simp add: g)
  have "sb_bytes ?c @ drop 55 g = pwrite_at 0 (sb_bytes ?c) h" using assms(6) by (simp add: g pwrite_start)
  then show "chunk_image ?c (rs @ [(fl, ts, data)]) (sb_bytes ?c @ drop 55 g)" using image_append [OF assms(1-5)] by (simp add: h_def)
qed

text \<open>(C3) What \<open>spy_write_file\<close> at the chunk's write offset leaves of a chunk file, for every sequence of short writes and
  errors of the disk. Either it fails, and the file is the image of the same chunk and records as before; or it reports
  success, and behind the superblock the file holds the old records and the new one, while the superblock is that of the
  advanced chunk in its first \<open>w\<close> bytes and the old one in the others. Without a hard error it succeeds, the superblock is
  written whole and the file is the image of the advanced chunk; with one the report of success may come with a broken
  superblock.\<close>

theorem write_keeps_image:
  assumes "chunk_image chunk rs (files s (c_fd chunk))" and "job_arg io_job = JobOffset (current_offset chunk)"
    and "rwb_ok m (request conn)" and "job_file io_job = f"
    and "unat (f_size f) \<le> length (unread m (request conn))" and "unat (f_size f) < 2 ^ 31"
    and "unat (current_offset chunk) + 30 + unat (f_size f) < 2 ^ 64"
    and "data = take (unat (f_size f)) (unread m (request conn))"
  shows "\<exists>io_job' conn' chunk' s'. spy_write_file sync io_job conn chunk m s = Some (io_job', conn', chunk', s') \<and>
    (retcode io_job' = - 1 \<and> chunk' = chunk \<and> chunk_image chunk rs (files s' (c_fd chunk)) \<or>
     retcode io_job' = 0 \<and> chunk' = chunk_after chunk (f_size f) \<and>
       (\<exists>w\<le>55. take 55 (files s' (c_fd chunk)) = take w (sb_bytes chunk') @ drop w (sb_bytes chunk)) \<and>
       chunk_image chunk' (rs @ [(f, clock s, data)]) (sb_bytes chunk' @ drop 55 (files s' (c_fd chunk)))) \<and>
    (soft (script s) \<longrightarrow> retcode io_job' = 0 \<and> c_fd chunk' = c_fd chunk \<and>
       chunk_image chunk' (rs @ [(f, clock s, data)]) (files s' (c_fd chunk)))"
proof -
  let ?fd = "c_fd chunk" and ?c = "chunk_after chunk (f_size f)" and ?r = "file_record f (clock s) data"
  have ne: "?r \<noteq> []" using length_file_record [of f "clock s" data] by force
  note hyps = assms(2, 3) assms(5-7) [folded assms(4)] assms(8) [folded assms(4)]
  show ?thesis
  proof (cases rule: write_file_ok [OF hyps, of sync chunk s, unfolded assms(4)])
    case (1 req' s1 s' w)
    have len: "length data = unat (f_size f)" using assms(5, 8) by simp
    have f': "files s' ?fd = pwrite_at 0 (take w (sb_bytes ?c)) (pwrite_at (unat (current_offset chunk)) ?r (files s ?fd))"
      using os_frame_simps [OF 1(5)] os_frame_simps [OF 1(7)] ne pwrite_start [of "[]"] by (simp add: fwrote_def split: if_splits)
    note t = image_torn [OF assms(1) len refl assms(6, 7) 1(6) f']
    have "chunk_image ?c (rs @ [(f, clock s, data)]) (files s' ?fd)" if "soft (script s)"
      using that 1(8) f' image_append [OF assms(1) len refl assms(6, 7)] by simp
    then show ?thesis using 1(1, 6) t by (auto simp: chunk_after_def)
  next
    case (2 req' s' w)
    have "chunk_image chunk rs (files s' ?fd)"
      using os_frame_simps [OF 2(6)] image_behind [OF assms(1)] assms(1) by (simp add: fwrote_def)
    then show ?thesis using 2(1, 4) by simp
  qed
qed

text \<open>A chunk file with an empty chunk, and with one stored file.\<close>

definition demo_chunk0 :: spy_chunk where
  "demo_chunk0 = demo_chunk\<lparr>current_offset := 55, files_alloc := 0, files_count := 0\<rparr>"

definition demo_disk :: "sysresp list \<Rightarrow> os" where
  "demo_disk rs = \<lparr>files = (\<lambda>_. sb_bytes demo_chunk0 @ replicate 100 0), fpos = (\<lambda>_. 0), script = rs, clock = 1000\<rparr>"

lemma demo_image: "chunk_image demo_chunk0 [] (files (demo_disk rs) fd)"
  by (simp add: chunk_image_def demo_disk_def demo_chunk0_def)

lemma demo_offset [simp]: "current_offset demo_chunk0 = 55" "c_fd demo_chunk0 = 3" "c_chunk_id demo_chunk0 = 7"
  by (simp_all add: demo_chunk0_def demo_chunk_def)

theorem write_keeps_image_witness:
  "\<exists>io_job' conn' chunk' s'. spy_write_file True (demo_job\<lparr>job_arg := JobOffset 55\<rparr>) demo_conn demo_chunk0 demo_mem2
      (demo_disk [SysErr EINTR, SysN 4]) = Some (io_job', conn', chunk', s') \<and> retcode io_job' = 0 \<and>
    chunk_image chunk' [(job_file demo_job, 1000, take 3 (unread demo_mem2 (request demo_conn)))] (files s' 3)"
  using write_keeps_image [OF demo_image, of "demo_job\<lparr>job_arg := JobOffset 55\<rparr>" demo_mem2 demo_conn "job_file demo_job"
      "take 3 (unread demo_mem2 (request demo_conn))" True "[SysErr EINTR, SysN 4]"]
  by (auto simp: demo_facts) (auto simp: demo_disk_def)

text \<open>(C2) Restart rebuilds the index: on the image of a chunk whose file ids are all different and not yet
  known, \<open>spy_setup_chunk\<close> succeeds, whatever the records' sizes and however they lie across the 4 MiB read
  buffer; afterwards a lookup finds exactly one entry per record, with the record's offset and size, and
  all entries known before; the chunk is in the chunk table with the state of its superblock, the highest
  chunk id is updated, and both tables keep their invariants.\<close>

theorem recovery_rebuilds_index:
  assumes "chunk_image c rs (files s fd)" and "script s = []" and "fpos s fd = 0"
    and "unat (current_offset c) < 2 ^ 31" and "length junk = SUPERBLOCK_SIZE"
    and "index_ok (file_index st)" and "chunks_ok st" and "lookup_chunk (c_chunk_id c) st = None"
    and "distinct (map (f_fid \<circ> fst) rs)" and "\<forall>r\<in>set rs. index_lookup (file_index st) (f_fid (fst r)) = None"
  shows "\<exists>st' s' a. spy_setup_chunk cs junk fd path st s = Some (st', s') \<and>
    index_ok (file_index st') \<and> chunks_ok st' \<and> max_chunk_id st' = max (max_chunk_id st) (c_chunk_id c) \<and>
    (\<forall>k. fst (spy_lookup_file_index k st') =
       (case find (\<lambda>e. e_fid e = k) (stored_entries (c_chunk_id c) 55 rs) of
          None \<Rightarrow> fst (spy_lookup_file_index k st) | Some e \<Rightarrow> Some e)) \<and>
    lookup_chunk (c_chunk_id c) st' = Some a \<and>
    chunk_tab st' a = c\<lparr>c_fd := fd, c_path := path, file_size := ucast (of_nat (length (files s fd)) :: u32)\<rparr>"
  by (rule recover_chunk [OF assms, of cs path]) (simp add: spy_lookup_file_index_def split: option.split)

theorem recovery_rebuilds_index_witness:
  "\<exists>st' s' a. spy_setup_chunk 2147483648 (replicate 55 0) 3 ''d/chunk_1_7.chunk'' empty_store (demo_disk []) = Some (st', s') \<and>
     fst (spy_lookup_file_index 5 st') = None \<and> lookup_chunk 7 st' = Some a"
  using recovery_rebuilds_index [OF demo_image, of "[]" 3 "replicate 55 0" empty_store 2147483648 "''d/chunk_1_7.chunk''"] empty_store_ok
  by (auto simp: demo_disk_def lookup_chunk_def empty_store_def spy_lookup_file_index_def index_lookup_def)

text \<open>(C35) A chunk with a file id that occurs twice, in the chunk or in the index built so far, stops the
  server from starting: \<open>spy_setup_chunk\<close> runs into the assertion of \<open>spy_add_file_index\<close>.\<close>

theorem recovery_rejects_duplicates:
  assumes "chunk_image c rs (files s fd)" and "script s = []" and "fpos s fd = 0"
    and "unat (current_offset c) < 2 ^ 31" and "length junk = SUPERBLOCK_SIZE" and "index_ok (file_index st)"
    and "\<not> (distinct (map (f_fid \<circ> fst) rs) \<and> (\<forall>r\<in>set rs. index_lookup (file_index st) (f_fid (fst r)) = None))"
  shows "spy_setup_chunk cs junk fd path st s = None"
proof -
  have "add_all index_add (stored_entries (c_chunk_id c) 55 rs) (file_index st) = None"
    by (rule fi.add_all_dup [OF assms(6)]) (simp only: fids_stored_entries fids_stored_all assms(7) not_False_eq_True)
  then show ?thesis
    by - (rule setup_chunk_ok [OF assms(1-5), where cs = cs and path = path and st = st], simp)
qed

definition demo_dup :: "stored list" where
  "demo_dup = [(job_file demo_job, 0, [1, 2, 3]), (job_file demo_job, 0, [1, 2, 3])]"

theorem recovery_rejects_duplicates_witness:
  "\<exists>f. chunk_image (demo_chunk0\<lparr>current_offset := 121\<rparr>) demo_dup f \<and>
     spy_setup_chunk 0 (replicate 55 0) 3 [] empty_store ((demo_disk [])\<lparr>files := (\<lambda>_. f)\<rparr>) = None"
proof -
  let ?c = "demo_chunk0\<lparr>current_offset := 121\<rparr>" and ?f = "sb_bytes (demo_chunk0\<lparr>current_offset := 121\<rparr>) @ stored_all demo_dup"
  have "length (stored_all demo_dup) = 66" by (simp add: demo_dup_def length_stored_bytes)
  then have img: "chunk_image ?c demo_dup ?f"
    by (simp add: chunk_image_def slice_def) (simp add: demo_dup_def stored_ok_def demo_facts)
  have "spy_setup_chunk 0 (replicate 55 0) 3 [] empty_store ((demo_disk [])\<lparr>files := (\<lambda>_. ?f)\<rparr>) = None"
    using img empty_store_ok(2)
    by (intro recovery_rejects_duplicates [of ?c demo_dup]) (simp_all add: demo_disk_def demo_dup_def)
  with img show ?thesis by blast
qed

section \<open>Durability\<close>

lemma e_fid_stored_entry [simp]: "e_fid (stored_entry cid pos r) = f_fid (fst r)"
  by (cases r) (simp add: stored_entry_def)

lemma image_last:
  assumes "chunk_image c (rs @ [r]) f"
  shows "slice (55 + length (stored_all rs)) (length (stored_bytes r)) f = stored_bytes r"
    and "55 + length (stored_all rs) + length (stored_bytes r) \<le> length f"
proof -
  let ?n = "length (stored_all rs)" and ?k = "length (stored_bytes r)"
  have "slice 55 (?n + ?k) f = stored_all rs @ stored_bytes r" using assms by (simp add: chunk_image_def)
  from arg_cong [OF this, of "slice ?n ?k"] show "slice (55 + ?n) ?k f = stored_bytes r"
    by (simp add: slice_slice) (simp add: slice_def)
  show "55 + ?n + ?k \<le> length f" using assms by (simp add: chunk_image_def)
qed

lemma find_stored_last:
  assumes "f_fid (fst r) \<notin> (f_fid \<circ> fst) ` set rs"
  shows "find (\<lambda>e. e_fid e = f_fid (fst r)) (stored_entries cid pos (rs @ [r])) =
    Some (stored_entry cid (pos + length (stored_all rs)) r)"
  using assms
proof (induction rs arbitrary: pos)
  case (Cons q rs)
  then show ?case by (auto simp: add.assoc)
qed simp

text \<open>What a restarted server does for the last record of an image.\<close>

lemma restart_reads:
  assumes img: "chunk_image c (rs @ [(f, ts, data)]) (files s fd)" and os: "script s = []" "fpos s fd = 0"
    and small: "unat (current_offset c) < 2 ^ 31" and junk: "length junk = SUPERBLOCK_SIZE"
    and fids: "distinct (f_fid f # map (f_fid \<circ> fst) rs)"
  obtains st s' e a where "spy_setup_chunk cs junk fd path empty_store s = Some (st, s')"
    "fst (spy_lookup_file_index (f_fid f) st) = Some e" "lookup_chunk (e_chunk_id e) st = Some a"
    "\<And>io_job conn m. job_arg io_job = JobEntry e \<Longrightarrow> rwb_ok m (rsp_body conn) \<Longrightarrow> write_pos (rsp_body conn) = 0 \<Longrightarrow>
       unat (e_size e) \<le> cap (rsp_body conn) \<Longrightarrow>
       \<exists>io_job' conn' m' s2. spy_read_file io_job conn (chunk_tab st a) m s' = Some (io_job', conn', m', s2) \<and>
         retcode io_job' = 0 \<and> unread m' (rsp_body conn') = data \<and>
         job_file io_job' = f\<lparr>f_checksum := adler_of data, f_timestamp := ts\<rparr>"
proof -
  let ?r = "(f, ts, data)" and ?f = "f\<lparr>f_checksum := adler_of data, f_timestamp := ts\<rparr>"
  have h: "lookup_chunk (c_chunk_id c) empty_store = None" "distinct (map (f_fid \<circ> fst) (rs @ [?r]))"
    "\<forall>r\<in>set (rs @ [?r]). index_lookup (file_index empty_store) (f_fid (fst r)) = None"
    using fids by (auto simp: lookup_chunk_def index_lookup_def empty_store_def)
  let ?e = "stored_entry (c_chunk_id c) (55 + length (stored_all rs)) ?r"
  obtain st s' a where R: "spy_setup_chunk cs junk fd path empty_store s = Some (st, s')" "files s' = files s" "script s' = []"
    "index_lookup (file_index st) (f_fid f) = Some ?e" "lookup_chunk (c_chunk_id c) st = Some a" "c_fd (chunk_tab st a) = fd"
    using find_stored_last [of ?r rs "c_chunk_id c" 55] fids
    by (rule_tac recover_chunk [OF img os small junk empty_store_ok(2, 1) h, of cs path]) auto
  have lb: "length (stored_bytes ?r) = 30 + length data" "unat (f_size f) = length data"
    using img by (simp_all add: stored_bytes_def chunk_image_def stored_ok_def)
  have off: "unat (current_offset c) = 55 + length (stored_all rs) + (30 + length data)"
    using img lb(1) by (simp add: chunk_image_def)
  have lt: "55 + length (stored_all rs) < 2 ^ 64" "unat (f_size f) < 2 ^ 31" using off small lb(2) by simp_all
  then have b: "unat (of_nat (55 + length (stored_all rs)) :: u64) = 55 + length (stored_all rs)"
    unfolding unat_of_nat by (intro mod_less) simp
  have e: "unat (e_offset ?e) = 55 + length (stored_all rs)" "unat (e_size ?e) = 30 + length data" "e_chunk_id ?e = c_chunk_id c"
    using b unat_size_meta [OF lt(2)] lb(2) by (simp_all add: stored_entry_def)
  have sl: "slice (unat (e_offset ?e)) (unat (e_size ?e)) (files s' (c_fd (chunk_tab st a))) = file_record f ts data"
    "unat (e_offset ?e) + unat (e_size ?e) \<le> length (files s' (c_fd (chunk_tab st a)))"
    using image_last [OF img] lb(1) e(1, 2) R(2, 6) by (simp_all add: stored_bytes_def)
  have meta: "?f = read_file_meta (take 30 (file_record f ts data))"
    using read_file_meta_bytes [of ?f "[]"] by (simp add: file_record_def)
  have n: "30 \<le> unat (e_size ?e)" "unat (e_offset ?e) + unat (e_size ?e) < 2 ^ 64" "soft (script s')"
    using e off small R(3) by simp_all
  show ?thesis
  proof (rule that [OF R(1)])
    show "fst (spy_lookup_file_index (f_fid f) st) = Some ?e" "lookup_chunk (e_chunk_id ?e) st = Some a"
      using R(4, 5) e(3) by (simp_all add: spy_lookup_file_index_def)
    show "\<exists>io_job' conn' m' s2. spy_read_file io_job conn (chunk_tab st a) m s' = Some (io_job', conn', m', s2) \<and>
        retcode io_job' = 0 \<and> unread m' (rsp_body conn') = data \<and> job_file io_job' = ?f"
      if j: "job_arg io_job = JobEntry ?e" "rwb_ok m (rsp_body conn)" "write_pos (rsp_body conn) = 0"
        "unat (e_size ?e) \<le> cap (rsp_body conn)" for io_job conn m
      by (rule read_file_soft [OF j n(1, 2) sl(1) n(3) sl(2) meta]) (auto simp: file_record_def)
  qed
qed

text \<open>(C1) A stored file survives a restart. Let the chunk file be an image of the chunk, and \<open>spy_write_file\<close>
  store a file with a new id without a hard error. Start the server again on the resulting disk:
  \<open>spy_setup_chunk\<close> recovers the chunk, the index finds the file, its entry leads to the chunk, and
  \<open>spy_read_file\<close> with this entry and an empty response buffer of sufficient size returns exactly the bytes
  that were written, with the metadata of the file.\<close>

theorem stored_file_survives_restart:
  assumes "chunk_image chunk rs (files s (c_fd chunk))" and "job_arg io_job = JobOffset (current_offset chunk)"
    and "rwb_ok m (request conn)" and "job_file io_job = f"
    and "unat (f_size f) \<le> length (unread m (request conn))"
    and "unat (current_offset chunk) + 30 + unat (f_size f) < 2 ^ 31"
    and "data = take (unat (f_size f)) (unread m (request conn))" and "soft (script s)"
    and "distinct (f_fid f # map (f_fid \<circ> fst) rs)" and "length junk = SUPERBLOCK_SIZE"
  shows "\<exists>io_job' conn' chunk' s'. spy_write_file sync io_job conn chunk m s = Some (io_job', conn', chunk', s') \<and>
    (\<forall>s2 fd. files s2 fd = files s' (c_fd chunk) \<and> script s2 = [] \<and> fpos s2 fd = 0 \<longrightarrow>
      (\<exists>st s3 e a. spy_setup_chunk cs junk fd path empty_store s2 = Some (st, s3) \<and>
        fst (spy_lookup_file_index (f_fid f) st) = Some e \<and> lookup_chunk (e_chunk_id e) st = Some a \<and>
        (\<forall>io_job2 conn2 m2. job_arg io_job2 = JobEntry e \<and> rwb_ok m2 (rsp_body conn2) \<and>
           write_pos (rsp_body conn2) = 0 \<and> unat (e_size e) \<le> cap (rsp_body conn2) \<longrightarrow>
          (\<exists>io_job2' conn2' m2' s4. spy_read_file io_job2 conn2 (chunk_tab st a) m2 s3 = Some (io_job2', conn2', m2', s4) \<and>
             retcode io_job2' = 0 \<and> unread m2' (rsp_body conn2') = data \<and>
             job_file io_job2' = f\<lparr>f_checksum := adler_of data, f_timestamp := clock s\<rparr>))))"
proof -
  let ?fd = "c_fd chunk" and ?r = "(f, clock s, data)" and ?f = "f\<lparr>f_checksum := adler_of data, f_timestamp := clock s\<rparr>"
  have dl: "length data = unat (f_size f)" using assms(5, 7) by simp
  have small: "unat (f_size f) < 2 ^ 31" "unat (current_offset chunk) + 30 + unat (f_size f) < 2 ^ 64" using assms(6) by simp_all
  have c: "unat (current_offset (chunk_after chunk (f_size f))) = unat (current_offset chunk) + 30 + unat (f_size f)"
    by (rule chunk_after_offset [OF small])
  obtain req' s1 s' where W: "spy_write_file sync io_job conn chunk m s =
       Some (io_job\<lparr>job_file := f\<lparr>f_checksum := adler_of data\<rparr>, retcode := 0\<rparr>, conn\<lparr>request := req'\<rparr>, chunk_after chunk (f_size f), s')"
    "os_frame (fwrote ?fd (unat (current_offset chunk)) (file_record f (clock s) data) s) s1"
    "os_frame (fwrote ?fd 0 (sb_bytes (chunk_after chunk (f_size f))) s1) s'"
    by (rule write_file_soft [OF assms(2-5) small assms(7, 8)])
  have ne: "file_record f (clock s) data \<noteq> []" "sb_bytes (chunk_after chunk (f_size f)) \<noteq> []"
    using length_file_record [of f "clock s" data] length_sb_bytes [of "chunk_after chunk (f_size f)"] by force+
  have img: "chunk_image (chunk_after chunk (f_size f)) (rs @ [?r]) (files s' ?fd)"
    using image_append [OF assms(1) dl refl small] os_frame_simps [OF W(2)] os_frame_simps [OF W(3)] ne
    by (simp add: fwrote_def)
  have small': "unat (current_offset (chunk_after chunk (f_size f))) < 2 ^ 31" using c assms(6) by simp
  have "\<exists>st s3 e a. spy_setup_chunk cs junk fd path empty_store s2 = Some (st, s3) \<and>
        fst (spy_lookup_file_index (f_fid f) st) = Some e \<and> lookup_chunk (e_chunk_id e) st = Some a \<and>
        (\<forall>io_job2 conn2 m2. job_arg io_job2 = JobEntry e \<and> rwb_ok m2 (rsp_body conn2) \<and>
           write_pos (rsp_body conn2) = 0 \<and> unat (e_size e) \<le> cap (rsp_body conn2) \<longrightarrow>
          (\<exists>io_job2' conn2' m2' s4. spy_read_file io_job2 conn2 (chunk_tab st a) m2 s3 = Some (io_job2', conn2', m2', s4) \<and>
             retcode io_job2' = 0 \<and> unread m2' (rsp_body conn2') = data \<and> job_file io_job2' = ?f))"
    if s2: "files s2 fd = files s' ?fd" "script s2 = []" "fpos s2 fd = 0" for s2 fd
    by (rule restart_reads [OF img [folded s2(1)] s2(2, 3) small' assms(10, 9), of cs path]) blast
  then show ?thesis using W(1) by blast
qed

theorem stored_file_survives_restart_witness:
  "\<exists>io_job' conn' chunk' s' st s3. spy_write_file True (demo_job\<lparr>job_arg := JobOffset 55\<rparr>) demo_conn demo_chunk0 demo_mem2
      (demo_disk [SysErr EINTR, SysN 4]) = Some (io_job', conn', chunk', s') \<and>
    spy_setup_chunk 2147483648 (replicate 55 0) 3 ''d/chunk_1_7.chunk'' empty_store (s'\<lparr>script := [], fpos := (\<lambda>_. 0)\<rparr>) = Some (st, s3) \<and>
    fst (spy_lookup_file_index 5 st) \<noteq> None"
proof -
  let ?j = "demo_job\<lparr>job_arg := JobOffset 55\<rparr>" and ?s = "demo_disk [SysErr EINTR, SysN 4]"
  have "\<exists>io_job' conn' chunk' s'. spy_write_file True ?j demo_conn demo_chunk0 demo_mem2 ?s = Some (io_job', conn', chunk', s') \<and>
    (\<forall>s2 fd. files s2 fd = files s' (c_fd demo_chunk0) \<and> script s2 = [] \<and> fpos s2 fd = 0 \<longrightarrow>
      (\<exists>st s3 e a. spy_setup_chunk 2147483648 (replicate 55 0) fd ''d/chunk_1_7.chunk'' empty_store s2 = Some (st, s3) \<and>
        fst (spy_lookup_file_index 5 st) = Some e))"
    using stored_file_survives_restart [OF demo_image, of ?j demo_mem2 demo_conn "job_file demo_job" _ "[SysErr EINTR, SysN 4]"
        "replicate 55 0" True 2147483648 "''d/chunk_1_7.chunk''"]
    by (simp add: demo_facts) (fastforce simp: demo_disk_def)
  then obtain io_job' conn' chunk' s' where w: "spy_write_file True ?j demo_conn demo_chunk0 demo_mem2 ?s = Some (io_job', conn', chunk', s')"
    and r: "\<And>s2 fd. files s2 fd = files s' (c_fd demo_chunk0) \<Longrightarrow> script s2 = [] \<Longrightarrow> fpos s2 fd = 0 \<Longrightarrow>
      (\<exists>st s3 e a. spy_setup_chunk 2147483648 (replicate 55 0) fd ''d/chunk_1_7.chunk'' empty_store s2 = Some (st, s3) \<and>
        fst (spy_lookup_file_index 5 st) = Some e)" by blast
  show ?thesis using w r [of "s'\<lparr>script := [], fpos := (\<lambda>_. 0)\<rparr>" 3] by auto
qed

end
