(* ===== verification/Spy_Text.thy ===== *)
theory Spy_Text
  imports Spy_Prelude
begin

text \<open>
  Decimal numbers in text, as the C library functions that the server uses print and read them: the
  conversions \<open>%d\<close> and \<open>%lu\<close> of \<open>snprintf\<close> and \<open>sscanf\<close>, and \<open>strtol\<close> in base 10.
\<close>

section \<open>Printing\<close>

fun dec :: "nat \<Rightarrow> string" where
  "dec n = (if n < 10 then [char_of (48 + n)] else dec (n div 10) @ [char_of (48 + n mod 10)])"

declare dec.simps [simp del]

definition dec_int :: "int \<Rightarrow> string" where
  "dec_int i = (if i < 0 then CHR ''-'' # dec (nat (- i)) else dec (nat i))"

section \<open>Reading\<close>

definition c_isspace :: "char \<Rightarrow> bool" where
  "c_isspace c \<longleftrightarrow> of_char c = (32 :: nat) \<or> 9 \<le> (of_char c :: nat) \<and> of_char c \<le> (13 :: nat)"

definition c_isdigit :: "char \<Rightarrow> bool" where
  "c_isdigit c \<longleftrightarrow> 48 \<le> (of_char c :: nat) \<and> of_char c \<le> (57 :: nat)"

fun scan_digits :: "nat \<Rightarrow> string \<Rightarrow> nat \<times> string" where
  "scan_digits acc [] = (acc, [])"
| "scan_digits acc (c # cs) = (if c_isdigit c then scan_digits (acc * 10 + (of_char c - 48)) cs else (acc, c # cs))"

text \<open>White space, an optional sign and at least one digit; the number before it is cut to the type's range,
  and the rest of the text.\<close>

definition scan_sign :: "string \<Rightarrow> bool \<times> string" where
  "scan_sign s = (case s of [] \<Rightarrow> (False, []) | c # cs \<Rightarrow>
     if c = CHR ''-'' then (True, cs) else if c = CHR ''+'' then (False, cs) else (False, c # cs))"

definition scan_num :: "string \<Rightarrow> (int \<times> string) option" where
  "scan_num s =
     (let (neg, u) = scan_sign (dropWhile c_isspace s)
      in if u \<noteq> [] \<and> c_isdigit (hd u) then
           (let (n, rest) = scan_digits 0 u in Some (if neg then - int n else int n, rest))
         else None)"

definition clip_long :: "int \<Rightarrow> int" where
  "clip_long x = max (- (2 ^ 63)) (min (2 ^ 63 - 1) x)"

text \<open>\<open>strtol(s, &p, 10)\<close>: the value and the text at \<open>p\<close>.\<close>

definition strtol :: "string \<Rightarrow> int \<times> string" where
  "strtol s = (case scan_num s of None \<Rightarrow> (0, s) | Some (v, rest) \<Rightarrow> (clip_long v, rest))"

text \<open>Matching literal characters of a \<open>sscanf\<close> pattern.\<close>

fun scan_lit :: "string \<Rightarrow> string \<Rightarrow> string option" where
  "scan_lit [] s = Some s"
| "scan_lit (p # ps) [] = None"
| "scan_lit (p # ps) (c # cs) = (if p = c then scan_lit ps cs else None)"

section \<open>Reading what was printed\<close>

lemma dec_digit: "(n :: nat) < 10 \<Longrightarrow> c_isdigit (char_of (48 + n)) \<and> of_char (char_of (48 + n)) = 48 + n"
  by (simp add: c_isdigit_def)

lemma dec_not_Nil [simp]: "dec n \<noteq> []"
  by (subst dec.simps) simp

lemma dec_isdigit: "c \<in> set (dec n) \<Longrightarrow> c_isdigit c"
proof (induction n rule: dec.induct)
  case (1 n)
  then show ?case by (subst (asm) (2) dec.simps) (auto simp: dec_digit split: if_splits)
qed

lemma scan_digits_dec: "scan_digits acc (dec n @ rest) = scan_digits (acc * 10 ^ length (dec n) + n) rest"
proof (induction n arbitrary: acc rest rule: dec.induct)
  case (1 n)
  show ?case
  proof (cases "n < 10")
    case True
    then show ?thesis by (simp add: dec.simps [of n] dec_digit)
  next
    case False
    have "scan_digits acc (dec n @ rest) = scan_digits (acc * 10 ^ length (dec (n div 10)) + n div 10) (char_of (48 + n mod 10) # rest)"
      using 1 False by (simp add: dec.simps [of n])
    also have "\<dots> = scan_digits ((acc * 10 ^ length (dec (n div 10)) + n div 10) * 10 + n mod 10) rest"
      using dec_digit [of "n mod 10"] by simp
    also have "(acc * 10 ^ length (dec (n div 10)) + n div 10) * 10 + n mod 10 = acc * 10 ^ length (dec n) + n"
      using False by (simp add: dec.simps [of n] algebra_simps)
    finally show ?thesis .
  qed
qed

definition no_digit :: "string \<Rightarrow> bool" where
  "no_digit s \<longleftrightarrow> (case s of [] \<Rightarrow> True | c # _ \<Rightarrow> \<not> c_isdigit c)"

lemma scan_digits_stop: "no_digit rest \<Longrightarrow> scan_digits acc rest = (acc, rest)"
  by (cases rest) (simp_all add: no_digit_def)

lemma digit_no_sign: "c_isdigit c \<Longrightarrow> \<not> c_isspace c \<and> c \<noteq> CHR ''-'' \<and> c \<noteq> CHR ''+''"
  by (auto simp: c_isdigit_def c_isspace_def)

lemma scan_num_dec: "no_digit rest \<Longrightarrow> scan_num (dec n @ rest) = Some (int n, rest)"
proof -
  assume r: "no_digit rest"
  obtain c cs where d: "dec n = c # cs" by (cases "dec n") auto
  then have "c_isdigit c" using dec_isdigit [of c n] by simp
  then have "scan_num (dec n @ rest) = (let (n, rest) = scan_digits 0 (dec n @ rest) in Some (int n, rest))"
    using digit_no_sign [of c] by (simp add: scan_num_def scan_sign_def d)
  then show ?thesis using r by (simp add: scan_digits_dec scan_digits_stop)
qed

lemma scan_num_dec_int: "no_digit rest \<Longrightarrow> scan_num (dec_int i @ rest) = Some (i, rest)"
proof (cases "i < 0")
  case True
  assume r: "no_digit rest"
  obtain c cs where d: "dec (nat (- i)) = c # cs" by (cases "dec (nat (- i))") auto
  then have "c_isdigit c" using dec_isdigit [of c "nat (- i)"] by simp
  then have "scan_num (dec_int i @ rest) = (let (n, rest) = scan_digits 0 (dec (nat (- i)) @ rest) in Some (- int n, rest))"
    using True by (simp add: scan_num_def scan_sign_def dec_int_def d c_isspace_def)
  then show ?thesis using True r by (simp add: scan_digits_dec scan_digits_stop)
qed (simp add: dec_int_def scan_num_dec)

lemma scan_lit_append [simp]: "scan_lit p (p @ s) = Some s"
  by (induction p) simp_all

lemma strtol_dec: "n < 2 ^ 63 \<Longrightarrow> strtol (dec n) = (int n, [])"
  using scan_num_dec [of "[]" n] by (simp add: strtol_def no_digit_def clip_long_def)

lemma dec_inj: "dec m = dec n \<Longrightarrow> m = n"
  using scan_num_dec [of "[]" m] scan_num_dec [of "[]" n] by (simp add: no_digit_def)

end
