(* ===== verification/Spy_Config.thy ===== *)
theory Spy_Config
  imports Spy_Types Spy_Text
begin

text \<open>
  The configuration of the server: the defaults of \<open>spy_server_init\<close>, the command line options that \<open>main\<close>
  of \<^verbatim>\<open>spy_server.c\<close> accepts and the final check. \<open>getopt_long\<close> is given by its results, the list of option
  characters with their arguments. \<^term>\<open>None\<close> is a call of \<open>exit\<close>.
\<close>

section \<open>Configuration\<close>

record spy_config =
  port :: int
  master_port :: int
  server_id :: int
  daemonize :: int
  cfg_n_chunks :: int
  log_level :: int
  bind_addr :: string
  master_addr :: "string option"
  data_dir :: string
  log_path :: string
  chunk_size :: u64
  mb_prealloc_count :: u64
  mb_limit :: u64
  cfg_sync :: int

definition DEF_N_CHUNKS :: int where "DEF_N_CHUNKS = 20"
definition MAX_N_CHUNKS :: int where "MAX_N_CHUNKS = DEF_N_CHUNKS * 10"
definition PREALLOC_COUNT :: u64 where "PREALLOC_COUNT = 16"
definition DEF_MEM_BLOCKS_LIMIT :: u64 where "DEF_MEM_BLOCKS_LIMIT = 1024"
definition MAX_MEM_BLOCKS_LIMIT :: u64 where "MAX_MEM_BLOCKS_LIMIT = DEF_MEM_BLOCKS_LIMIT * 5"
definition UINT16_MAX :: int where "UINT16_MAX = 65535"

definition spy_server_init :: spy_config where
  "spy_server_init =
     \<lparr>port = 8000, master_port = 0, server_id = - 1, daemonize = 0, cfg_n_chunks = DEF_N_CHUNKS, log_level = 1,
      bind_addr = ''127.0.0.1'', master_addr = None, data_dir = ''./'', log_path = ''./speedy.log'',
      chunk_size = of_nat DEF_CHUNK_SIZE, mb_prealloc_count = PREALLOC_COUNT, mb_limit = DEF_MEM_BLOCKS_LIMIT,
      cfg_sync = 0\<rparr>"

section \<open>Options\<close>

text \<open>
  One turn of the \<open>switch\<close>. The \<open>long\<close> result of \<open>strtol\<close> is converted to the type of the field, \<open>int\<close> or
  \<open>size_t\<close>, before it is checked.
\<close>

definition parse_option :: "char \<Rightarrow> string \<Rightarrow> spy_config \<Rightarrow> spy_config option" where
  "parse_option c optarg config =
     (let (v, p) = strtol optarg
      in if c = CHR ''p'' then
           (let config = config\<lparr>port := i32 v\<rparr>
            in if port config \<le> 0 \<or> port config > UINT16_MAX \<or> p \<noteq> [] then None else Some config)
         else if c = CHR ''r'' then
           (let config = config\<lparr>master_port := i32 v\<rparr>
            in if master_port config \<le> 0 \<or> master_port config > UINT16_MAX \<or> p \<noteq> [] then None else Some config)
         else if c = CHR ''h'' then Some (config\<lparr>bind_addr := optarg\<rparr>)
         else if c = CHR ''m'' then Some (config\<lparr>master_addr := Some optarg\<rparr>)
         else if c = CHR ''w'' then Some (config\<lparr>data_dir := optarg\<rparr>)
         else if c = CHR ''d'' then Some (config\<lparr>daemonize := 1\<rparr>)
         else if c = CHR ''e'' then Some (config\<lparr>log_path := optarg\<rparr>)
         else if c = CHR ''g'' then
           (let config = config\<lparr>server_id := i32 v\<rparr>
            in if server_id config \<le> 0 \<or> server_id config > UINT16_MAX \<or> p \<noteq> [] then None else Some config)
         else if c = CHR ''b'' then
           (let config = config\<lparr>mb_limit := of_int v\<rparr>
            in if mb_limit config \<le> 0 \<or> mb_limit config > MAX_MEM_BLOCKS_LIMIT then None else Some config)
         else if c = CHR ''c'' then
           (let config = config\<lparr>cfg_n_chunks := i32 v\<rparr>
            in if cfg_n_chunks config \<le> 0 \<or> cfg_n_chunks config > MAX_N_CHUNKS then None else Some config)
         else if c = CHR ''f'' then
           (let config = config\<lparr>cfg_sync := i32 v\<rparr>
            in if cfg_sync config \<noteq> 1 \<and> cfg_sync config \<noteq> 0 then None else Some config)
         else None)"

fun parse_options :: "(char \<times> string) list \<Rightarrow> spy_config \<Rightarrow> spy_config option" where
  "parse_options [] config = Some config"
| "parse_options ((c, optarg) # opts) config = do { config \<leftarrow> parse_option c optarg config; parse_options opts config }"

definition spy_check_server_options :: "spy_config \<Rightarrow> spy_config option" where
  "spy_check_server_options config =
     (if master_addr config = None \<or> master_port config = 0 \<or> server_id config = - 1 then None else Some config)"

definition read_config :: "(char \<times> string) list \<Rightarrow> spy_config option" where
  "read_config opts = do { config \<leftarrow> parse_options opts spy_server_init; spy_check_server_options config }"

section \<open>Bounds\<close>

text \<open>Every option keeps the ranges; the two that are required may still have their defaults.\<close>

definition config_ranges :: "spy_config \<Rightarrow> bool" where
  "config_ranges c \<longleftrightarrow>
     1 \<le> port c \<and> port c \<le> 65535 \<and> (master_port c = 0 \<or> 1 \<le> master_port c \<and> master_port c \<le> 65535) \<and>
     (server_id c = - 1 \<or> 1 \<le> server_id c \<and> server_id c \<le> 65535) \<and> 1 \<le> cfg_n_chunks c \<and> cfg_n_chunks c \<le> 200 \<and>
     0 < mb_limit c \<and> mb_limit c \<le> 5120 \<and> (cfg_sync c = 1 \<or> cfg_sync c = 0) \<and> chunk_size c = 2 ^ 31"

lemma parse_option_ranges: "config_ranges c \<Longrightarrow> parse_option k a c = Some c' \<Longrightarrow> config_ranges c'"
proof -
  assume c: "config_ranges c" "parse_option k a c = Some c'"
  obtain v p where "strtol a = (v, p)" by (cases "strtol a")
  note d = c [unfolded parse_option_def config_ranges_def this Let_def prod.case UINT16_MAX_def MAX_N_CHUNKS_def DEF_N_CHUNKS_def
      MAX_MEM_BLOCKS_LIMIT_def DEF_MEM_BLOCKS_LIMIT_def]
  show ?thesis
    unfolding config_ranges_def using d by (simp split: if_splits) (hypsubst, simp add: not_less word_gt_0)+
qed

lemma parse_options_ranges: "config_ranges c \<Longrightarrow> parse_options opts c = Some c' \<Longrightarrow> config_ranges c'"
  by (induction opts c rule: parse_options.induct) (auto split: bind_splits intro: parse_option_ranges)

lemma init_ranges: "config_ranges spy_server_init"
  by (simp add: config_ranges_def spy_server_init_def DEF_N_CHUNKS_def DEF_MEM_BLOCKS_LIMIT_def DEF_CHUNK_SIZE_def)

section \<open>Properties\<close>

text \<open>(C37) An accepted command line gives a configuration in range: both ports and the group id lie between 1
  and 65535, the number of chunks between 1 and 200, the limit of memory blocks between 1 and 5120,
  the synchronisation flag is 0 or 1, the chunk size is 2 GiB and a master address is set.\<close>

theorem accepted_options_in_range:
  assumes "read_config opts = Some c"
  shows "1 \<le> port c \<and> port c \<le> 65535 \<and> 1 \<le> master_port c \<and> master_port c \<le> 65535 \<and>
    1 \<le> server_id c \<and> server_id c \<le> 65535 \<and> 1 \<le> cfg_n_chunks c \<and> cfg_n_chunks c \<le> 200 \<and>
    1 \<le> unat (mb_limit c) \<and> unat (mb_limit c) \<le> 5120 \<and> (cfg_sync c = 0 \<or> cfg_sync c = 1) \<and>
    chunk_size c = 2 ^ 31 \<and> master_addr c \<noteq> None"
proof -
  have p: "parse_options opts spy_server_init = Some c" "master_addr c \<noteq> None" "master_port c \<noteq> 0" "server_id c \<noteq> - 1"
    using assms by (auto simp: read_config_def spy_check_server_options_def split: bind_splits if_splits)
  note r = parse_options_ranges [OF init_ranges p(1)]
  have "unat (mb_limit c) \<le> 5120" "0 < unat (mb_limit c)"
    using r by (simp_all add: config_ranges_def word_le_nat_alt word_less_nat_alt unat_gt_0)
  then show ?thesis using r p(2-4) by (auto simp: config_ranges_def)
qed

text \<open>A command line with the options that are required, and with more.\<close>

definition demo_opts :: "(char \<times> string) list" where
  "demo_opts = [(CHR ''m'', ''10.0.0.1''), (CHR ''r'', dec 8099), (CHR ''g'', dec 7), (CHR ''c'', dec 3)]"

lemma demo_config: "\<exists>c. read_config demo_opts = Some c \<and> server_id c = 7 \<and> cfg_n_chunks c = 3"
  by (simp add: read_config_def demo_opts_def parse_option_def strtol_dec i32_small spy_check_server_options_def UINT16_MAX_def
      MAX_N_CHUNKS_def DEF_N_CHUNKS_def Let_def split: prod.split)

theorem accepted_options_in_range_witness:
  "\<exists>c. read_config demo_opts = Some c \<and> 1 \<le> port c \<and> unat (mb_limit c) \<le> 5120 \<and> (cfg_sync c = 0 \<or> cfg_sync c = 1)"
  using demo_config accepted_options_in_range by blast

text \<open>A number beyond the range of \<open>int\<close> is cut to it before the check, and may be accepted.\<close>

lemma port_option_wraps: "parse_option (CHR ''p'') (dec (2 ^ 32 + 80)) c = Some (c\<lparr>port := 80\<rparr>)"
proof -
  have "i32 (2 ^ 32 + 80) = 80" by (simp add: i32_def signed_take_bit_eq_if_positive take_bit_eq_mod bit_iff_odd)
  then show ?thesis
    using strtol_dec [of 4294967376] by (simp add: parse_option_def UINT16_MAX_def)
qed

text \<open>The option \<open>-d\<close> ignores its argument: \<open>--daemonize=0\<close> makes the server a daemon.\<close>

lemma daemonize_ignores_argument: "parse_option (CHR ''d'') ''0'' c = Some (c\<lparr>daemonize := 1\<rparr>)"
  by (simp add: parse_option_def split: prod.split)

end
