(* ===== verification/Spy_Startup.thy ===== *)
theory Spy_Startup
  imports Spy_Recovery Spy_Config
begin

text \<open>
  Start of the server: names of chunk files, creation of a chunk and \<open>spy_create_or_recover_files\<close> of
  \<^verbatim>\<open>spy_store.c\<close>. The file system knows the files by their paths; a descriptor is the number of the file it was
  opened for. The results of \<open>readdir\<close> are a list of names with the flag that the entry is a regular file.
\<close>

section \<open>Files by name\<close>

record spy_fs =
  paths :: "string \<Rightarrow> nat option"
  next_file :: nat

text \<open>\<open>open(path, O_CREAT | O_RDWR | O_LARGEFILE, 0644)\<close>\<close>

definition sys_open_creat :: "string \<Rightarrow> spy_fs \<Rightarrow> os \<Rightarrow> nat sysret \<times> spy_fs \<times> os" where
  "sys_open_creat path fs s =
     (case next_resp s of (r, s) \<Rightarrow>
        (case r of
           Some (SysErr e) \<Rightarrow> (Fail e, fs, s)
         | _ \<Rightarrow>
             (case paths fs path of
                Some fd \<Rightarrow> (Done fd, fs, s\<lparr>fpos := (fpos s)(fd := 0)\<rparr>)
              | None \<Rightarrow>
                  (let fd = next_file fs
                   in (Done fd, fs\<lparr>paths := (paths fs)(path \<mapsto> fd), next_file := fd + 1\<rparr>,
                       s\<lparr>files := (files s)(fd := []), fpos := (fpos s)(fd := 0)\<rparr>)))))"

text \<open>\<open>fallocate(fd, 0, 0, len)\<close> makes the file at least \<open>len\<close> bytes long.\<close>

definition sys_fallocate :: "nat \<Rightarrow> nat \<Rightarrow> os \<Rightarrow> int \<times> os" where
  "sys_fallocate fd len s =
     (case next_resp s of (r, s) \<Rightarrow>
        (case r of
           Some (SysErr e) \<Rightarrow> (- 1, s)
         | _ \<Rightarrow> (0, s\<lparr>files := (files s)(fd := files s fd @ replicate (len - length (files s fd)) 0)\<rparr>)))"

section \<open>Chunk files\<close>

definition chunk_filename :: "int \<Rightarrow> u64 \<Rightarrow> string" where
  "chunk_filename sid chunk_id = ''chunk_'' @ dec_int sid @ ''_'' @ dec (unat chunk_id) @ ''.chunk''"

definition spy_create_chunk ::
    "spy_config \<Rightarrow> spy_store \<Rightarrow> spy_fs \<Rightarrow> os \<Rightarrow> (int \<times> spy_store \<times> spy_fs \<times> os) option" where
  "spy_create_chunk config st fs s = do {
     let st = st\<lparr>max_chunk_id := max_chunk_id st + 1\<rparr>;
     let chunk_id = max_chunk_id st;
     let chunk_path = data_dir config @ ''/'' @ chunk_filename (server_id config) chunk_id;
     if length chunk_path < 512 then
       (case sys_open_creat chunk_path fs s of
          (Fail e, fs, s) \<Rightarrow> Some (- 1, st, fs, s)
        | (Done fd, fs, s) \<Rightarrow> do {
            let (n, s) = sys_fallocate fd (unat (chunk_size config)) s;
            if n \<noteq> 0 then Some (- 1, st, fs, s)
            else do {
              let chunk = spy_alloc_chunk (chunk_size config) fd chunk_id chunk_path (ucast (chunk_size config));
              st \<leftarrow> spy_add_chunk chunk st;
              (n, s) \<leftarrow> spy_write_chunk_superblock (uninit SUPERBLOCK_SIZE) chunk s;
              Some (n, st, fs, s)
            }
          })
     else None
   }"

text \<open>
  \<open>sscanf(filename, "chunk_%d_%lu.chunk", ...)\<close> counts the conversions; what follows the second number is not
  looked at. The number read by \<open>%d\<close> is stored as an \<open>int\<close>.
\<close>

definition spy_check_filename_format :: "spy_config \<Rightarrow> string \<Rightarrow> int" where
  "spy_check_filename_format config filename =
     (case (do {
        r \<leftarrow> scan_lit ''chunk_'' filename;
        (sid, r) \<leftarrow> scan_num r;
        r \<leftarrow> scan_lit ''_'' r;
        (chunk_id, r) \<leftarrow> scan_num r;
        Some (i32 (clip_long sid))
      }) of
        None \<Rightarrow> - 1
      | Some sid \<Rightarrow> if sid \<noteq> server_id config then - 1 else 0)"

section \<open>Start\<close>

fun recover_files ::
    "spy_config \<Rightarrow> bytes \<Rightarrow> string \<Rightarrow> (string \<times> bool) list \<Rightarrow> spy_store \<Rightarrow> spy_fs \<Rightarrow> os \<Rightarrow> (spy_store \<times> os) option" where
  "recover_files config junk dir [] st fs s = Some (st, s)"
| "recover_files config junk dir ((d_name, regular) # es) st fs s =
     (if regular then
        (if spy_check_filename_format config d_name \<noteq> 0 then None
         else do {
           let chunk_path = dir @ ''/'' @ d_name;
           if length chunk_path < 512 then do {
             fd \<leftarrow> paths fs chunk_path;
             (st, s) \<leftarrow> spy_setup_chunk (chunk_size config) junk fd chunk_path st (s\<lparr>fpos := (fpos s)(fd := 0)\<rparr>);
             recover_files config junk dir es st fs s
           } else None
         })
      else recover_files config junk dir es st fs s)"

fun create_chunks :: "spy_config \<Rightarrow> nat \<Rightarrow> spy_store \<Rightarrow> spy_fs \<Rightarrow> os \<Rightarrow> (spy_store \<times> spy_fs \<times> os) option" where
  "create_chunks config 0 st fs s = Some (st, fs, s)"
| "create_chunks config (Suc i) st fs s = do {
     (n, st, fs, s) \<leftarrow> spy_create_chunk config st fs s;
     if n \<noteq> 0 then None else create_chunks config i st fs s
   }"

text \<open>\<open>entries\<close> is \<^term>\<open>None\<close> when \<open>opendir\<close> fails.\<close>

definition spy_create_or_recover_files ::
    "spy_config \<Rightarrow> bytes \<Rightarrow> string \<Rightarrow> (string \<times> bool) list option \<Rightarrow> spy_store \<Rightarrow> spy_fs \<Rightarrow> os \<Rightarrow>
     (spy_store \<times> spy_fs \<times> os) option" where
  "spy_create_or_recover_files config junk dir entries st fs s = do {
     es \<leftarrow> entries;
     (st, s) \<leftarrow> recover_files config junk dir es st fs s;
     if chunks st = [] then create_chunks config (nat (cfg_n_chunks config)) st fs s
     else Some (st, fs, s)
   }"

section \<open>Names\<close>

lemma scan_chunk_name:
  assumes "- (2 ^ 31) \<le> sid" and "sid < 2 ^ 31"
  shows "spy_check_filename_format config (''chunk_'' @ dec_int sid @ ''_'' @ dec n @ rest) =
    (if sid = server_id config then 0 else - 1)"
proof -
  have "i32 (clip_long sid) = sid" using assms by (simp add: clip_long_def i32_small)
  moreover obtain v r where "scan_num (dec n @ rest) = Some (v, r)"
  proof -
    obtain c cs where d: "dec n = c # cs" by (cases "dec n") auto
    then have "c_isdigit c" using dec_isdigit [of c n] by simp
    then have "scan_num (dec n @ rest) \<noteq> None"
      using digit_no_sign [of c] by (simp add: scan_num_def scan_sign_def d split: prod.split)
    with that show ?thesis by auto
  qed
  moreover have "scan_num (dec_int sid @ ''_'' @ dec n @ rest) = Some (sid, ''_'' @ dec n @ rest)"
    by (rule scan_num_dec_int) (simp add: no_digit_def c_isdigit_def)
  ultimately show ?thesis
    using scan_lit_append [of "''chunk_''" "dec_int sid @ ''_'' @ dec n @ rest"] scan_lit_append [of "''_''" "dec n @ rest"]
    by (simp add: spy_check_filename_format_def)
qed

lemma chunk_filename_inj:
  assumes "chunk_filename sid a = chunk_filename sid b"
  shows "a = b"
proof -
  have "dec (unat a) = dec (unat b)" using assms by (simp add: chunk_filename_def)
  then have "unat a = unat b" by (rule dec_inj)
  then show ?thesis by (simp add: word_unat_eq_iff)
qed

text \<open>(C36) File names: the name that \<open>spy_create_chunk\<close> gives a chunk file is accepted by
  \<open>spy_check_filename_format\<close> of a server with the same group id and rejected by every other, and
  different chunk ids give different names.\<close>

theorem chunk_filename_roundtrip:
  assumes "- (2 ^ 31) \<le> sid" and "sid < 2 ^ 31"
  shows "(spy_check_filename_format config (chunk_filename sid a) = 0 \<longleftrightarrow> sid = server_id config) \<and>
    (chunk_filename sid a = chunk_filename sid b \<longleftrightarrow> a = b)"
  using scan_chunk_name [OF assms, of config "unat a" "''.chunk''"] chunk_filename_inj [of sid a b]
  by (auto simp: chunk_filename_def)

theorem chunk_filename_roundtrip_witness:
  "spy_check_filename_format (spy_server_init\<lparr>server_id := 7\<rparr>) (chunk_filename 7 12) = 0 \<and>
   chunk_filename 7 12 \<noteq> chunk_filename 7 21"
  using chunk_filename_roundtrip [of 7 "spy_server_init\<lparr>server_id := 7\<rparr>" 12 21] by simp

text \<open>The suffix is not checked: a file left over under another name is taken for a chunk file.\<close>

lemma filename_suffix_unchecked:
  "server_id config = 7 \<Longrightarrow> spy_check_filename_format config (''chunk_'' @ dec_int 7 @ ''_'' @ dec 12 @ ''.tmp'') = 0"
  using scan_chunk_name [of 7 config 12 "''.tmp''"] by simp

section \<open>Creating chunks\<close>

lemma length_dec: "n < 10 ^ k \<Longrightarrow> 0 < k \<Longrightarrow> length (dec n) \<le> k"
proof (induction n arbitrary: k rule: dec.induct)
  case (1 n)
  show ?case
  proof (cases "n < 10")
    case True
    then show ?thesis using 1(3) by (simp add: dec.simps [of n])
  next
    case False
    then have "k \<noteq> 1" using 1(2) by (cases "k = 1") auto
    then obtain k' where k: "k = Suc k'" "0 < k'" using 1(3) by (cases k) auto
    then have "n div 10 < 10 ^ k'" using 1(2) by (simp add: less_mult_imp_div_less mult.commute)
    then show ?thesis using 1(1) [OF False _ k(2)] False k(1) by (simp add: dec.simps [of n])
  qed
qed

lemma length_chunk_filename:
  assumes "\<bar>sid\<bar> < 2 ^ 31"
  shows "length (chunk_filename sid cid) \<le> 44"
proof -
  have "unat cid < 2 ^ LENGTH(64)" by (rule unsigned_less)
  then have "length (dec (unat cid)) \<le> 20" by (intro length_dec) simp_all
  moreover have "length (dec (nat \<bar>sid\<bar>)) \<le> 10" using assms by (intro length_dec) simp_all
  then have "length (dec_int sid) \<le> 11" by (simp add: dec_int_def abs_if split: if_splits)
  ultimately show ?thesis by (simp add: chunk_filename_def)
qed

text \<open>The chunks made so far: their ids go up to the highest id, their files are empty images.\<close>

definition fresh_chunks :: "spy_config \<Rightarrow> spy_store \<Rightarrow> spy_fs \<Rightarrow> os \<Rightarrow> bool" where
  "fresh_chunks config st fs s \<longleftrightarrow>
     chunks_ok st \<and> script s = [] \<and>
     (\<forall>p. paths fs p \<noteq> None \<longrightarrow> (\<exists>i\<le>max_chunk_id st. p = data_dir config @ ''/'' @ chunk_filename (server_id config) i)) \<and>
     (\<forall>a b. a \<in> set (chunk_index st b) \<longrightarrow> c_chunk_id (chunk_tab st a) \<le> max_chunk_id st) \<and>
     (\<forall>a\<in>set (chunks st). c_fd (chunk_tab st a) < next_file fs \<and>
        avail_space (chunk_tab st a) = chunk_size config - 55 \<and>
        chunk_image (chunk_tab st a) [] (files s (c_fd (chunk_tab st a))))"

text \<open>With no interference the superblock is written at once.\<close>

lemma write_superblock_ideal:
  assumes "script s = []"
  shows "spy_write_chunk_superblock (uninit SUPERBLOCK_SIZE) c s =
    Some (0, s\<lparr>files := (files s)(c_fd c := pwrite_at 0 (sb_bytes c) (files s (c_fd c)))\<rparr>)"
proof -
  have "sb_bytes c \<noteq> []" using length_sb_bytes [of c] by force
  then have "spy_pwrite s (c_fd c) (sb_bytes c) 0 =
      (55, s\<lparr>files := (files s)(c_fd c := pwrite_at 0 (sb_bytes c) (files s (c_fd c)))\<rparr>)"
    using assms by (simp add: spy_pwrite_def pwrite_loop.simps sys_pwrite_def next_resp_def grant_def)
  moreover have "spy_fill_superblock (uninit SUPERBLOCK_SIZE) c = Some (sb_bytes c)"
    by (rule fill_superblock_bytes) (simp add: uninit_def)
  ultimately show ?thesis by (simp add: spy_write_chunk_superblock_def)
qed

text \<open>One call on a system without interference.\<close>

definition created :: "spy_config \<Rightarrow> spy_store \<Rightarrow> spy_fs \<Rightarrow> spy_chunk" where
  "created config st fs = spy_alloc_chunk (chunk_size config) (next_file fs) (max_chunk_id st + 1)
     (data_dir config @ ''/'' @ chunk_filename (server_id config) (max_chunk_id st + 1)) (ucast (chunk_size config))"

lemma created_fields [simp]:
  "c_fd (created config st fs) = next_file fs" "c_chunk_id (created config st fs) = max_chunk_id st + 1"
  "avail_space (created config st fs) = chunk_size config - 55" "current_offset (created config st fs) = 55"
  by (simp_all add: created_def spy_alloc_chunk_def)

lemma create_chunk_run:
  assumes path: "path = data_dir config @ ''/'' @ chunk_filename (server_id config) (max_chunk_id st + 1)"
    and new: "length path < 512" "paths fs path = None" and scr: "script s = []"
    and ok: "chunks_ok st" "lookup_chunk (max_chunk_id st + 1) st = None" and size: "55 \<le> chunk_size config"
  obtains st' s' where
    "spy_create_chunk config st fs s =
       Some (0, st', fs\<lparr>paths := (paths fs)(path \<mapsto> next_file fs), next_file := next_file fs + 1\<rparr>, s')"
    "chunks_ok st'" "chunks st' = next_chunk st # chunks st" "chunk_tab st' (next_chunk st) = created config st fs"
    "\<And>b. b \<noteq> next_chunk st \<Longrightarrow> chunk_tab st' b = chunk_tab st b" "writing_chunks st' = writing_chunks st"
    "max_chunk_id st' = max_chunk_id st + 1" "script s' = []"
    "chunk_image (created config st fs) [] (files s' (next_file fs))" "\<And>fd. fd \<noteq> next_file fs \<Longrightarrow> files s' fd = files s fd"
    "\<And>b. set (chunk_index st' b) \<subseteq> insert (next_chunk st) (set (chunk_index st b))"
proof -
  let ?fd = "next_file fs" and ?st = "st\<lparr>max_chunk_id := max_chunk_id st + 1\<rparr>" and ?c = "created config st fs"
  define s1 where "s1 = s\<lparr>files := (files s)(?fd := replicate (unat (chunk_size config)) 0), fpos := (fpos s)(?fd := 0)\<rparr>"
  define s' where "s' = s1\<lparr>files := (files s1)(?fd := pwrite_at 0 (sb_bytes ?c) (files s1 ?fd))\<rparr>"
  have op: "sys_open_creat path fs s = (Done ?fd, fs\<lparr>paths := (paths fs)(path \<mapsto> ?fd), next_file := ?fd + 1\<rparr>,
      s\<lparr>files := (files s)(?fd := []), fpos := (fpos s)(?fd := 0)\<rparr>)"
    using scr new(2) by (simp add: sys_open_creat_def next_resp_def Let_def)
  have fa: "sys_fallocate ?fd (unat (chunk_size config)) (s\<lparr>files := (files s)(?fd := []), fpos := (fpos s)(?fd := 0)\<rparr>) = (0, s1)"
    using scr by (simp add: sys_fallocate_def next_resp_def s1_def)
  have ok': "chunks_ok ?st" "lookup_chunk (c_chunk_id ?c) ?st = None" using ok by (simp_all add: chunks_ok_def lookup_chunk_def)
  obtain st' where st': "spy_add_chunk ?c ?st = Some st'" "max_chunk_id st' = max_chunk_id ?st"
    "\<forall>b. b \<noteq> next_chunk ?st \<longrightarrow> chunk_tab st' b = chunk_tab ?st b" "writing_chunks st' = writing_chunks ?st"
    by (rule add_chunk_fresh [OF ok'])
  have scr1: "script s1 = []" using scr by (simp add: s1_def)
  have sb: "spy_write_chunk_superblock (uninit SUPERBLOCK_SIZE) ?c s1 = Some (0, s')"
    using write_superblock_ideal [OF scr1, of ?c] by (simp add: s'_def)
  show ?thesis
  proof (rule that [of st' s'])
    show "spy_create_chunk config st fs s =
        Some (0, st', fs\<lparr>paths := (paths fs)(path \<mapsto> ?fd), next_file := ?fd + 1\<rparr>, s')"
      using new(1) op fa st'(1) sb by (simp add: spy_create_chunk_def Let_def path created_def)
    show "chunk_image ?c [] (files s' ?fd)"
      using size slice_pwrite_same [of 0 "sb_bytes ?c" "files s1 ?fd"]
      by (simp add: chunk_image_def s'_def s1_def slice_def word_le_nat_alt)
    show "set (chunk_index st' b) \<subseteq> insert (next_chunk st) (set (chunk_index st b))" for b
      using st'(1) by (auto simp: spy_add_chunk_def Let_def split: if_splits)
  qed (use st' add_chunk_ok [OF ok'(1) st'(1)] scr in \<open>auto simp: s'_def s1_def\<close>)
qed

lemma create_chunk_ok:
  assumes inv: "fresh_chunks config st fs s" and cfg: "\<bar>server_id config\<bar> < 2 ^ 31" "length (data_dir config) < 460"
    "55 \<le> chunk_size config" and mx: "max_chunk_id st < max_chunk_id st + 1"
  obtains st' fs' s' where "spy_create_chunk config st fs s = Some (0, st', fs', s')" "fresh_chunks config st' fs' s'"
    "map (c_chunk_id \<circ> chunk_tab st') (chunks st') = (max_chunk_id st + 1) # map (c_chunk_id \<circ> chunk_tab st) (chunks st)"
    "max_chunk_id st' = max_chunk_id st + 1" "writing_chunks st' = writing_chunks st"
proof -
  let ?id = "max_chunk_id st + 1" and ?a = "next_chunk st"
  define path where path: "path = data_dir config @ ''/'' @ chunk_filename (server_id config) ?id"
  have len: "length path < 512" using length_chunk_filename [OF cfg(1), of ?id] cfg(2) by (simp add: path)
  have new: "paths fs path = None"
  proof (rule ccontr)
    assume "paths fs path \<noteq> None"
    then obtain i where "i \<le> max_chunk_id st" "chunk_filename (server_id config) ?id = chunk_filename (server_id config) i"
      using inv by (auto simp: fresh_chunks_def path)
    then show False using mx chunk_filename_inj by fastforce
  qed
  have ok: "script s = []" "chunks_ok st" "lookup_chunk ?id st = None"
    using inv mx by (auto simp: fresh_chunks_def lookup_chunk_None)
  have old: "b \<noteq> ?a" if "b \<in> set (chunks st)" for b using that chunks_ok_index(2, 3) [OF ok(2)] by blast
  obtain st' s' where r: "spy_create_chunk config st fs s =
       Some (0, st', fs\<lparr>paths := (paths fs)(path \<mapsto> next_file fs), next_file := next_file fs + 1\<rparr>, s')"
    "chunks_ok st'" "chunks st' = ?a # chunks st" "chunk_tab st' ?a = created config st fs"
    "\<forall>b. b \<noteq> ?a \<longrightarrow> chunk_tab st' b = chunk_tab st b" "writing_chunks st' = writing_chunks st" "max_chunk_id st' = ?id"
    "script s' = []" "chunk_image (created config st fs) [] (files s' (next_file fs))" "\<forall>fd. fd \<noteq> next_file fs \<longrightarrow> files s' fd = files s fd"
    "\<forall>b. set (chunk_index st' b) \<subseteq> insert ?a (set (chunk_index st b))"
    by (rule create_chunk_run [OF path len new ok cfg(3)]) auto
  have fresh: "fresh_chunks config st' (fs\<lparr>paths := (paths fs)(path \<mapsto> next_file fs), next_file := next_file fs + 1\<rparr>) s'"
    unfolding fresh_chunks_def
  proof (intro conjI allI impI ballI)
    show "\<exists>i\<le>max_chunk_id st'. p = data_dir config @ ''/'' @ chunk_filename (server_id config) i"
      if "paths (fs\<lparr>paths := (paths fs)(path \<mapsto> next_file fs), next_file := next_file fs + 1\<rparr>) p \<noteq> None" for p
      using that inv mx r(7) by (auto simp: fresh_chunks_def path split: if_splits) (metis order.strict_implies_order order.trans)
    show "c_chunk_id (chunk_tab st' x) \<le> max_chunk_id st'" if "x \<in> set (chunk_index st' b)" for x b
    proof (cases "x = ?a")
      case False
      then have "x \<in> set (chunk_index st b)" using that r(11) by blast
      then have "c_chunk_id (chunk_tab st x) \<le> max_chunk_id st" using inv by (auto simp: fresh_chunks_def)
      then show ?thesis using False r(5, 7) mx by simp
    qed (use r(4, 7) in simp)
  next
    fix b assume b: "b \<in> set (chunks st')"
    show "c_fd (chunk_tab st' b) < next_file (fs\<lparr>paths := (paths fs)(path \<mapsto> next_file fs), next_file := next_file fs + 1\<rparr>)"
      "avail_space (chunk_tab st' b) = chunk_size config - 55"
      "chunk_image (chunk_tab st' b) [] (files s' (c_fd (chunk_tab st' b)))"
      using b r(3-5, 9, 10) old [of b] inv by (auto simp: fresh_chunks_def)
  qed (use r in auto)
  have ids: "map (c_chunk_id \<circ> chunk_tab st') (chunks st') = ?id # map (c_chunk_id \<circ> chunk_tab st) (chunks st)"
    using r(3, 4, 5) old by simp
  show ?thesis by (rule that [OF r(1) fresh ids r(7, 6)])
qed

lemma create_chunks_ok:
  assumes "fresh_chunks config st fs s" and cfg: "\<bar>server_id config\<bar> < 2 ^ 31" "length (data_dir config) < 460"
    "55 \<le> chunk_size config" and "unat (max_chunk_id st) + n < 2 ^ 64"
  shows "\<exists>st' fs' s'. create_chunks config n st fs s = Some (st', fs', s') \<and> fresh_chunks config st' fs' s' \<and>
    map (c_chunk_id \<circ> chunk_tab st') (chunks st') =
      rev (map (\<lambda>i. max_chunk_id st + of_nat i) [1..<n + 1]) @ map (c_chunk_id \<circ> chunk_tab st) (chunks st) \<and>
    writing_chunks st' = writing_chunks st"
  using assms(1, 5)
proof (induction n arbitrary: st fs s)
  case (Suc n)
  have u: "unat (max_chunk_id st + 1) = unat (max_chunk_id st) + 1" using Suc.prems(2) unat_inc [of "max_chunk_id st"] by simp
  then have mx: "max_chunk_id st < max_chunk_id st + 1" by (simp add: word_less_nat_alt)
  obtain st1 fs1 s1 where 1: "spy_create_chunk config st fs s = Some (0, st1, fs1, s1)" "fresh_chunks config st1 fs1 s1"
    "map (c_chunk_id \<circ> chunk_tab st1) (chunks st1) = (max_chunk_id st + 1) # map (c_chunk_id \<circ> chunk_tab st) (chunks st)"
    "max_chunk_id st1 = max_chunk_id st + 1" "writing_chunks st1 = writing_chunks st"
    by (rule create_chunk_ok [OF Suc.prems(1) cfg mx])
  have "unat (max_chunk_id st1) + n < 2 ^ 64" using Suc.prems(2) u 1(4) by simp
  from Suc.IH [OF 1(2) this] obtain st' fs' s' where IH: "create_chunks config n st1 fs1 s1 = Some (st', fs', s')"
    "fresh_chunks config st' fs' s'" "writing_chunks st' = writing_chunks st1"
    "map (c_chunk_id \<circ> chunk_tab st') (chunks st') =
      rev (map (\<lambda>i. max_chunk_id st1 + of_nat i) [1..<n + 1]) @ map (c_chunk_id \<circ> chunk_tab st1) (chunks st1)" by blast
  have "[1..<Suc n + 1] = 1 # map Suc [1..<n + 1]" by (simp add: map_Suc_upt upt_conv_Cons del: upt_Suc)
  then have "rev (map (\<lambda>i. max_chunk_id st + of_nat i) [1..<Suc n + 1]) =
      rev (map (\<lambda>i. max_chunk_id st1 + of_nat i) [1..<n + 1]) @ [max_chunk_id st + 1]"
    using 1(4) by (simp add: comp_def ac_simps)
  with IH 1 show ?case by (simp add: comp_def del: upt_Suc)
qed simp

text \<open>Entries that are not regular files, such as the directory itself and its parent, are passed over.\<close>

lemma recover_files_regular: "recover_files config junk dir es st fs s = recover_files config junk dir (filter snd es) st fs s"
proof (induction es arbitrary: st s)
  case (Cons e es)
  then show ?case by (cases e) (simp add: Let_def cong: Option.bind_cong prod.case_cong)
qed simp

text \<open>(C5) The first start: in a directory whose listing has no regular file, only entries such as the directory itself
  and its parent, \<open>spy_create_or_recover_files\<close> makes the configured number
  of chunks, with the ids 1, 2, ... in this order; every chunk file holds a valid superblock and no
  records, every chunk offers the chunk size less the superblock, and the tables satisfy their
  invariant.\<close>

theorem first_start_creates_chunks:
  assumes "script s = []" and "paths fs = Map.empty" and "\<bar>server_id config\<bar> < 2 ^ 31" and "length (data_dir config) < 460"
    and "55 \<le> chunk_size config" and "0 \<le> cfg_n_chunks config" and "cfg_n_chunks config < 2 ^ 31"
    and "\<forall>(name, regular)\<in>set es. \<not> regular"
  shows "\<exists>st fs' s'. spy_create_or_recover_files config junk (data_dir config) (Some es) empty_store fs s = Some (st, fs', s') \<and>
    chunks_ok st \<and> n_chunks st = cfg_n_chunks config \<and> writing_chunks st = [] \<and>
    map (c_chunk_id \<circ> chunk_tab st) (chunks st) = rev (map of_nat [1..<nat (cfg_n_chunks config) + 1]) \<and>
    (\<forall>a\<in>set (chunks st). avail_space (chunk_tab st a) = chunk_size config - 55 \<and>
       chunk_image (chunk_tab st a) [] (files s' (c_fd (chunk_tab st a))))"
proof -
  let ?n = "nat (cfg_n_chunks config)"
  have "fresh_chunks config empty_store fs s"
    using assms(1, 2) empty_store_ok(1) by (simp add: fresh_chunks_def) (simp add: empty_store_def)
  moreover have "unat (max_chunk_id empty_store) + ?n < 2 ^ 64" using assms(6, 7) by (simp add: empty_store_def)
  ultimately obtain st fs' s' where c: "create_chunks config ?n empty_store fs s = Some (st, fs', s')"
    "fresh_chunks config st fs' s'" "writing_chunks st = []"
    "map (c_chunk_id \<circ> chunk_tab st) (chunks st) = rev (map of_nat [1..<?n + 1])"
    using create_chunks_ok [of config empty_store fs s ?n] assms(3-5) by (auto simp: empty_store_def)
  have "length (chunks st) = ?n" using arg_cong [OF c(4), of length] by simp
  moreover have "chunks_ok st" using c(2) by (simp add: fresh_chunks_def)
  ultimately have "n_chunks st = cfg_n_chunks config" using c(3) assms(6) by (simp add: chunks_ok_def)
  moreover have "filter snd es = []" using assms(8) by (auto simp: filter_empty_conv)
  then have "spy_create_or_recover_files config junk (data_dir config) (Some es) empty_store fs s = Some (st, fs', s')"
    using c(1) recover_files_regular [of config junk "data_dir config" es empty_store fs s]
    by (simp add: spy_create_or_recover_files_def empty_store_def)
  ultimately show ?thesis using c(2-4) by (auto simp: fresh_chunks_def)
qed

theorem first_start_creates_chunks_witness:
  "\<exists>st fs' s'. spy_create_or_recover_files (spy_server_init\<lparr>server_id := 7, cfg_n_chunks := 2\<rparr>) (replicate 55 0) ''./''
      (Some [(''.'', False), (''..'', False)]) empty_store \<lparr>paths = Map.empty, next_file = 3\<rparr> (demo_disk []) = Some (st, fs', s') \<and>
    map (c_chunk_id \<circ> chunk_tab st) (chunks st) = [2, 1]"
proof -
  let ?cfg = "spy_server_init\<lparr>server_id := 7, cfg_n_chunks := 2\<rparr>"
  have "[1..<nat 2 + 1] = [1, 2]" by (simp add: upt_rec)
  then show ?thesis
    using first_start_creates_chunks [of "demo_disk []" "\<lparr>paths = Map.empty, next_file = 3\<rparr>" ?cfg "[(''.'', False), (''..'', False)]" "replicate 55 0"]
    by (auto simp: demo_disk_def spy_server_init_def DEF_CHUNK_SIZE_def)
qed

section \<open>Restart\<close>

text \<open>A chunk file of the directory: its name, descriptor, superblock state and records.\<close>

type_synonym image = "string \<times> nat \<times> spy_chunk \<times> stored list"

definition image_ok :: "spy_config \<Rightarrow> string \<Rightarrow> spy_fs \<Rightarrow> os \<Rightarrow> image \<Rightarrow> bool" where
  "image_ok config dir fs s = (\<lambda>(name, fd, c, rs).
     spy_check_filename_format config name = 0 \<and> length (dir @ ''/'' @ name) < 512 \<and>
     paths fs (dir @ ''/'' @ name) = Some fd \<and> chunk_image c rs (files s fd) \<and> unat (current_offset c) < 2 ^ 31)"

definition image_found :: "string \<Rightarrow> os \<Rightarrow> spy_store \<Rightarrow> image \<Rightarrow> bool" where
  "image_found dir s st = (\<lambda>(name, fd, c, rs). map_option (chunk_tab st) (lookup_chunk (c_chunk_id c) st) =
     Some (c\<lparr>c_fd := fd, c_path := dir @ ''/'' @ name, file_size := ucast (of_nat (length (files s fd)) :: u32)\<rparr>))"

fun image_files :: "image list \<Rightarrow> (string \<times> bool) list" where
  "image_files [] = []"
| "image_files ((name, fd, c, rs) # is) = (name, True) # image_files is"

fun image_ids :: "image list \<Rightarrow> u64 list" where
  "image_ids [] = []"
| "image_ids ((name, fd, c, rs) # is) = c_chunk_id c # image_ids is"

fun image_fids :: "image list \<Rightarrow> u64 list" where
  "image_fids [] = []"
| "image_fids ((name, fd, c, rs) # is) = map (f_fid \<circ> fst) rs @ image_fids is"

fun image_entries :: "image list \<Rightarrow> spy_file_index_entry list" where
  "image_entries [] = []"
| "image_entries ((name, fd, c, rs) # is) = stored_entries (c_chunk_id c) 55 rs @ image_entries is"

lemma find_append: "find P (xs @ ys) = (case find P xs of None \<Rightarrow> find P ys | Some x \<Rightarrow> Some x)"
  by (induction xs) auto

lemma find_fid_Some: "find (\<lambda>e. e_fid e = k) (stored_entries cid pos rs) = Some e \<Longrightarrow> k \<in> (\<lambda>r. f_fid (fst r)) ` set rs"
  by (induction rs arbitrary: pos) (auto split: if_splits)

lemma find_image_Some: "find (\<lambda>e. e_fid e = k) (image_entries imgs) = Some e \<Longrightarrow> k \<in> set (image_fids imgs)"
  by (induction imgs rule: image_entries.induct) (auto simp: find_append dest: find_fid_Some split: option.splits)

lemma recover_files_ok:
  assumes "\<forall>i\<in>set imgs. image_ok config dir fs s i" and "script s = []" and junk: "length junk = SUPERBLOCK_SIZE"
    and "index_ok (file_index st)" and "chunks_ok st" and "distinct (image_ids imgs)" and "distinct (image_fids imgs)"
    and "\<forall>cid\<in>set (image_ids imgs). lookup_chunk cid st = None"
    and "\<forall>fid\<in>set (image_fids imgs). index_lookup (file_index st) fid = None"
  shows "\<exists>st' s'. recover_files config junk dir (image_files imgs) st fs s = Some (st', s') \<and>
    index_ok (file_index st') \<and> chunks_ok st' \<and> length (chunks st') = length imgs + length (chunks st) \<and>
    writing_chunks st' = writing_chunks st \<and>
    (\<forall>k. index_lookup (file_index st') k =
       (case find (\<lambda>e. e_fid e = k) (image_entries imgs) of None \<Rightarrow> index_lookup (file_index st) k | Some e \<Rightarrow> Some e)) \<and>
    (\<forall>i\<in>set imgs. image_found dir s st' i) \<and>
    (\<forall>cid. cid \<notin> set (image_ids imgs) \<longrightarrow>
       map_option (chunk_tab st') (lookup_chunk cid st') = map_option (chunk_tab st) (lookup_chunk cid st))"
  using assms(1, 2, 4-9)
proof (induction imgs arbitrary: st s)
  case (Cons i imgs)
  obtain name fd c rs where i: "i = (name, fd, c, rs)" by (cases i)
  let ?path = "dir @ ''/'' @ name" and ?s = "s\<lparr>fpos := (fpos s)(fd := 0)\<rparr>"
  have im: "spy_check_filename_format config name = 0" "length ?path < 512" "paths fs ?path = Some fd"
    "chunk_image c rs (files ?s fd)" "unat (current_offset c) < 2 ^ 31"
    using Cons.prems(1) i by (auto simp: image_ok_def)
  have h: "script ?s = []" "fpos ?s fd = 0" "lookup_chunk (c_chunk_id c) st = None" "distinct (map (f_fid \<circ> fst) rs)"
    "\<forall>r\<in>set rs. index_lookup (file_index st) (f_fid (fst r)) = None"
    using Cons.prems(2, 5-8) i by auto
  obtain st1 s1 where 1: "spy_setup_chunk (chunk_size config) junk fd ?path st ?s = Some (st1, s1)" "files s1 = files ?s" "script s1 = []"
    "index_ok (file_index st1)" "chunks_ok st1" "writing_chunks st1 = writing_chunks st" "length (chunks st1) = Suc (length (chunks st))"
    "\<forall>k. index_lookup (file_index st1) k = (case find (\<lambda>e. e_fid e = k) (stored_entries (c_chunk_id c) 55 rs) of
        None \<Rightarrow> index_lookup (file_index st) k | Some e \<Rightarrow> Some e)"
    "\<forall>cid. map_option (chunk_tab st1) (lookup_chunk cid st1) = (if cid = c_chunk_id c
       then Some (c\<lparr>c_fd := fd, c_path := ?path, file_size := ucast (of_nat (length (files ?s fd)) :: u32)\<rparr>)
       else map_option (chunk_tab st) (lookup_chunk cid st))"
    by (rule recover_chunk [OF im(4) h(1, 2) im(5) junk Cons.prems(3, 4) h(3-5), of "chunk_size config" ?path]) auto
  have "\<forall>i\<in>set imgs. image_ok config dir fs s1 i" using Cons.prems(1) 1(2) by (auto simp: image_ok_def)
  moreover have "\<forall>cid\<in>set (image_ids imgs). lookup_chunk cid st1 = None"
  proof
    fix cid assume "cid \<in> set (image_ids imgs)"
    then have "cid \<noteq> c_chunk_id c" "lookup_chunk cid st = None" using Cons.prems(5, 7) i by auto
    then show "lookup_chunk cid st1 = None" using 1(9) [rule_format, of cid] by simp
  qed
  moreover have "\<forall>fid\<in>set (image_fids imgs). index_lookup (file_index st1) fid = None"
  proof
    fix fid assume "fid \<in> set (image_fids imgs)"
    then have "fid \<notin> (\<lambda>r. f_fid (fst r)) ` set rs" "index_lookup (file_index st) fid = None" using Cons.prems(6, 8) i by auto
    then show "index_lookup (file_index st1) fid = None"
      using 1(8) find_fid_Some [of fid "c_chunk_id c" 55 rs] by (auto split: option.splits)
  qed
  ultimately obtain st' s' where IH: "recover_files config junk dir (image_files imgs) st1 fs s1 = Some (st', s')"
    "index_ok (file_index st')" "chunks_ok st'" "length (chunks st') = length imgs + length (chunks st1)"
    "writing_chunks st' = writing_chunks st1"
    "\<forall>k. index_lookup (file_index st') k =
       (case find (\<lambda>e. e_fid e = k) (image_entries imgs) of None \<Rightarrow> index_lookup (file_index st1) k | Some e \<Rightarrow> Some e)"
    "\<forall>i\<in>set imgs. image_found dir s1 st' i"
    "\<forall>cid. cid \<notin> set (image_ids imgs) \<longrightarrow>
       map_option (chunk_tab st') (lookup_chunk cid st') = map_option (chunk_tab st1) (lookup_chunk cid st1)"
    using Cons.IH [of s1 st1] 1(3-5) Cons.prems(5, 6) by (auto simp: i)
  have "recover_files config junk dir (image_files (i # imgs)) st fs s = Some (st', s')"
    using im(1-3) 1(1) IH(1) by (simp add: i)
  moreover have "index_lookup (file_index st') k = (case find (\<lambda>e. e_fid e = k) (image_entries (i # imgs)) of
      None \<Rightarrow> index_lookup (file_index st) k | Some e \<Rightarrow> Some e)" for k
  proof (cases "find (\<lambda>e. e_fid e = k) (image_entries imgs)")
    case None
    then show ?thesis using IH(6) 1(8) by (simp add: i find_append split: option.split)
  next
    case (Some e)
    then have "k \<notin> (\<lambda>r. f_fid (fst r)) ` set rs" using find_image_Some Cons.prems(6) by (auto simp: i)
    then have "find (\<lambda>e. e_fid e = k) (stored_entries (c_chunk_id c) 55 rs) = None"
      using find_fid_Some [of k "c_chunk_id c" 55 rs] by (cases "find (\<lambda>e. e_fid e = k) (stored_entries (c_chunk_id c) 55 rs)") auto
    then show ?thesis using Some IH(6) by (simp add: i find_append)
  qed
  moreover have "image_found dir s st' i"
    using IH(8) [rule_format, of "c_chunk_id c"] 1(9) Cons.prems(5) by (simp add: i image_found_def)
  moreover have "image_found dir s st' j" if "j \<in> set imgs" for j
    using IH(7) that 1(2) by (auto simp: image_found_def)
  ultimately show ?case using IH(2-5, 8) 1(6, 7, 9) by (auto simp: i)
qed simp

text \<open>(C4) A restart recovers the whole directory: when every regular file of the listing is a chunk file of this group
  that is an image of some records, among entries of other kinds such as the directory itself, all chunk ids are different and all file ids are different,
  \<open>spy_create_or_recover_files\<close> succeeds and creates nothing; there is one chunk per file, with the state of
  its superblock and its own descriptor and path, and the file index finds exactly the records of all
  images, each with its chunk, offset and size.\<close>

theorem restart_recovers_directory:
  assumes "\<forall>i\<in>set imgs. image_ok config dir fs s i" and "imgs \<noteq> []" and "script s = []" and "length junk = SUPERBLOCK_SIZE"
    and "distinct (image_ids imgs)" and "distinct (image_fids imgs)" and "filter snd es = image_files imgs"
  shows "\<exists>st s'. spy_create_or_recover_files config junk dir (Some es) empty_store fs s = Some (st, fs, s') \<and>
    index_ok (file_index st) \<and> chunks_ok st \<and> n_chunks st = int (length imgs) \<and>
    (\<forall>k. fst (spy_lookup_file_index k st) = find (\<lambda>e. e_fid e = k) (image_entries imgs)) \<and>
    (\<forall>i\<in>set imgs. image_found dir s st i)"
proof -
  have e: "index_lookup (file_index empty_store) k = None" "lookup_chunk cid empty_store = None"
    "chunks empty_store = []" "writing_chunks empty_store = []" for k cid
    by (simp_all add: index_lookup_def lookup_chunk_def empty_store_def)
  obtain st s' where r: "recover_files config junk dir (image_files imgs) empty_store fs s = Some (st, s')"
    "index_ok (file_index st)" "chunks_ok st" "length (chunks st) = length imgs" "writing_chunks st = []"
    "\<forall>k. index_lookup (file_index st) k = (case find (\<lambda>e. e_fid e = k) (image_entries imgs) of
        None \<Rightarrow> index_lookup (file_index empty_store) k | Some e \<Rightarrow> Some e)"
    "\<forall>i\<in>set imgs. image_found dir s st i"
    using recover_files_ok [OF assms(1, 3, 4) empty_store_ok(2, 1) assms(5, 6)] e by auto
  have "n_chunks st = int (length imgs)" using r(3-5) by (simp add: chunks_ok_def)
  moreover have "chunks st \<noteq> []" using r(4) assms(2) by auto
  ultimately show ?thesis
    using r e(1) recover_files_regular [of config junk dir es empty_store fs s] assms(7)
    by (auto simp: spy_create_or_recover_files_def spy_lookup_file_index_def split: option.split)
qed

theorem restart_recovers_directory_witness:
  "\<exists>name fs st s'. image_ok (spy_server_init\<lparr>server_id := 7\<rparr>) ''d'' fs (demo_disk []) (name, 3, demo_chunk0, []) \<and>
     spy_create_or_recover_files (spy_server_init\<lparr>server_id := 7\<rparr>) (replicate 55 0) ''d''
       (Some [(''.'', False), (name, True), (''..'', False)]) empty_store fs (demo_disk []) = Some (st, fs, s') \<and> n_chunks st = 1"
proof -
  let ?cfg = "spy_server_init\<lparr>server_id := 7\<rparr>" and ?name = "chunk_filename 7 7"
  let ?fs = "\<lparr>paths = [''d/'' @ ?name \<mapsto> 3], next_file = 4\<rparr>"
  have "length ?name \<le> 44" by (rule length_chunk_filename) simp
  moreover have "spy_check_filename_format ?cfg ?name = 0"
    using scan_chunk_name [of 7 ?cfg "unat (7 :: u64)" "''.chunk''"] by (simp add: chunk_filename_def)
  ultimately have ok: "image_ok ?cfg ''d'' ?fs (demo_disk []) (?name, 3, demo_chunk0, [])"
    using demo_image [of "[]" 3] by (simp add: image_ok_def)
  have "\<exists>st s'. spy_create_or_recover_files ?cfg (replicate 55 0) ''d'' (Some [(''.'', False), (?name, True), (''..'', False)])
       empty_store ?fs (demo_disk []) = Some (st, ?fs, s') \<and> n_chunks st = 1"
    using restart_recovers_directory [of "[(?name, 3, demo_chunk0, [])]" ?cfg "''d''" ?fs "demo_disk []" "replicate 55 0"
        "[(''.'', False), (?name, True), (''..'', False)]"] ok
    by (auto simp: demo_disk_def)
  with ok show ?thesis by fastforce
qed

end
