(* ===== verification/Spy_Event.thy ===== *)
theory Spy_Event
  imports Spy_Prelude
begin

text \<open>
  The event loop of \<^verbatim>\<open>spy_event.c\<close> with its epoll layer \<^verbatim>\<open>spy_event_epoll.c\<close>: registration of file events, time
  events, and one round of the loop. A program that uses it extends the record \<open>aeEventLoop\<close> by its own
  state; its callbacks, named by values of \<open>'p\<close>, are functions on the extended record.
\<close>

section \<open>State\<close>

definition AE_OK :: int where "AE_OK = 0"
definition AE_ERR :: int where "AE_ERR = - 1"
definition AE_NONE :: u32 where "AE_NONE = 0"
definition AE_READABLE :: u32 where "AE_READABLE = 1"
definition AE_WRITABLE :: u32 where "AE_WRITABLE = 2"
definition AE_FILE_EVENTS :: u32 where "AE_FILE_EVENTS = 1"
definition AE_TIME_EVENTS :: u32 where "AE_TIME_EVENTS = 2"
definition AE_ALL_EVENTS :: u32 where "AE_ALL_EVENTS = AE_FILE_EVENTS OR AE_TIME_EVENTS"
definition AE_DONT_WAIT :: u32 where "AE_DONT_WAIT = 4"
definition AE_NOMORE :: int where "AE_NOMORE = - 1"

text \<open>The bits of \<open>epoll\<close> and \<open>poll\<close>, which have the same values.\<close>

definition EPOLLIN :: u32 where "EPOLLIN = 1"
definition EPOLLOUT :: u32 where "EPOLLOUT = 4"
definition EPOLLERR :: u32 where "EPOLLERR = 8"
definition EPOLLHUP :: u32 where "EPOLLHUP = 16"

lemmas mask_defs = AE_NONE_def AE_READABLE_def AE_WRITABLE_def AE_FILE_EVENTS_def AE_TIME_EVENTS_def
  AE_ALL_EVENTS_def AE_DONT_WAIT_def EPOLLIN_def EPOLLOUT_def EPOLLERR_def EPOLLHUP_def

record ('p, 'd) aeFileEvent =
  fe_mask :: u32
  rfileProc :: "'p option"
  wfileProc :: "'p option"
  clientData :: "'d option"

record ('p, 'd) aeTimeEvent =
  te_id :: int
  when_sec :: int
  when_ms :: int
  timeProc :: 'p
  finalizerProc :: "'p option"
  te_clientData :: 'd

text \<open>
  \<open>events\<close> is the array indexed by descriptors and \<open>timeEvents\<close> the list that starts at \<open>timeEventHead\<close>. The last
  four fields are the operating system: \<open>epset\<close> the interest set of the epoll instance (\<open>apidata\<close>), \<open>ctl_ok\<close>
  whether the next additions to it succeed (all of them when the list is used up), \<open>now\<close> the clock in seconds
  and milliseconds and \<open>later\<close> the readings it will give next.
\<close>

record ('p, 'd) aeEventLoop =
  maxfd :: int
  setsize :: nat
  timeEventNextId :: int
  lastTime :: int
  events :: "nat \<Rightarrow> ('p, 'd) aeFileEvent"
  fired :: "(nat \<times> u32) list"
  timeEvents :: "('p, 'd) aeTimeEvent list"
  stop :: bool
  beforesleep :: "'p option"
  epset :: "nat \<Rightarrow> u32 option"
  ctl_ok :: "bool list"
  now :: "int \<times> int"
  later :: "(int \<times> int) list"

text \<open>What the names of the callbacks stand for.\<close>

record ('p, 'd, 's) procs =
  file_proc :: "'p \<Rightarrow> nat \<Rightarrow> 'd option \<Rightarrow> u32 \<Rightarrow> 's \<Rightarrow> 's option"
  time_proc :: "'p \<Rightarrow> int \<Rightarrow> 'd \<Rightarrow> 's \<Rightarrow> (int \<times> 's) option"
  final_proc :: "'p \<Rightarrow> 'd \<Rightarrow> 's \<Rightarrow> 's option"
  sleep_proc :: "'p \<Rightarrow> 's \<Rightarrow> 's option"

section \<open>The epoll layer\<close>

datatype epoll_op = EPOLL_CTL_ADD | EPOLL_CTL_MOD | EPOLL_CTL_DEL

definition epoll_ctl :: "epoll_op \<Rightarrow> nat \<Rightarrow> u32 \<Rightarrow> ('p, 'd, 'z) aeEventLoop_scheme \<Rightarrow> int \<times> ('p, 'd, 'z) aeEventLoop_scheme" where
  "epoll_ctl opr fd ev el =
     (case opr of
        EPOLL_CTL_ADD \<Rightarrow>
          if epset el fd \<noteq> None then (- 1, el)
          else (case ctl_ok el of
              False # oks \<Rightarrow> (- 1, el\<lparr>ctl_ok := oks\<rparr>)
            | _ \<Rightarrow> (0, el\<lparr>ctl_ok := tl (ctl_ok el), epset := (epset el)(fd := Some ev)\<rparr>))
      | EPOLL_CTL_MOD \<Rightarrow>
          if epset el fd = None then (- 1, el) else (0, el\<lparr>epset := (epset el)(fd := Some ev)\<rparr>)
      | EPOLL_CTL_DEL \<Rightarrow>
          if epset el fd = None then (- 1, el) else (0, el\<lparr>epset := (epset el)(fd := None)\<rparr>))"

text \<open>Closing a descriptor takes it out of the interest set.\<close>

definition sys_close :: "nat \<Rightarrow> ('p, 'd, 'z) aeEventLoop_scheme \<Rightarrow> ('p, 'd, 'z) aeEventLoop_scheme" where
  "sys_close fd el = el\<lparr>epset := (epset el)(fd := None)\<rparr>"

definition ep_events :: "u32 \<Rightarrow> u32" where
  "ep_events m = (if m AND AE_READABLE \<noteq> 0 then EPOLLIN else 0) OR (if m AND AE_WRITABLE \<noteq> 0 then EPOLLOUT else 0)"

text \<open>\<open>avail\<close> allocations succeed, \<open>epoll\<close> tells whether \<open>epoll_create\<close> does.\<close>

definition aeApiCreate :: "nat \<Rightarrow> bool \<Rightarrow> int" where
  "aeApiCreate avail epoll =
     (if avail < 1 then - 1
      else if avail < 2 then - 1
      else if \<not> epoll then - 1 else 0)"

definition aeApiAddEvent :: "nat \<Rightarrow> u32 \<Rightarrow> ('p, 'd, 'z) aeEventLoop_scheme \<Rightarrow> int \<times> ('p, 'd, 'z) aeEventLoop_scheme" where
  "aeApiAddEvent fd msk el =
     (let opr = (if fe_mask (events el fd) = AE_NONE then EPOLL_CTL_ADD else EPOLL_CTL_MOD);
          msk = msk OR fe_mask (events el fd);
          (r, el) = epoll_ctl opr fd (ep_events msk) el
      in if r = - 1 then (- 1, el) else (0, el))"

definition aeApiDelEvent :: "nat \<Rightarrow> u32 \<Rightarrow> ('p, 'd, 'z) aeEventLoop_scheme \<Rightarrow> ('p, 'd, 'z) aeEventLoop_scheme" where
  "aeApiDelEvent fd delmask el =
     (let msk = fe_mask (events el fd) AND NOT delmask
      in if msk \<noteq> AE_NONE then snd (epoll_ctl EPOLL_CTL_MOD fd (ep_events msk) el)
         else snd (epoll_ctl EPOLL_CTL_DEL fd (ep_events msk) el))"

definition fired_mask :: "u32 \<Rightarrow> u32" where
  "fired_mask e =
     (if e AND EPOLLIN \<noteq> 0 then AE_READABLE else 0) OR (if e AND EPOLLOUT \<noteq> 0 then AE_WRITABLE else 0) OR
     (if e AND EPOLLERR \<noteq> 0 then AE_WRITABLE else 0) OR (if e AND EPOLLHUP \<noteq> 0 then AE_WRITABLE else 0)"

text \<open>The timeout given to \<open>epoll_wait\<close>, an \<open>int\<close> number of milliseconds.\<close>

definition poll_timeout :: "(int \<times> int) option \<Rightarrow> int" where
  "poll_timeout tvp = (case tvp of Some (tv_sec, tv_usec) \<Rightarrow> i32 (tv_sec * 1000 + tv_usec div 1000) | None \<Rightarrow> - 1)"

text \<open>\<open>ready\<close> is what \<open>epoll_wait\<close> reports for that timeout: descriptors with their event bits, nothing when it fails.\<close>

definition aeApiPoll ::
    "(int \<Rightarrow> (nat \<times> u32) list) \<Rightarrow> (int \<times> int) option \<Rightarrow> ('p, 'd, 'z) aeEventLoop_scheme \<Rightarrow> ('p, 'd, 'z) aeEventLoop_scheme" where
  "aeApiPoll ready tvp el = el\<lparr>fired := map (\<lambda>(fd, e). (fd, fired_mask e)) (ready (poll_timeout tvp))\<rparr>"

section \<open>File events\<close>

text \<open>A null pointer is \<open>None\<close>; entries of the new array other than the masks are not set.\<close>

definition aeCreateEventLoop :: "nat \<Rightarrow> bool \<Rightarrow> int \<times> int \<Rightarrow> nat \<Rightarrow> ('p, 'd) aeEventLoop option" where
  "aeCreateEventLoop avail epoll time0 sz =
     (if avail < 1 then None
      else if avail < 3 then None
      else if aeApiCreate (avail - 3) epoll = - 1 then None
      else Some \<lparr>maxfd = - 1, setsize = sz, timeEventNextId = 0, lastTime = fst time0,
        events = (\<lambda>_. \<lparr>fe_mask = AE_NONE, rfileProc = None, wfileProc = None, clientData = None\<rparr>),
        fired = [], timeEvents = [], stop = False, beforesleep = None,
        epset = (\<lambda>_. None), ctl_ok = [], now = time0, later = []\<rparr>)"

definition aeGetSetSize :: "('p, 'd, 'z) aeEventLoop_scheme \<Rightarrow> nat" where
  "aeGetSetSize el = setsize el"

definition clear_slots :: "int \<Rightarrow> nat \<Rightarrow> (nat \<Rightarrow> ('p, 'd) aeFileEvent) \<Rightarrow> nat \<Rightarrow> ('p, 'd) aeFileEvent" where
  "clear_slots lo hi ev = (\<lambda>i. if lo \<le> int i \<and> i < hi then (ev i)\<lparr>fe_mask := AE_NONE\<rparr> else ev i)"

definition aeResizeSetSize :: "nat \<Rightarrow> ('p, 'd, 'z) aeEventLoop_scheme \<Rightarrow> int \<times> ('p, 'd, 'z) aeEventLoop_scheme" where
  "aeResizeSetSize sz el =
     (if sz = setsize el then (AE_OK, el)
      else if maxfd el \<ge> int sz then (AE_ERR, el)
      else (AE_OK, el\<lparr>setsize := sz, events := clear_slots (maxfd el + 1) sz (events el)\<rparr>))"

definition aeStop :: "('p, 'd, 'z) aeEventLoop_scheme \<Rightarrow> ('p, 'd, 'z) aeEventLoop_scheme" where
  "aeStop el = el\<lparr>stop := True\<rparr>"

definition aeSetBeforeSleepProc :: "'p option \<Rightarrow> ('p, 'd, 'z) aeEventLoop_scheme \<Rightarrow> ('p, 'd, 'z) aeEventLoop_scheme" where
  "aeSetBeforeSleepProc p el = el\<lparr>beforesleep := p\<rparr>"

definition aeCreateFileEvent ::
    "nat \<Rightarrow> u32 \<Rightarrow> 'p \<Rightarrow> 'd option \<Rightarrow> ('p, 'd, 'z) aeEventLoop_scheme \<Rightarrow> int \<times> ('p, 'd, 'z) aeEventLoop_scheme" where
  "aeCreateFileEvent fd msk p data el =
     (if fd \<ge> setsize el then (AE_ERR, el)
      else case aeApiAddEvent fd msk el of (r, el) \<Rightarrow>
        if r = - 1 then (AE_ERR, el)
        else
          let fe = events el fd;
              fe = fe\<lparr>fe_mask := fe_mask fe OR msk\<rparr>;
              fe = (if msk AND AE_READABLE \<noteq> 0 then fe\<lparr>rfileProc := Some p\<rparr> else fe);
              fe = (if msk AND AE_WRITABLE \<noteq> 0 then fe\<lparr>wfileProc := Some p\<rparr> else fe);
              fe = fe\<lparr>clientData := data\<rparr>
          in (AE_OK, el\<lparr>events := (events el)(fd := fe), maxfd := (if int fd > maxfd el then int fd else maxfd el)\<rparr>))"

text \<open>The loop that looks for the next lower descriptor in use, from \<open>n - 1\<close> downwards.\<close>

fun max_used :: "(nat \<Rightarrow> ('p, 'd) aeFileEvent) \<Rightarrow> nat \<Rightarrow> int" where
  "max_used ev 0 = - 1"
| "max_used ev (Suc j) = (if fe_mask (ev j) \<noteq> AE_NONE then int j else max_used ev j)"

definition aeDeleteFileEvent :: "nat \<Rightarrow> u32 \<Rightarrow> ('p, 'd, 'z) aeEventLoop_scheme \<Rightarrow> ('p, 'd, 'z) aeEventLoop_scheme" where
  "aeDeleteFileEvent fd msk el =
     (if fd \<ge> setsize el then el
      else if fe_mask (events el fd) = AE_NONE then el
      else
        let fe = (events el fd)\<lparr>fe_mask := fe_mask (events el fd) AND NOT msk\<rparr>;
            el = el\<lparr>events := (events el)(fd := fe)\<rparr>;
            el = (if int fd = maxfd el \<and> fe_mask fe = AE_NONE
              then el\<lparr>maxfd := max_used (events el) (nat (maxfd el))\<rparr> else el)
        in aeApiDelEvent fd msk el)"

definition aeGetFileEvents :: "nat \<Rightarrow> ('p, 'd, 'z) aeEventLoop_scheme \<Rightarrow> u32" where
  "aeGetFileEvents fd el = (if fd \<ge> setsize el then 0 else fe_mask (events el fd))"

section \<open>Time events\<close>

definition aeGetTime :: "('p, 'd, 'z) aeEventLoop_scheme \<Rightarrow> (int \<times> int) \<times> ('p, 'd, 'z) aeEventLoop_scheme" where
  "aeGetTime el = (case later el of [] \<Rightarrow> (now el, el) | t # ts \<Rightarrow> (t, el\<lparr>now := t, later := ts\<rparr>))"

text \<open>C's division and remainder of the milliseconds truncate towards zero.\<close>

definition add_ms :: "int \<Rightarrow> int \<times> int \<Rightarrow> int \<times> int" where
  "add_ms ms = (\<lambda>(cur_sec, cur_ms).
     let s = cur_sec + sgn ms * (\<bar>ms\<bar> div 1000); m = cur_ms + sgn ms * (\<bar>ms\<bar> mod 1000)
     in if m \<ge> 1000 then (s + 1, m - 1000) else (s, m))"

definition aeAddMillisecondsToNow :: "int \<Rightarrow> ('p, 'd, 'z) aeEventLoop_scheme \<Rightarrow> (int \<times> int) \<times> ('p, 'd, 'z) aeEventLoop_scheme" where
  "aeAddMillisecondsToNow ms el = (let (t, el) = aeGetTime el in (add_ms ms t, el))"

text \<open>\<open>mem\<close> tells whether the allocation succeeds.\<close>

definition aeCreateTimeEvent ::
    "bool \<Rightarrow> int \<Rightarrow> 'p \<Rightarrow> 'd \<Rightarrow> 'p option \<Rightarrow> ('p, 'd, 'z) aeEventLoop_scheme \<Rightarrow> int \<times> ('p, 'd, 'z) aeEventLoop_scheme" where
  "aeCreateTimeEvent mem ms p data fin el =
     (let i = timeEventNextId el; el = el\<lparr>timeEventNextId := i + 1\<rparr>
      in if \<not> mem then (AE_ERR, el)
         else let (w, el) = aeAddMillisecondsToNow ms el;
                  te = \<lparr>te_id = i, when_sec = fst w, when_ms = snd w, timeProc = p, finalizerProc = fin, te_clientData = data\<rparr>
              in (i, el\<lparr>timeEvents := te # timeEvents el\<rparr>))"

fun unlink_time :: "int \<Rightarrow> ('p, 'd) aeTimeEvent list \<Rightarrow> (('p, 'd) aeTimeEvent \<times> ('p, 'd) aeTimeEvent list) option" where
  "unlink_time i [] = None"
| "unlink_time i (te # tes) =
     (if te_id te = i then Some (te, tes)
      else case unlink_time i tes of None \<Rightarrow> None | Some (x, xs) \<Rightarrow> Some (x, te # xs))"

definition aeDeleteTimeEvent ::
    "('p, 'd, ('p, 'd, 'z) aeEventLoop_scheme) procs \<Rightarrow> int \<Rightarrow> ('p, 'd, 'z) aeEventLoop_scheme \<Rightarrow>
     (int \<times> ('p, 'd, 'z) aeEventLoop_scheme) option" where
  "aeDeleteTimeEvent code i el =
     (case unlink_time i (timeEvents el) of
        None \<Rightarrow> Some (AE_ERR, el)
      | Some (te, tes) \<Rightarrow> do {
          el \<leftarrow> (case finalizerProc te of None \<Rightarrow> Some (el\<lparr>timeEvents := tes\<rparr>)
                | Some p \<Rightarrow> final_proc code p (te_clientData te) (el\<lparr>timeEvents := tes\<rparr>));
          Some (AE_OK, el)
        })"

definition earlier :: "int \<times> int \<Rightarrow> int \<times> int \<Rightarrow> bool" where
  "earlier = (\<lambda>(s1, m1) (s2, m2). s1 < s2 \<or> s1 = s2 \<and> m1 < m2)"

definition due :: "('p, 'd) aeTimeEvent \<Rightarrow> int \<times> int" where
  "due te = (when_sec te, when_ms te)"

fun nearest_loop :: "('p, 'd) aeTimeEvent option \<Rightarrow> ('p, 'd) aeTimeEvent list \<Rightarrow> ('p, 'd) aeTimeEvent option" where
  "nearest_loop nearest [] = nearest"
| "nearest_loop nearest (te # tes) =
     nearest_loop (case nearest of None \<Rightarrow> Some te | Some n \<Rightarrow> if earlier (due te) (due n) then Some te else Some n) tes"

definition aeSearchNearestTimer :: "('p, 'd, 'z) aeEventLoop_scheme \<Rightarrow> ('p, 'd) aeTimeEvent option" where
  "aeSearchNearestTimer el = nearest_loop None (timeEvents el)"

text \<open>The event is written through the pointer \<open>te\<close> after its callback returned: it must still be there.\<close>

definition reschedule ::
    "int \<Rightarrow> int \<Rightarrow> ('p, 'd, 'z) aeEventLoop_scheme \<Rightarrow> ('p, 'd, 'z) aeEventLoop_scheme option" where
  "reschedule i ms el =
     (if i \<notin> te_id ` set (timeEvents el) then None
      else let (w, el) = aeAddMillisecondsToNow ms el
           in Some (el\<lparr>timeEvents := map (\<lambda>te. if te_id te = i then te\<lparr>when_sec := fst w, when_ms := snd w\<rparr> else te)
                (timeEvents el)\<rparr>))"

text \<open>
  The loop over the time events; \<open>te\<close> is the rest of the list at the loop's pointer. It starts again at the head
  after every callback, so it may run for ever, and is then undefined.
\<close>

partial_function (option) time_loop ::
    "('p, 'd, ('p, 'd, 'z) aeEventLoop_scheme) procs \<Rightarrow> int \<Rightarrow> ('p, 'd) aeTimeEvent list \<Rightarrow> nat \<Rightarrow>
     ('p, 'd, 'z) aeEventLoop_scheme \<Rightarrow> (nat \<times> ('p, 'd, 'z) aeEventLoop_scheme) option" where
  "time_loop code maxId tes processed el =
     (case tes of [] \<Rightarrow> Some (processed, el)
      | te # rest \<Rightarrow>
          if te_id te > maxId then time_loop code maxId rest processed el
          else
            (case aeGetTime el of (t, el) \<Rightarrow>
               if earlier t (due te) then time_loop code maxId rest processed el
               else
                 Option.bind (time_proc code (timeProc te) (te_id te) (te_clientData te) el) (\<lambda>(retval, el).
                 Option.bind
                   (if retval \<noteq> AE_NOMORE then reschedule (te_id te) retval el
                    else map_option snd (aeDeleteTimeEvent code (te_id te) el)) (\<lambda>el.
                 time_loop code maxId (timeEvents el) (processed + 1) el))))"

definition processTimeEvents ::
    "('p, 'd, ('p, 'd, 'z) aeEventLoop_scheme) procs \<Rightarrow> ('p, 'd, 'z) aeEventLoop_scheme \<Rightarrow>
     (nat \<times> ('p, 'd, 'z) aeEventLoop_scheme) option" where
  "processTimeEvents code el =
     (let (t, el) = aeGetTime el;
          el = (if fst t < lastTime el then el\<lparr>timeEvents := map (\<lambda>te. te\<lparr>when_sec := 0\<rparr>) (timeEvents el)\<rparr> else el);
          el = el\<lparr>lastTime := fst t\<rparr>
      in time_loop code (timeEventNextId el - 1) (timeEvents el) 0 el)"

section \<open>One round\<close>

text \<open>The handlers of one fired descriptor; the mask is read again before the second one.\<close>

definition process_fired ::
    "('p, 'd, ('p, 'd, 'z) aeEventLoop_scheme) procs \<Rightarrow> nat \<Rightarrow> u32 \<Rightarrow> ('p, 'd, 'z) aeEventLoop_scheme \<Rightarrow>
     ('p, 'd, 'z) aeEventLoop_scheme option" where
  "process_fired code fd msk el = do {
     (rfired, el) \<leftarrow>
       (if fe_mask (events el fd) AND msk AND AE_READABLE \<noteq> 0 then do {
          p \<leftarrow> rfileProc (events el fd);
          el \<leftarrow> file_proc code p fd (clientData (events el fd)) msk el;
          Some (True, el)
        } else Some (False, el));
     if fe_mask (events el fd) AND msk AND AE_WRITABLE \<noteq> 0 then do {
       p \<leftarrow> wfileProc (events el fd);
       if \<not> rfired \<or> Some p \<noteq> rfileProc (events el fd)
       then file_proc code p fd (clientData (events el fd)) msk el
       else Some el
     } else Some el
   }"

fun process_all ::
    "('p, 'd, ('p, 'd, 'z) aeEventLoop_scheme) procs \<Rightarrow> (nat \<times> u32) list \<Rightarrow> ('p, 'd, 'z) aeEventLoop_scheme \<Rightarrow>
     ('p, 'd, 'z) aeEventLoop_scheme option" where
  "process_all code [] el = Some el"
| "process_all code ((fd, msk) # fs) el = do { el \<leftarrow> process_fired code fd msk el; process_all code fs el }"

text \<open>The time missing for the nearest timer, as seconds and microseconds.\<close>

definition time_missing :: "int \<times> int \<Rightarrow> int \<times> int \<Rightarrow> int \<times> int" where
  "time_missing = (\<lambda>(w_sec, w_ms) (now_sec, now_ms).
     let tv_sec = w_sec - now_sec;
         (tv_sec, tv_usec) = (if w_ms < now_ms then (tv_sec - 1, (w_ms + 1000 - now_ms) * 1000)
                              else (tv_sec, (w_ms - now_ms) * 1000))
     in (if tv_sec < 0 then 0 else tv_sec, if tv_usec < 0 then 0 else tv_usec))"

definition poll_time :: "u32 \<Rightarrow> ('p, 'd, 'z) aeEventLoop_scheme \<Rightarrow> (int \<times> int) option \<times> ('p, 'd, 'z) aeEventLoop_scheme" where
  "poll_time flags el =
     (let shortest = (if flags AND AE_TIME_EVENTS \<noteq> 0 \<and> flags AND AE_DONT_WAIT = 0 then aeSearchNearestTimer el else None)
      in case shortest of
           Some te \<Rightarrow> (let (t, el) = aeGetTime el in (Some (time_missing (due te) t), el))
         | None \<Rightarrow> (if flags AND AE_DONT_WAIT \<noteq> 0 then Some (0, 0) else None, el))"

definition aeProcessEvents ::
    "('p, 'd, ('p, 'd, 'z) aeEventLoop_scheme) procs \<Rightarrow> (int \<Rightarrow> (nat \<times> u32) list) \<Rightarrow> u32 \<Rightarrow>
     ('p, 'd, 'z) aeEventLoop_scheme \<Rightarrow> (nat \<times> ('p, 'd, 'z) aeEventLoop_scheme) option" where
  "aeProcessEvents code ready flags el =
     (if flags AND AE_TIME_EVENTS = 0 \<and> flags AND AE_FILE_EVENTS = 0 then Some (0, el)
      else do {
        (processed, el) \<leftarrow>
          (if maxfd el \<noteq> - 1 \<or> flags AND AE_TIME_EVENTS \<noteq> 0 \<and> flags AND AE_DONT_WAIT = 0 then do {
             let (tvp, el) = poll_time flags el;
             let el = aeApiPoll ready tvp el;
             let n = length (fired el);
             el \<leftarrow> process_all code (fired el) el;
             Some (n, el)
           } else Some (0, el));
        if flags AND AE_TIME_EVENTS \<noteq> 0 then do {
          (k, el) \<leftarrow> processTimeEvents code el;
          Some (processed + k, el)
        } else Some (processed, el)
      })"

text \<open>\<open>aeMain\<close> on the first rounds of a run, one list of ready descriptors for each.\<close>

fun main_loop ::
    "('p, 'd, ('p, 'd, 'z) aeEventLoop_scheme) procs \<Rightarrow> (int \<Rightarrow> (nat \<times> u32) list) list \<Rightarrow>
     ('p, 'd, 'z) aeEventLoop_scheme \<Rightarrow> ('p, 'd, 'z) aeEventLoop_scheme option" where
  "main_loop code [] el = Some el"
| "main_loop code (r # rs) el =
     (if stop el then Some el
      else do {
        el \<leftarrow> (case beforesleep el of None \<Rightarrow> Some el | Some p \<Rightarrow> sleep_proc code p el);
        (_, el) \<leftarrow> aeProcessEvents code r AE_ALL_EVENTS el;
        main_loop code rs el
      })"

definition aeMain ::
    "('p, 'd, ('p, 'd, 'z) aeEventLoop_scheme) procs \<Rightarrow> (int \<Rightarrow> (nat \<times> u32) list) list \<Rightarrow>
     ('p, 'd, 'z) aeEventLoop_scheme \<Rightarrow> ('p, 'd, 'z) aeEventLoop_scheme option" where
  "aeMain code rounds el = main_loop code rounds (el\<lparr>stop := False\<rparr>)"

text \<open>\<open>aeWait\<close>: the events asked of \<open>poll\<close>, and the result from what it returns.\<close>

definition aeWait :: "u32 \<Rightarrow> (u32 \<Rightarrow> int \<times> u32) \<Rightarrow> int" where
  "aeWait msk poll =
     (let evs = (if msk AND AE_READABLE \<noteq> 0 then EPOLLIN else 0) OR (if msk AND AE_WRITABLE \<noteq> 0 then EPOLLOUT else 0);
          (retval, revents) = poll evs
      in if retval = 1 then uint (fired_mask revents) else retval)"

section \<open>Registrations\<close>

text \<open>
  The interest set of the kernel is what the masks say, no descriptor above the array is registered, and \<open>maxfd\<close> is
  the highest registered descriptor.
\<close>

definition loop_ok :: "('p, 'd, 'z) aeEventLoop_scheme \<Rightarrow> bool" where
  "loop_ok el \<longleftrightarrow>
     (\<forall>fd. fe_mask (events el fd) \<in> {0, 1, 2, 3}) \<and>
     (\<forall>fd. epset el fd = (if fd < setsize el \<and> fe_mask (events el fd) \<noteq> AE_NONE then Some (ep_events (fe_mask (events el fd))) else None)) \<and>
     maxfd el = max_used (events el) (setsize el)"

text \<open>\<open>max_used\<close> is the highest descriptor below the bound with a mask.\<close>

lemma max_used_cases:
  obtains "max_used ev n = - 1" "\<forall>j<n. fe_mask (ev j) = AE_NONE"
  | j where "max_used ev n = int j" "j < n" "fe_mask (ev j) \<noteq> AE_NONE" "\<forall>i. j < i \<and> i < n \<longrightarrow> fe_mask (ev i) = AE_NONE"
proof (induction n arbitrary: thesis)
  case (Suc n)
  show ?case
  proof (cases "fe_mask (ev n) = AE_NONE")
    case True
    from Suc.IH show ?thesis
    proof (cases rule: Suc.IH)
      case 1
      then show ?thesis using True Suc.prems(1) by (auto simp: less_Suc_eq)
    next
      case (2 j)
      then show ?thesis using True Suc.prems(2) [of j] by (auto simp: less_Suc_eq)
    qed
  next
    case False
    then show ?thesis by (intro Suc.prems(2) [of n]) auto
  qed
qed simp

lemma max_used_eqI:
  assumes "j < n" "fe_mask (ev j) \<noteq> AE_NONE" "\<forall>i. j < i \<and> i < n \<longrightarrow> fe_mask (ev i) = AE_NONE"
  shows "max_used ev n = int j"
  using assms
proof (cases rule: max_used_cases [of ev n])
  case (2 k)
  with assms have "j = k" by (cases j k rule: linorder_cases) auto
  with 2 show ?thesis by simp
qed auto

lemma max_used_none: "\<forall>j<n. fe_mask (ev j) = AE_NONE \<Longrightarrow> max_used ev n = - 1"
  by (induction n) auto

lemma max_used_cut:
  assumes "m \<le> n" "\<forall>i. m \<le> i \<and> i < n \<longrightarrow> fe_mask (ev i) = AE_NONE"
  shows "max_used ev n = max_used ev m"
  using assms by (induction n rule: dec_induct) auto

lemma max_used_cong: "(\<And>j. j < n \<Longrightarrow> fe_mask (ev j) = fe_mask (ev' j)) \<Longrightarrow> max_used ev n = max_used ev' n"
  by (induction n) auto

lemma max_used_add:
  assumes "fd < n" "fe_mask fe \<noteq> AE_NONE"
  shows "max_used (ev(fd := fe)) n = max (int fd) (max_used ev n)"
proof (cases rule: max_used_cases [of ev n])
  case 1
  then show ?thesis using assms by (auto intro!: max_used_eqI)
next
  case (2 j)
  show ?thesis
  proof (cases "fd \<le> j")
    case True
    with 2 assms have "max_used (ev(fd := fe)) n = int j" by (intro max_used_eqI) auto
    with 2 True show ?thesis by simp
  next
    case False
    with 2 assms have "max_used (ev(fd := fe)) n = int fd" by (intro max_used_eqI) auto
    with 2 False show ?thesis by simp
  qed
qed

lemma max_used_remove:
  assumes "fd < n" "fe_mask fe = AE_NONE"
  shows "max_used (ev(fd := fe)) n =
    (if max_used ev n = int fd then max_used (ev(fd := fe)) fd else max_used ev n)"
proof (cases rule: max_used_cases [of ev n])
  case 1
  then show ?thesis using assms by (auto intro!: max_used_none)
next
  case (2 j)
  show ?thesis
  proof (cases "j = fd")
    case True
    with 2 assms show ?thesis by (auto intro!: max_used_cut)
  next
    case False
    with 2 assms show ?thesis by (auto intro!: max_used_eqI)
  qed
qed

lemma mask_set:
  fixes a b :: u32
  assumes "a \<in> {0, 1, 2, 3}" "b \<in> {0, 1, 2, 3}"
  shows "a OR b \<in> {0, 1, 2, 3}" "a AND NOT b \<in> {0, 1, 2, 3}" "a OR b = 0 \<longleftrightarrow> a = 0 \<and> b = 0"
  using assms by auto

lemma loop_okD:
  assumes "loop_ok el"
  shows "fe_mask (events el fd) \<in> {0, 1, 2, 3}"
    and "epset el fd = (if fd < setsize el \<and> fe_mask (events el fd) \<noteq> AE_NONE then Some (ep_events (fe_mask (events el fd))) else None)"
    and "maxfd el = max_used (events el) (setsize el)"
  using assms by (simp_all add: loop_ok_def)

text \<open>The effect of \<open>aeCreateFileEvent\<close>: registered, or unchanged when the descriptor is too large or the kernel refuses.\<close>

definition add_event :: "u32 \<Rightarrow> 'p \<Rightarrow> 'd option \<Rightarrow> ('p, 'd) aeFileEvent \<Rightarrow> ('p, 'd) aeFileEvent" where
  "add_event msk p data fe = \<lparr>fe_mask = fe_mask fe OR msk,
     rfileProc = (if msk AND AE_READABLE \<noteq> 0 then Some p else rfileProc fe),
     wfileProc = (if msk AND AE_WRITABLE \<noteq> 0 then Some p else wfileProc fe), clientData = data\<rparr>"

lemma api_add_event:
  assumes "loop_ok el" "fd < setsize el"
  obtains oks where "aeApiAddEvent fd msk el = (- 1, el\<lparr>ctl_ok := oks\<rparr>)"
  | oks where "aeApiAddEvent fd msk el =
      (0, el\<lparr>ctl_ok := oks, epset := (epset el)(fd := Some (ep_events (fe_mask (events el fd) OR msk)))\<rparr>)"
proof (cases "fe_mask (events el fd) = AE_NONE")
  case True
  then have e: "epset el fd = None" using loop_okD(2) [OF assms(1), of fd] by simp
  show ?thesis
  proof (cases "\<exists>oks. ctl_ok el = False # oks")
    case True
    with e \<open>fe_mask (events el fd) = AE_NONE\<close> show ?thesis
      by (intro that(1) [of "tl (ctl_ok el)"]) (auto simp: aeApiAddEvent_def epoll_ctl_def Let_def)
  next
    case False
    then have "epoll_ctl EPOLL_CTL_ADD fd ev el = (0, el\<lparr>ctl_ok := tl (ctl_ok el), epset := (epset el)(fd := Some ev)\<rparr>)" for ev
      using e by (cases "ctl_ok el"; cases "hd (ctl_ok el)") (auto simp: epoll_ctl_def)
    with \<open>fe_mask (events el fd) = AE_NONE\<close> show ?thesis
      by (intro that(2) [of "tl (ctl_ok el)"]) (simp add: aeApiAddEvent_def Let_def or.commute)
  qed
next
  case False
  then have "epset el fd \<noteq> None" using loop_okD(2) [OF assms(1), of fd] assms(2) by simp
  with False show ?thesis
    by (intro that(2) [of "ctl_ok el"]) (simp add: aeApiAddEvent_def epoll_ctl_def Let_def or.commute)
qed

lemma create_file_event:
  assumes "loop_ok el" "msk \<in> {1, 2, 3}" "aeCreateFileEvent fd msk p data el = (r, el')"
  shows "loop_ok el' \<and>
    (r = AE_OK \<and> fd < setsize el \<and> (\<exists>oks. el' = el\<lparr>ctl_ok := oks, events := (events el)(fd := add_event msk p data (events el fd)),
        epset := (epset el)(fd := Some (ep_events (fe_mask (events el fd) OR msk))), maxfd := max (int fd) (maxfd el)\<rparr>) \<or>
     r = AE_ERR \<and> (\<exists>oks. el' = el\<lparr>ctl_ok := oks\<rparr>))"
proof (cases "fd < setsize el")
  case True
  let ?m = "fe_mask (events el fd)"
  have m: "?m \<in> {0, 1, 2, 3}" by (rule loop_okD [OF assms(1)])
  have m': "?m OR msk \<in> {0, 1, 2, 3}" "?m OR msk \<noteq> 0" using mask_set [OF m, of msk] assms(2) by auto
  from assms(1) True show ?thesis
  proof (cases rule: api_add_event [of el fd msk])
    case (1 oks)
    then have "el' = el\<lparr>ctl_ok := oks\<rparr>" "r = AE_ERR" using assms(3) True by (auto simp: aeCreateFileEvent_def)
    then show ?thesis using assms(1) by (auto simp: loop_ok_def)
  next
    case (2 oks)
    then have el': "el' = el\<lparr>ctl_ok := oks, events := (events el)(fd := add_event msk p data (events el fd)),
        epset := (epset el)(fd := Some (ep_events (?m OR msk))), maxfd := max (int fd) (maxfd el)\<rparr>" "r = AE_OK"
      using assms(3) True by (auto simp: aeCreateFileEvent_def Let_def add_event_def max_def intro!: aeEventLoop.equality)
    have "loop_ok el'" unfolding el'(1) loop_ok_def
      using loop_okD [OF assms(1)] True m' by (auto simp: add_event_def max_used_add AE_NONE_def)
    with el' True show ?thesis by blast
  qed
next
  case False
  then show ?thesis using assms by (auto simp: aeCreateFileEvent_def intro!: exI [of _ "ctl_ok el"])
qed

text \<open>The effect of \<open>aeDeleteFileEvent\<close>, also right after the descriptor was closed.\<close>

lemma max_used_ge: "fd < n \<Longrightarrow> fe_mask (ev fd) \<noteq> AE_NONE \<Longrightarrow> int fd \<le> max_used ev n"
  by (cases rule: max_used_cases [of ev n]) (auto simp: not_less [symmetric])

definition del_event :: "u32 \<Rightarrow> ('p, 'd) aeFileEvent \<Rightarrow> ('p, 'd) aeFileEvent" where
  "del_event msk fe = fe\<lparr>fe_mask := fe_mask fe AND NOT msk\<rparr>"

lemma mask_twice: "(a AND NOT b) AND NOT b = a AND NOT (b :: u32)"
  by (simp add: and.assoc)

lemma delete_file_event_eq:
  assumes "fd < setsize el" "fe_mask (events el fd) \<noteq> AE_NONE" "maxfd el = max_used (events el) (setsize el)"
    and "epset el fd = None \<longrightarrow> fe_mask (events el fd) AND NOT msk = AE_NONE"
  shows "aeDeleteFileEvent fd msk el = el\<lparr>events := (events el)(fd := del_event msk (events el fd)),
      maxfd := max_used ((events el)(fd := del_event msk (events el fd))) (setsize el),
      epset := (epset el)(fd := (if fe_mask (events el fd) AND NOT msk = AE_NONE then None
        else Some (ep_events (fe_mask (events el fd) AND NOT msk))))\<rparr>"
proof -
  let ?m = "fe_mask (events el fd)" and ?ev = "(events el)(fd := del_event msk (events el fd))"
  have mx: "(if int fd = maxfd el \<and> ?m AND NOT msk = AE_NONE then max_used ?ev (nat (maxfd el)) else maxfd el) =
      max_used ?ev (setsize el)"
  proof (cases "?m AND NOT msk = AE_NONE")
    case True
    then show ?thesis using max_used_remove [OF assms(1), of "del_event msk (events el fd)" "events el"] assms(3)
      by (auto simp: del_event_def)
  next
    case False
    then show ?thesis
      using max_used_add [OF assms(1), of "del_event msk (events el fd)" "events el"] max_used_ge [of fd "setsize el" "events el"] assms
      by (simp add: del_event_def)
  qed
  have "aeDeleteFileEvent fd msk el = aeApiDelEvent fd msk (el\<lparr>events := ?ev, maxfd := max_used ?ev (setsize el)\<rparr>)"
    using assms(1,2) unfolding mx [symmetric] by (auto simp: aeDeleteFileEvent_def del_event_def Let_def)
  also have "\<dots> = el\<lparr>events := ?ev, maxfd := max_used ?ev (setsize el),
      epset := (epset el)(fd := (if ?m AND NOT msk = AE_NONE then None else Some (ep_events (?m AND NOT msk))))\<rparr>"
    using assms(4)
    by (auto simp: aeApiDelEvent_def epoll_ctl_def Let_def del_event_def mask_twice fun_upd_idem)
  finally show ?thesis .
qed

lemma delete_file_event:
  assumes "loop_ok el" "msk \<in> {1, 2, 3}"
  shows "loop_ok (aeDeleteFileEvent fd msk el)"
    and "aeGetFileEvents fd' (aeDeleteFileEvent fd msk el) =
      (if fd' = fd then aeGetFileEvents fd el AND NOT msk else aeGetFileEvents fd' el)"
proof -
  let ?m = "fe_mask (events el fd)"
  have m: "?m \<in> {0, 1, 2, 3}" by (rule loop_okD [OF assms(1)])
  have m': "?m AND NOT msk \<in> {0, 1, 2, 3}" using mask_set [OF m, of msk] assms(2) by auto
  consider (reg) "fd < setsize el" "?m \<noteq> AE_NONE" | (unreg) "aeDeleteFileEvent fd msk el = el" "aeGetFileEvents fd el = 0"
    by (cases "fd < setsize el \<and> ?m \<noteq> AE_NONE") (auto simp: aeDeleteFileEvent_def aeGetFileEvents_def AE_NONE_def)
  then have "loop_ok (aeDeleteFileEvent fd msk el) \<and> aeGetFileEvents fd' (aeDeleteFileEvent fd msk el) =
      (if fd' = fd then aeGetFileEvents fd el AND NOT msk else aeGetFileEvents fd' el)"
  proof cases
    case reg
    have "epset el fd \<noteq> None" using loop_okD(2) [OF assms(1), of fd] reg by simp
    then have eq: "aeDeleteFileEvent fd msk el = el\<lparr>events := (events el)(fd := del_event msk (events el fd)),
      maxfd := max_used ((events el)(fd := del_event msk (events el fd))) (setsize el),
      epset := (epset el)(fd := (if ?m AND NOT msk = AE_NONE then None else Some (ep_events (?m AND NOT msk))))\<rparr>"
      by (intro delete_file_event_eq reg loop_okD(3) assms(1)) auto
    show ?thesis unfolding eq loop_ok_def aeGetFileEvents_def using loop_okD [OF assms(1)] m' reg
      by (auto simp: del_event_def)
  qed (use assms(1) in auto)
  then show "loop_ok (aeDeleteFileEvent fd msk el)" "aeGetFileEvents fd' (aeDeleteFileEvent fd msk el) =
      (if fd' = fd then aeGetFileEvents fd el AND NOT msk else aeGetFileEvents fd' el)" by auto
qed

lemma close_file_event:
  assumes "loop_ok el"
  shows "loop_ok (aeDeleteFileEvent fd (AE_READABLE OR AE_WRITABLE) (sys_close fd el))"
proof -
  let ?m = "fe_mask (events el fd)" and ?el = "sys_close fd el"
  have msk: "AE_READABLE OR AE_WRITABLE = 3" by (simp add: mask_defs)
  have "?m \<in> {0, 1, 2, 3}" by (rule loop_okD [OF assms])
  then have m: "?m AND NOT 3 = AE_NONE" by (auto simp: AE_NONE_def)
  show ?thesis
  proof (cases "fd < setsize el \<and> ?m \<noteq> AE_NONE")
    case True
    then have "aeDeleteFileEvent fd 3 ?el = ?el\<lparr>events := (events ?el)(fd := del_event 3 (events ?el fd)),
      maxfd := max_used ((events ?el)(fd := del_event 3 (events ?el fd))) (setsize ?el),
      epset := (epset ?el)(fd := (if fe_mask (events ?el fd) AND NOT 3 = AE_NONE then None
        else Some (ep_events (fe_mask (events ?el fd) AND NOT 3))))\<rparr>"
      using m loop_okD(3) [OF assms] by (intro delete_file_event_eq) (simp_all add: sys_close_def)
    then show ?thesis using loop_okD [OF assms] m
      unfolding msk loop_ok_def by (simp add: sys_close_def del_event_def AE_NONE_def)
  next
    case False
    then have "aeDeleteFileEvent fd 3 ?el = ?el" by (auto simp: aeDeleteFileEvent_def sys_close_def)
    moreover have "?el = el" using loop_okD(2) [OF assms, of fd] False by (auto simp: sys_close_def fun_upd_idem)
    ultimately show ?thesis using assms msk by simp
  qed
qed

lemma resize_set:
  assumes "loop_ok el" "aeResizeSetSize sz el = (r, el')"
  shows "loop_ok el'" and "r = AE_OK \<Longrightarrow> setsize el' = sz"
    and "r = AE_OK \<Longrightarrow> fd < sz \<Longrightarrow> aeGetFileEvents fd el' = aeGetFileEvents fd el"
proof -
  have "loop_ok el' \<and> (r = AE_OK \<longrightarrow> setsize el' = sz \<and> (fd < sz \<longrightarrow> aeGetFileEvents fd el' = aeGetFileEvents fd el))"
  proof (cases "sz \<noteq> setsize el \<and> maxfd el < int sz")
    case True
    then have new: "maxfd el < int sz" "el' = el\<lparr>setsize := sz, events := clear_slots (maxfd el + 1) sz (events el)\<rparr>"
      using assms(2) by (simp_all add: aeResizeSetSize_def)
    have above: "fe_mask (events el j) = AE_NONE" if "maxfd el < int j" "j < setsize el" for j
      using max_used_ge [of j "setsize el" "events el"] loop_okD(3) [OF assms(1)] that by fastforce
    have clear: "fe_mask (events el' j) = (if j < setsize el then fe_mask (events el j) else AE_NONE)" if "j < sz" for j
    proof (cases "maxfd el < int j")
      case True
      then show ?thesis using new that above [of j] by (auto simp: clear_slots_def)
    next
      case False
      then have "j < setsize el" using loop_okD(3) [OF assms(1)] by (cases rule: max_used_cases [of "events el" "setsize el"]) auto
      then show ?thesis using new False by (simp add: clear_slots_def)
    qed
    have "maxfd el = max_used (events el') sz"
    proof (cases rule: max_used_cases [of "events el" "setsize el"])
      case 1
      then have "\<forall>j. j < sz \<longrightarrow> fe_mask (events el' j) = AE_NONE" using clear by auto
      then show ?thesis using 1 loop_okD(3) [OF assms(1)] by (simp add: max_used_none)
    next
      case (2 k)
      then have "max_used (events el') sz = int k" using clear loop_okD(3) [OF assms(1)] new
        by (intro max_used_eqI) auto
      then show ?thesis using 2 loop_okD(3) [OF assms(1)] by simp
    qed
    moreover have "fe_mask (events el' j) \<in> {0, 1, 2, 3}" for j
      using loop_okD(1) [OF assms(1), of j] new by (auto simp: clear_slots_def AE_NONE_def)
    moreover have "epset el' j = (if j < sz \<and> fe_mask (events el' j) \<noteq> AE_NONE then Some (ep_events (fe_mask (events el' j))) else None)" for j
      using loop_okD(2) [OF assms(1), of j] clear [of j] above [of j] new by (cases "j < sz") auto
    ultimately show ?thesis using new clear [of fd] by (auto simp: loop_ok_def aeGetFileEvents_def AE_NONE_def)
  next
    case False
    then have "el' = el" "r = AE_OK \<longrightarrow> sz = setsize el"
      using assms(2) by (simp_all add: aeResizeSetSize_def AE_OK_def AE_ERR_def split: if_splits)
    then show ?thesis using assms(1) by simp
  qed
  then show "loop_ok el'" "r = AE_OK \<Longrightarrow> setsize el' = sz"
    "r = AE_OK \<Longrightarrow> fd < sz \<Longrightarrow> aeGetFileEvents fd el' = aeGetFileEvents fd el" by auto
qed

section \<open>The round of the timers ends\<close>

text \<open>
  What the loop over the time events needs of the callbacks: under the program's own condition \<open>ok\<close>, which says nothing
  on clock and timers, they return, give an interval or \<open>AE_NOMORE\<close>, and change the list only by new events.
\<close>

definition new_events :: "('p, 'd, 'z) aeEventLoop_scheme \<Rightarrow> ('p, 'd, 'z) aeEventLoop_scheme \<Rightarrow> ('p, 'd) aeTimeEvent list \<Rightarrow> bool" where
  "new_events el el' new \<longleftrightarrow> timeEvents el' = new @ timeEvents el \<and> now el' = now el \<and> later el' = later el \<and>
     timeEventNextId el \<le> timeEventNextId el' \<and> distinct (map te_id new) \<and>
     (\<forall>te\<in>set new. timeEventNextId el \<le> te_id te \<and> te_id te < timeEventNextId el')"

text \<open>The events that are due, among those that existed at the start of the round.\<close>

definition due_events :: "int \<Rightarrow> ('p, 'd, 'z) aeEventLoop_scheme \<Rightarrow> ('p, 'd) aeTimeEvent list" where
  "due_events maxId el = filter (\<lambda>te. te_id te \<le> maxId \<and> \<not> earlier (now el) (due te)) (timeEvents el)"

definition timers_ok :: "(('p, 'd, 'z) aeEventLoop_scheme \<Rightarrow> bool) \<Rightarrow> (('p, 'd) aeTimeEvent \<Rightarrow> bool) \<Rightarrow> ('p, 'd, 'z) aeEventLoop_scheme \<Rightarrow> bool" where
  "timers_ok ok timer el \<longleftrightarrow> ok el \<and> (\<forall>te\<in>set (timeEvents el). timer te \<and> te_id te < timeEventNextId el) \<and>
     distinct (map te_id (timeEvents el))"

lemma unlink_time_ok:
  "te \<in> set tes \<Longrightarrow> distinct (map te_id tes) \<Longrightarrow>
   \<exists>us vs. tes = us @ te # vs \<and> unlink_time (te_id te) tes = Some (te, us @ vs)"
proof (induction tes)
  case (Cons x tes)
  show ?case
  proof (cases "te_id x = te_id te")
    case True
    then have "te = x" using Cons.prems by (auto simp: image_iff)
    then show ?thesis by (intro exI [of _ "[]"] exI [of _ tes]) simp
  next
    case False
    then obtain us vs where "tes = us @ te # vs" "unlink_time (te_id te) tes = Some (te, us @ vs)" using Cons by auto
    then show ?thesis using False by (intro exI [of _ "x # us"] exI [of _ vs]) simp
  qed
qed simp

lemma wf_three: "wf (less_than <*lex*> less_than <*lex*> less_than)"
  by (intro wf_lex_prod wf_less_than)

lemma add_ms_later: "0 < ms \<Longrightarrow> earlier t (add_ms ms t)"
proof (cases t)
  case (Pair s m)
  assume "0 < ms"
  then have "0 < ms div 1000 \<or> 0 < ms mod 1000" "0 \<le> ms div 1000" "0 \<le> ms mod 1000"
    by (auto simp: pos_imp_zdiv_pos_iff less_le)
  then show ?thesis using \<open>0 < ms\<close> by (auto simp: Pair add_ms_def earlier_def Let_def)
qed

locale timers =
  fixes code :: "('p, 'd, ('p, 'd, 'z) aeEventLoop_scheme) procs"
    and ok :: "('p, 'd, 'z) aeEventLoop_scheme \<Rightarrow> bool"
    and timer :: "('p, 'd) aeTimeEvent \<Rightarrow> bool"
  assumes ok_time: "ok el \<Longrightarrow> ok (el\<lparr>timeEvents := tes, now := t, later := ts, lastTime := l\<rparr>)"
    and timer_when: "timer te \<Longrightarrow> timer (te\<lparr>when_sec := x, when_ms := y\<rparr>)"
    and timer_runs: "ok el \<Longrightarrow> timer te \<Longrightarrow> \<exists>ret el' new.
      time_proc code (timeProc te) (te_id te) (te_clientData te) el = Some (ret, el') \<and> ok el' \<and>
      (ret = AE_NOMORE \<or> 0 < ret) \<and> new_events el el' new \<and> (\<forall>te\<in>set new. timer te)"
    and timer_final: "ok el \<Longrightarrow> timer te \<Longrightarrow> finalizerProc te = Some p \<Longrightarrow> \<exists>el'. final_proc code p (te_clientData te) el = Some el' \<and>
      ok el' \<and> new_events el el' []"
begin

lemma ok_now: "ok el \<Longrightarrow> ok (el\<lparr>now := t, later := ts\<rparr>)"
  using ok_time [where tes = "timeEvents el" and t = t and ts = ts and l = "lastTime el" and el = el] by simp

lemma ok_events: "ok el \<Longrightarrow> ok (el\<lparr>timeEvents := tes\<rparr>)"
  using ok_time [where tes = tes and t = "now el" and ts = "later el" and l = "lastTime el" and el = el] by simp

lemma ok_last: "ok el \<Longrightarrow> ok (el\<lparr>lastTime := l\<rparr>)"
  using ok_time [where tes = "timeEvents el" and t = "now el" and ts = "later el" and l = l and el = el] by simp

lemma get_time:
  assumes "timers_ok ok timer el" "aeGetTime el = (t, el')"
  shows "timers_ok ok timer el'" "now el' = t" "timeEvents el' = timeEvents el" "timeEventNextId el' = timeEventNextId el"
    and "later el \<noteq> [] \<Longrightarrow> length (later el') < length (later el)" "later el = [] \<Longrightarrow> el' = el"
  using assms by (auto simp: timers_ok_def aeGetTime_def ok_now split: list.splits)

lemma rescheduled:
  assumes "timers_ok ok timer el" "te \<in> set (timeEvents el)" "te_id te \<le> maxId" "\<not> earlier (now el) (due te)" "0 < ms"
  shows "\<exists>el'. reschedule (te_id te) ms el = Some el' \<and> timers_ok ok timer el' \<and> length (later el') \<le> length (later el) \<and>
    timeEventNextId el' = timeEventNextId el \<and>
    (later el = [] \<longrightarrow> later el' = [] \<and> now el' = now el \<and> length (due_events maxId el') < length (due_events maxId el))"
proof -
  obtain t el1 where g: "aeGetTime el = (t, el1)" by fastforce
  note g1 = get_time [OF assms(1) g]
  define f where "f = (\<lambda>x. if te_id x = te_id te then x\<lparr>when_sec := fst (add_ms ms t), when_ms := snd (add_ms ms t)\<rparr> else x :: ('p, 'd) aeTimeEvent)"
  have f: "te_id (f x) = te_id x" "timer x \<Longrightarrow> timer (f x)" for x by (simp_all add: f_def timer_when)
  let ?el = "el1\<lparr>timeEvents := map f (timeEvents el1)\<rparr>"
  have "reschedule (te_id te) ms el = Some ?el"
    using assms(2) g by (simp add: reschedule_def aeAddMillisecondsToNow_def f_def)
  moreover have "timers_ok ok timer ?el" using g1(1) f by (auto simp: timers_ok_def ok_events comp_def)
  moreover have "length (due_events maxId ?el) < length (due_events maxId el)" if "later el = []"
  proof -
    have "el1 = el" using g1(6) that by simp
    then have t: "t = now el" using g1(2) by simp
    have fd: "te_id (f x) \<le> maxId \<and> \<not> earlier (now el) (due (f x)) \<longleftrightarrow> te_id x \<noteq> te_id te \<and> te_id x \<le> maxId \<and> \<not> earlier (now el) (due x)" for x
      using add_ms_later [OF assms(5), of t] by (simp add: f_def due_def t)
    have "length (due_events maxId ?el) = length (filter (\<lambda>x. te_id x \<noteq> te_id te) (due_events maxId el))"
      using \<open>el1 = el\<close> by (simp add: due_events_def filter_map comp_def fd conj_ac)
    also have "\<dots> < length (due_events maxId el)"
      using assms(2-4) by (intro length_filter_less [of te]) (auto simp: due_events_def)
    finally show ?thesis .
  qed
  ultimately show ?thesis using g1 by (intro exI [of _ ?el]) (cases "later el", auto)
qed

lemma deleted:
  assumes "timers_ok ok timer el" "te \<in> set (timeEvents el)" "te_id te \<le> maxId" "\<not> earlier (now el) (due te)"
  shows "\<exists>el'. map_option snd (aeDeleteTimeEvent code (te_id te) el) = Some el' \<and> timers_ok ok timer el' \<and> later el' = later el \<and>
    timeEventNextId el \<le> timeEventNextId el' \<and> now el' = now el \<and> length (due_events maxId el') < length (due_events maxId el)"
proof -
  have d: "distinct (map te_id (timeEvents el))" using assms(1) by (simp add: timers_ok_def)
  obtain us vs where u: "timeEvents el = us @ te # vs" "unlink_time (te_id te) (timeEvents el) = Some (te, us @ vs)"
    using unlink_time_ok [OF assms(2) d] by blast
  let ?el = "el\<lparr>timeEvents := us @ vs\<rparr>"
  have ok: "timers_ok ok timer ?el" using assms(1) u(1) by (auto simp: timers_ok_def ok_events)
  have len: "length (due_events maxId ?el) < length (due_events maxId el)" using u(1) assms(3,4) by (simp add: due_events_def)
  show ?thesis
  proof (cases "finalizerProc te")
    case None
    then show ?thesis using u(2) ok len by (simp add: aeDeleteTimeEvent_def)
  next
    case (Some p)
    obtain el' where el': "final_proc code p (te_clientData te) ?el = Some el'" "ok el'" "new_events ?el el' []"
      using timer_final [OF _ _ Some, of ?el] ok assms(1,2) by (auto simp: timers_ok_def)
    have "timers_ok ok timer el'" using el'(2,3) ok by (auto simp: timers_ok_def new_events_def dest: bspec order.strict_trans2)
    moreover have "due_events maxId el' = due_events maxId ?el" using el'(3) by (simp add: due_events_def new_events_def)
    ultimately show ?thesis using u(2) Some el' len by (simp add: aeDeleteTimeEvent_def new_events_def)
  qed
qed

text \<open>A due event runs, and is then either scheduled for later or gone.\<close>

lemma fires:
  assumes "timers_ok ok timer el" "te \<in> set (timeEvents el)" "te_id te \<le> maxId" "\<not> earlier (now el) (due te)"
    and "maxId < timeEventNextId el"
  shows "\<exists>ret el1 el'. time_proc code (timeProc te) (te_id te) (te_clientData te) el = Some (ret, el1) \<and>
    (if ret \<noteq> AE_NOMORE then reschedule (te_id te) ret el1 else map_option snd (aeDeleteTimeEvent code (te_id te) el1)) = Some el' \<and>
    timers_ok ok timer el' \<and> maxId < timeEventNextId el' \<and> length (later el') \<le> length (later el) \<and>
    (later el = [] \<longrightarrow> later el' = [] \<and> now el' = now el \<and> length (due_events maxId el') < length (due_events maxId el))"
proof -
  obtain ret el1 new where r: "time_proc code (timeProc te) (te_id te) (te_clientData te) el = Some (ret, el1)" "ok el1"
    "ret = AE_NOMORE \<or> 0 < ret" "new_events el el1 new" "\<forall>te\<in>set new. timer te"
    using timer_runs [of el te] assms(1,2) by (auto simp: timers_ok_def)
  have old: "te_id x < timeEventNextId el" if "x \<in> set (timeEvents el)" for x using assms(1) that by (simp add: timers_ok_def)
  have ok1: "timers_ok ok timer el1"
    using r(2,4,5) assms(1) unfolding timers_ok_def new_events_def by fastforce
  have due1: "due_events maxId el1 = due_events maxId el"
    using r(4) assms(5) by (auto simp: due_events_def new_events_def filter_empty_conv)
  have te1: "te \<in> set (timeEvents el1)" "\<not> earlier (now el1) (due te)" "maxId < timeEventNextId el1" "later el1 = later el" "now el1 = now el"
    using r(4) assms(2,4,5) by (auto simp: new_events_def)
  show ?thesis
  proof (cases "ret = AE_NOMORE")
    case True
    from deleted [OF ok1 te1(1) assms(3) te1(2)] show ?thesis using r(1) True te1 due1 by auto
  next
    case False
    then have "0 < ret" using r(3) by simp
    from rescheduled [OF ok1 te1(1) assms(3) te1(2) this] show ?thesis using r(1) False te1 due1 by auto
  qed
qed

text \<open>The loop comes to an end; with a clock that stands still, no event is due afterwards.\<close>

lemma time_loop_ends:
  assumes "timers_ok ok timer el" "maxId < timeEventNextId el" "set tes \<subseteq> set (timeEvents el)"
  shows "\<exists>k' el'. time_loop code maxId tes k el = Some (k', el') \<and> timers_ok ok timer el' \<and>
    (later el = [] \<and> (\<forall>te\<in>set (due_events maxId el). te \<in> set tes) \<longrightarrow> due_events maxId el' = [])"
  using assms
proof (induction "(length (later el), length (due_events maxId el), length tes)" arbitrary: el tes k
    rule: wf_induct_rule [OF wf_three, case_names less])
  case (less el tes k)
  note 2 = less
  show ?case
  proof (cases tes)
    case Nil
    then show ?thesis using 2 by (auto simp: time_loop.simps [of _ _ "[]"])
  next
    case (Cons te rest)
    obtain t el1 where g: "aeGetTime el = (t, el1)" by fastforce
    note g1 = get_time [OF 2(2) g]
    have te: "te \<in> set (timeEvents el)" using 2(4) Cons by auto
    have rest: "set rest \<subseteq> set (timeEvents el1)" using 2(4) Cons g1(3) by auto
    consider (new) "te_id te > maxId" | (wait) "te_id te \<le> maxId" "earlier t (due te)"
      | (fire) "te_id te \<le> maxId" "\<not> earlier t (due te)" by linarith
    then show ?thesis
    proof cases
      case new
      then have "time_loop code maxId tes k el = time_loop code maxId rest k el" by (simp add: Cons time_loop.simps [of _ _ "te # rest"])
      moreover have "te \<notin> set (due_events maxId el)" using new by (simp add: due_events_def)
      ultimately show ?thesis using 2(1) [of el rest k] 2(2-4) Cons by auto
    next
      case wait
      then have eq: "time_loop code maxId tes k el = time_loop code maxId rest k el1"
        by (simp add: Cons time_loop.simps [of _ _ "te # rest"] g)
      show ?thesis
      proof (cases "later el")
        case Nil
        then have "el1 = el" "t = now el" using g1 by auto
        then have "te \<notin> set (due_events maxId el)" using wait by (simp add: due_events_def)
        then show ?thesis using 2(1) [of el rest k] 2(2-4) Cons eq \<open>el1 = el\<close> by auto
      next
        case (Cons t' ts)
        then show ?thesis using 2(1) [of el1 rest k] 2(3) g1 rest eq by auto
      qed
    next
      case fire
      obtain ret el2 el3 where f: "time_proc code (timeProc te) (te_id te) (te_clientData te) el1 = Some (ret, el2)"
        "(if ret \<noteq> AE_NOMORE then reschedule (te_id te) ret el2 else map_option snd (aeDeleteTimeEvent code (te_id te) el2)) = Some el3"
        "timers_ok ok timer el3" "maxId < timeEventNextId el3" "length (later el3) \<le> length (later el1)"
        "later el1 = [] \<longrightarrow> later el3 = [] \<and> now el3 = now el1 \<and> length (due_events maxId el3) < length (due_events maxId el1)"
        using fires [OF g1(1), of te maxId] g1 te fire 2(3) by auto
      have eq: "time_loop code maxId tes k el = time_loop code maxId (timeEvents el3) (k + 1) el3"
        using fire f(1,2) by (simp add: Cons time_loop.simps [of _ _ "te # rest"] g)
      have "((length (later el3), length (due_events maxId el3), length (timeEvents el3)), length (later el), length (due_events maxId el), length tes)
          \<in> less_than <*lex*> less_than <*lex*> less_than"
        using f(5,6) g1(5,6) by (cases "later el = []") auto
      from 2(1) [OF this f(3,4) subset_refl, of "k + 1"] obtain k' el' where
        "time_loop code maxId (timeEvents el3) (k + 1) el3 = Some (k', el')" "timers_ok ok timer el'"
        "later el3 = [] \<longrightarrow> due_events maxId el' = []" by (auto simp: due_events_def)
      then show ?thesis using eq f(6) g1(6) by (intro exI [of _ k'] exI [of _ el']) auto
    qed
  qed
qed

lemma process_time_events:
  assumes "timers_ok ok timer el"
  shows "\<exists>k el'. processTimeEvents code el = Some (k, el') \<and> timers_ok ok timer el' \<and>
    (later el = [] \<longrightarrow> due_events (timeEventNextId el - 1) el' = [])"
proof -
  obtain t el1 where g: "aeGetTime el = (t, el1)" by fastforce
  note g1 = get_time [OF assms g]
  define el2 where "el2 = (if fst t < lastTime el1 then el1\<lparr>timeEvents := map (\<lambda>te. te\<lparr>when_sec := 0\<rparr>) (timeEvents el1)\<rparr> else el1)\<lparr>lastTime := fst t\<rparr>"
  have w: "timer te \<Longrightarrow> timer (te\<lparr>when_sec := 0\<rparr>)" for te using timer_when [where te = te and x = 0 and y = "when_ms te"] by simp
  have "timers_ok ok timer el2" using g1(1) by (auto simp: el2_def timers_ok_def ok_last ok_events comp_def w)
  moreover have "timeEventNextId el2 = timeEventNextId el" "later el2 = later el1" using g1(4) by (simp_all add: el2_def)
  moreover have "processTimeEvents code el = time_loop code (timeEventNextId el2 - 1) (timeEvents el2) 0 el2"
    by (simp add: processTimeEvents_def g el2_def Let_def)
  ultimately show ?thesis
    using time_loop_ends [of el2 "timeEventNextId el - 1" "timeEvents el2" 0] g1(6)
    by (auto simp: due_events_def)
qed

end

section \<open>How long a round sleeps\<close>

lemma nearest_loop:
  "nearest_loop (Some n) tes = Some te \<Longrightarrow>
   (te = n \<or> te \<in> set tes) \<and> \<not> earlier (due n) (due te) \<and> (\<forall>x\<in>set tes. \<not> earlier (due x) (due te))"
proof (induction tes arbitrary: n)
  case (Cons a tes)
  show ?case
  proof (cases "earlier (due a) (due n)")
    case True
    then show ?thesis using Cons.IH [of a] Cons.prems by (auto simp: earlier_def split: prod.splits)
  next
    case False
    then show ?thesis using Cons.IH [of n] Cons.prems by (auto simp: earlier_def split: prod.splits)
  qed
qed (simp add: earlier_def split: prod.splits)

lemma nearest_loop_Some: "\<exists>te. nearest_loop (Some n) tes = Some te"
  by (induction tes arbitrary: n) auto

lemma nearest_timer:
  assumes "timeEvents el \<noteq> []"
  obtains te where "aeSearchNearestTimer el = Some te" "te \<in> set (timeEvents el)"
    "\<forall>x\<in>set (timeEvents el). \<not> earlier (due x) (due te)"
proof -
  obtain n tes where n: "timeEvents el = n # tes" using assms by (cases "timeEvents el") auto
  obtain te where "nearest_loop (Some n) tes = Some te" using nearest_loop_Some by blast
  with nearest_loop [OF this] n show ?thesis by (intro that [of te]) (auto simp: aeSearchNearestTimer_def)
qed

definition millis :: "int \<times> int \<Rightarrow> int" where
  "millis = (\<lambda>(s, ms). s * 1000 + ms)"

text \<open>Milliseconds within a second.\<close>

definition normal_time :: "int \<times> int \<Rightarrow> bool" where
  "normal_time = (\<lambda>(s, ms). 0 \<le> ms \<and> ms < 1000)"

lemma earlier_millis: "normal_time a \<Longrightarrow> normal_time b \<Longrightarrow> earlier a b \<longleftrightarrow> millis a < millis b"
  by (auto simp: earlier_def normal_time_def millis_def split: prod.splits)

lemma time_missing_millis:
  assumes "normal_time w" "normal_time t" "millis w - millis t < 2 ^ 31"
  shows "poll_timeout (Some (time_missing w t)) =
    (if earlier t w then millis w - millis t else (millis w - millis t) mod 1000)"
proof -
  obtain ws wm ts tm where [simp]: "w = (ws, wm)" "t = (ts, tm)" by fastforce
  define d where "d = wm - tm"
  have d: "- 1000 < d" "d < 1000" using assms by (auto simp: normal_time_def d_def)
  have dm: "(millis w - millis t) mod 1000 = (if d < 0 then d + 1000 else d)"
  proof -
    have "(millis w - millis t) mod 1000 = ((ws - ts) * 1000 + d) mod 1000" by (simp add: millis_def d_def algebra_simps)
    also have "\<dots> = d mod 1000" by (rule mod_mult_self3)
    also have "\<dots> = (if d < 0 then d + 1000 else d)"
      using d mod_pos_pos_trivial [of d 1000] mod_pos_pos_trivial [of "d + 1000" 1000] by auto
    finally show ?thesis .
  qed
  have tm: "time_missing w t = (if d < 0 then (max 0 (ws - ts - 1), (d + 1000) * 1000) else (max 0 (ws - ts), d * 1000))"
    using d by (auto simp: time_missing_def Let_def d_def)
  have e: "earlier t w \<longleftrightarrow> 0 < (ws - ts) * 1000 + d"
    using earlier_millis [of t w] assms(1,2) by (simp add: millis_def d_def algebra_simps)
  have m: "millis w - millis t = (ws - ts) * 1000 + d" by (simp add: millis_def d_def algebra_simps)
  define v where "v = (if earlier t w then millis w - millis t else (millis w - millis t) mod 1000)"
  have v: "v = (if d < 0 then max 0 (ws - ts - 1) * 1000 + (d + 1000) else max 0 (ws - ts) * 1000 + d)"
    unfolding v_def dm using e m d by (auto simp: max_def)
  have "0 \<le> v" "v < 2 ^ 31" using assms(3) e m d dm by (auto simp: v_def)
  then have "i32 v = v" by (simp add: i32_small)
  then show ?thesis unfolding v_def [symmetric] poll_timeout_def tm v by auto
qed

section \<open>Properties\<close>

text \<open>(C33) Registration of file events. Creating, deleting, resizing and closing keep the loop consistent with the
  kernel: a descriptor is in the epoll interest set exactly when its mask is not empty, with the bits of the mask,
  and \<open>maxfd\<close> is the highest registered descriptor. A successful registration adds the mask bits of one descriptor,
  a refused one changes no mask, a removal clears exactly the given bits of that descriptor.\<close>

theorem file_events_consistent:
  assumes "loop_ok el" "msk \<in> {1, 2, 3}"
    and "aeCreateFileEvent fd msk p data el = (r, el1)" "aeResizeSetSize sz el = (r2, el2)"
  shows "loop_ok el1 \<and> loop_ok el2 \<and> loop_ok (aeDeleteFileEvent fd msk el) \<and>
    loop_ok (aeDeleteFileEvent fd (AE_READABLE OR AE_WRITABLE) (sys_close fd el)) \<and>
    (\<forall>fd'. aeGetFileEvents fd' el1 =
      (if r = AE_OK \<and> fd' = fd then aeGetFileEvents fd el OR msk else aeGetFileEvents fd' el)) \<and>
    (\<forall>fd'. aeGetFileEvents fd' (aeDeleteFileEvent fd msk el) =
      (if fd' = fd then aeGetFileEvents fd el AND NOT msk else aeGetFileEvents fd' el))"
proof -
  from create_file_event [OF assms(1-3)]
  have "aeGetFileEvents fd' el1 = (if r = AE_OK \<and> fd' = fd then aeGetFileEvents fd el OR msk else aeGetFileEvents fd' el)" for fd'
    by (auto simp: aeGetFileEvents_def add_event_def AE_OK_def AE_ERR_def)
  then show ?thesis
    using create_file_event [OF assms(1-3)] resize_set(1) [OF assms(1,4)] delete_file_event [OF assms(1,2)]
      close_file_event [OF assms(1)] by blast
qed

definition demo_loop :: "(nat, nat) aeEventLoop" where
  "demo_loop = the (aeCreateEventLoop 5 True (100, 500) 8)"

lemma demo_loop_ok: "loop_ok demo_loop"
  by (simp add: demo_loop_def aeCreateEventLoop_def aeApiCreate_def loop_ok_def max_used_none AE_NONE_def)

theorem file_events_consistent_witness:
  "\<exists>el1. aeCreateFileEvent 6 1 42 None demo_loop = (AE_OK, el1) \<and> loop_ok el1 \<and> aeGetFileEvents 6 el1 = 1"
proof -
  obtain r el1 where e: "aeCreateFileEvent 6 1 42 None demo_loop = (r, el1)" by fastforce
  obtain r2 el2 where e2: "aeResizeSetSize 4 demo_loop = (r2, el2)" by fastforce
  have "r = AE_OK" "aeGetFileEvents 6 demo_loop = 0" using e
    by (auto simp: demo_loop_def aeCreateEventLoop_def aeApiCreate_def aeCreateFileEvent_def aeApiAddEvent_def
        epoll_ctl_def aeGetFileEvents_def Let_def AE_NONE_def)
  with file_events_consistent [OF demo_loop_ok _ e e2] e show ?thesis by simp
qed

text \<open>(C34) Sleeping for the nearest timer. When timers exist and none of them is due, the wait of a round is exactly the
  number of milliseconds that are missing for one that no other precedes.\<close>

theorem poll_waits_for_nearest:
  assumes "timeEvents el \<noteq> []" "normal_time (fst (aeGetTime el))"
    and "\<forall>te\<in>set (timeEvents el). normal_time (due te) \<and> earlier (fst (aeGetTime el)) (due te) \<and>
      millis (due te) - millis (fst (aeGetTime el)) < 2 ^ 31"
  shows "\<exists>te\<in>set (timeEvents el). (\<forall>x\<in>set (timeEvents el). \<not> earlier (due x) (due te)) \<and>
    poll_timeout (fst (poll_time AE_ALL_EVENTS el)) = millis (due te) - millis (fst (aeGetTime el))"
proof -
  obtain te where te: "aeSearchNearestTimer el = Some te" "te \<in> set (timeEvents el)"
    "\<forall>x\<in>set (timeEvents el). \<not> earlier (due x) (due te)" by (rule nearest_timer [OF assms(1)])
  have "fst (poll_time AE_ALL_EVENTS el) = Some (time_missing (due te) (fst (aeGetTime el)))"
    by (simp add: poll_time_def te(1) mask_defs split: prod.splits)
  then show ?thesis using te assms time_missing_millis [of "due te" "fst (aeGetTime el)"]
    by (intro bexI [of _ te]) auto
qed

definition demo_timers :: "(nat, nat) aeEventLoop" where
  "demo_timers = snd (aeCreateTimeEvent True 1000 7 0 None (snd (aeCreateTimeEvent True 700 7 0 None demo_loop)))"

theorem poll_waits_for_nearest_witness: "poll_timeout (fst (poll_time AE_ALL_EVENTS demo_timers)) = 700"
proof -
  have e: "timeEvents demo_timers = [\<lparr>te_id = 1, when_sec = 101, when_ms = 500, timeProc = 7, finalizerProc = None, te_clientData = 0\<rparr>,
     \<lparr>te_id = 0, when_sec = 101, when_ms = 200, timeProc = 7, finalizerProc = None, te_clientData = 0\<rparr>]" "fst (aeGetTime demo_timers) = (100, 500)"
    by (simp_all add: demo_timers_def demo_loop_def aeCreateEventLoop_def aeApiCreate_def aeCreateTimeEvent_def
        aeAddMillisecondsToNow_def aeGetTime_def add_ms_def Let_def)
  show ?thesis using poll_waits_for_nearest [of demo_timers] by (simp add: e normal_time_def millis_def due_def earlier_def)
qed

end
