(* ===== verification/Spy_Atomic.thy ===== *)
theory Spy_Atomic
  imports Spy_Prelude
begin

text \<open>
  The atomic integers of \<^verbatim>\<open>spy_atomic.h\<close>. A \<open>spy_atomic_t\<close> is its counter, a 32-bit word that C reads as a
  signed integer; every locked instruction is one indivisible step, here a function from the old to the
  new counter, with the flag the instruction returns.
\<close>

type_synonym spy_atomic = u32

definition spy_atomic_read :: "spy_atomic \<Rightarrow> int" where
  "spy_atomic_read v = sint v"

definition spy_atomic_set :: "int \<Rightarrow> spy_atomic" where
  "spy_atomic_set i = of_int i"

definition spy_atomic_clear_mask :: "u32 \<Rightarrow> spy_atomic \<Rightarrow> spy_atomic" where
  "spy_atomic_clear_mask m v = v AND NOT m"

definition spy_atomic_set_mask :: "u32 \<Rightarrow> spy_atomic \<Rightarrow> spy_atomic" where
  "spy_atomic_set_mask m v = v OR m"

definition spy_atomic_add :: "int \<Rightarrow> spy_atomic \<Rightarrow> spy_atomic" where
  "spy_atomic_add i v = v + of_int i"

definition spy_atomic_sub :: "int \<Rightarrow> spy_atomic \<Rightarrow> spy_atomic" where
  "spy_atomic_sub i v = v - of_int i"

text \<open>\<open>xaddl\<close> leaves the old counter in \<open>i\<close>; the result is its sum with the addend.\<close>

definition spy_atomic_add_return :: "int \<Rightarrow> spy_atomic \<Rightarrow> int \<times> spy_atomic" where
  "spy_atomic_add_return i v = (let old = spy_atomic_read v in (i32 (old + i), v + of_int i))"

definition spy_atomic_sub_return :: "int \<Rightarrow> spy_atomic \<Rightarrow> int \<times> spy_atomic" where
  "spy_atomic_sub_return i v = spy_atomic_add_return (- i) v"

definition spy_atomic_sub_and_test :: "int \<Rightarrow> spy_atomic \<Rightarrow> bool \<times> spy_atomic" where
  "spy_atomic_sub_and_test i v = (let v = v - of_int i in (v = 0, v))"

definition spy_atomic_inc :: "spy_atomic \<Rightarrow> spy_atomic" where
  "spy_atomic_inc v = v + 1"

definition spy_atomic_dec :: "spy_atomic \<Rightarrow> spy_atomic" where
  "spy_atomic_dec v = v - 1"

definition spy_atomic_dec_and_test :: "spy_atomic \<Rightarrow> bool \<times> spy_atomic" where
  "spy_atomic_dec_and_test v = (let v = v - 1 in (v = 0, v))"

definition spy_atomic_inc_and_test :: "spy_atomic \<Rightarrow> bool \<times> spy_atomic" where
  "spy_atomic_inc_and_test v = (let v = v + 1 in (v = 0, v))"

definition spy_atomic_add_negative :: "int \<Rightarrow> spy_atomic \<Rightarrow> bool \<times> spy_atomic" where
  "spy_atomic_add_negative i v = (let v = v + of_int i in (bit v 31, v))"

definition spy_atomic_cmp_and_set :: "spy_atomic \<Rightarrow> int \<Rightarrow> int \<Rightarrow> bool \<times> spy_atomic" where
  "spy_atomic_cmp_and_set lock old s = (if lock = of_int old then (True, of_int s) else (False, lock))"

section \<open>The results agree with the counter\<close>

text \<open>The value returned by an addition is what a read of the counter gives right after it.\<close>

lemma add_return_read:
  "spy_atomic_add_return i v = (spy_atomic_read (spy_atomic_add i v), spy_atomic_add i v)"
proof -
  have "v + of_int i = of_int (sint v + i)" by simp
  then have "sint (v + of_int i) = signed_take_bit 31 (sint v + i)"
    by (simp only: sint_sbintrunc' signed_of_int) simp
  then show ?thesis
    by (simp add: spy_atomic_add_return_def spy_atomic_read_def spy_atomic_add_def i32_def)
qed

end
