(* ===== verification/Spy_Step.thy ===== *)
theory Spy_Step
  imports Main "HOL-Library.Multiset"
begin

text \<open>
  Interleaved threads as transition systems: a contract for invariants, one for runs that come to an end,
  and sums over the threads of a system in which one thread moves.
\<close>

section \<open>Invariants and runs\<close>

locale guarded_system =
  fixes step :: "'s \<Rightarrow> 's \<Rightarrow> bool" and inv :: "'s \<Rightarrow> bool"
  assumes step_inv: "inv s \<Longrightarrow> step s s' \<Longrightarrow> inv s'"
begin

lemma run_inv: "step\<^sup>*\<^sup>* s s' \<Longrightarrow> inv s \<Longrightarrow> inv s'"
  by (induction rule: rtranclp_induct) (auto intro: step_inv)

end

text \<open>Every step makes a measure smaller, so no run is longer than the measure of its first state.\<close>

locale terminating_system = guarded_system +
  fixes msr :: "'a \<Rightarrow> nat"
  assumes step_less: "inv s \<Longrightarrow> step s s' \<Longrightarrow> msr s' < msr s"
begin

lemma run_bounded: "(step ^^ n) s s' \<Longrightarrow> inv s \<Longrightarrow> inv s' \<and> n + msr s' \<le> msr s"
proof (induction n arbitrary: s')
  case (Suc n)
  then obtain s1 where "(step ^^ n) s s1" "step s1 s'" by auto
  with Suc show ?case using step_inv [of s1 s'] step_less [of s1 s'] by fastforce
qed simp

lemma run_stops: "inv s \<Longrightarrow> \<exists>s'. step\<^sup>*\<^sup>* s s' \<and> inv s' \<and> \<not> (\<exists>s''. step s' s'')"
proof (induction "msr s" arbitrary: s rule: less_induct)
  case less
  show ?case
  proof (cases "\<exists>s''. step s s''")
    case True
    then obtain s1 where s1: "step s s1" by auto
    with less.hyps [of s1] less.prems step_inv step_less
    obtain s' where "step\<^sup>*\<^sup>* s1 s'" "inv s'" "\<not> (\<exists>s''. step s' s'')" by blast
    with s1 show ?thesis by (meson converse_rtranclp_into_rtranclp)
  qed (use less.prems in blast)
qed

end

section \<open>Sums over threads\<close>

definition tally :: "('a \<Rightarrow> 'b::comm_monoid_add) \<Rightarrow> 'a list \<Rightarrow> 'b" where
  "tally f xs = sum_list (map f xs)"

lemma tally_simps [simp]:
  "tally f [] = 0" "tally f (x # xs) = f x + tally f xs" "tally f (xs @ ys) = tally f xs + tally f ys"
  by (simp_all add: tally_def)

lemma tally_replicate: "tally f (replicate n x) = of_nat n * (f x :: nat)"
  by (induction n) simp_all

lemma tally_replicate_0 [simp]: "f x = 0 \<Longrightarrow> tally f (replicate n x) = 0"
  by (induction n) simp_all

text \<open>One thread moves from \<open>xs ! i\<close> to \<open>y\<close>.\<close>

lemma tally_update: "i < length xs \<Longrightarrow> tally f (xs[i := y]) + f (xs ! i) = tally f xs + f y"
proof (induction xs arbitrary: i)
  case (Cons x xs)
  then show ?case by (cases i) (simp_all add: ac_simps)
qed simp

lemma tally_zero: "(\<And>x. x \<in> set xs \<Longrightarrow> f x = 0) \<Longrightarrow> tally f xs = 0"
  by (induction xs) simp_all

lemma tally_0_iff: "tally f xs = (0::nat) \<longleftrightarrow> (\<forall>x\<in>set xs. f x = 0)"
  by (induction xs) auto

lemma tally_pos_iff: "0 < (tally f xs :: nat) \<longleftrightarrow> (\<exists>x\<in>set xs. 0 < f x)"
  by (induction xs) auto

end
