(* ===== verification/Spy_Agent.thy ===== *)
theory Spy_Agent
  imports Spy_Atomic Spy_Step Spy_Config Spy_Store
begin

text \<open>
  Logging (\<^verbatim>\<open>spy_log.c\<close>) and the agent thread that reports to the master (\<^verbatim>\<open>spy_agent.c\<close>): the report it shares with
  the timer of the main thread (\<open>spy_report_server_infos\<close> of \<^verbatim>\<open>spy_server.c\<close>) under a spin lock, the texts it sends,
  and one round of its loop.
\<close>

section \<open>Logging\<close>

definition ERROR :: int where "ERROR = 3"
definition INFO :: int where "INFO = 1"

text \<open>
  \<open>stamp\<close> is the text of \<open>strftime\<close>, \<open>body\<close> the formatted message and \<open>out\<close> the log file. \<open>vsnprintf\<close> stores at most
  \<open>1023 - time_len\<close> characters with the final null and returns the length of the whole message.
\<close>

definition spy_log :: "int \<Rightarrow> string \<Rightarrow> int \<Rightarrow> string \<Rightarrow> string \<Rightarrow> string option" where
  "spy_log cfg_level stamp level body out =
     (if cfg_level > level then Some out
      else
        let time_len = length stamp; msg_len = length body
        in if time_len < 128 then
             (if msg_len + time_len < 1024 then
                Some (out @ stamp @ take msg_len (take (1022 - time_len) body @ [char_of (0 :: nat)]) @ [char_of (10 :: nat)])
              else None)
           else None)"

section \<open>The report\<close>

record spy_report_info =
  ri_lock :: spy_atomic
  ri_pending_writes :: int
  ri_writing_count :: int
  ri_reading_count :: int
  ri_n_chunks :: int
  ri_conn_count :: int
  ri_status :: int
  total_free_space :: u64
  max_free_space :: u64

definition zero_report :: spy_report_info where
  "zero_report = \<lparr>ri_lock = spy_atomic_set 0, ri_pending_writes = 0, ri_writing_count = 0, ri_reading_count = 0,
     ri_n_chunks = 0, ri_conn_count = 0, ri_status = 0, total_free_space = 0, max_free_space = 0\<rparr>"

text \<open>The fields besides the lock, and the assignment of one of them.\<close>

datatype field = F_max | F_total | F_status | F_chunks | F_pending | F_writing | F_reading | F_conns

fun get_field :: "field \<Rightarrow> spy_report_info \<Rightarrow> int" where
  "get_field F_max r = uint (max_free_space r)"
| "get_field F_total r = uint (total_free_space r)"
| "get_field F_status r = ri_status r"
| "get_field F_chunks r = ri_n_chunks r"
| "get_field F_pending r = ri_pending_writes r"
| "get_field F_writing r = ri_writing_count r"
| "get_field F_reading r = ri_reading_count r"
| "get_field F_conns r = ri_conn_count r"

fun copy_field :: "field \<Rightarrow> spy_report_info \<Rightarrow> spy_report_info \<Rightarrow> spy_report_info" where
  "copy_field F_max a b = b\<lparr>max_free_space := max_free_space a\<rparr>"
| "copy_field F_total a b = b\<lparr>total_free_space := total_free_space a\<rparr>"
| "copy_field F_status a b = b\<lparr>ri_status := ri_status a\<rparr>"
| "copy_field F_chunks a b = b\<lparr>ri_n_chunks := ri_n_chunks a\<rparr>"
| "copy_field F_pending a b = b\<lparr>ri_pending_writes := ri_pending_writes a\<rparr>"
| "copy_field F_writing a b = b\<lparr>ri_writing_count := ri_writing_count a\<rparr>"
| "copy_field F_reading a b = b\<lparr>ri_reading_count := ri_reading_count a\<rparr>"
| "copy_field F_conns a b = b\<lparr>ri_conn_count := ri_conn_count a\<rparr>"

text \<open>The order of the assignments in \<open>spy_report_server_infos\<close> and of the arguments in \<open>spy_report_routine\<close>.\<close>

definition store_order :: "field list" where
  "store_order = [F_max, F_total, F_status, F_chunks, F_pending, F_writing, F_reading, F_conns]"

definition load_order :: "field list" where
  "load_order = [F_status, F_total, F_max, F_pending, F_writing, F_reading, F_chunks, F_conns]"

section \<open>The spin lock\<close>

text \<open>
  The main thread gives up when the lock is taken, the agent thread tries again; each atomic instruction and each
  access to a field is a step. \<open>published\<close> records what the main thread stored, \<open>reports\<close> what the agent loaded.
\<close>

datatype cron_pc = CIdle | CStore "field list"
datatype agent_pc = AIdle | ASpin | ALoad "field list"

record report_sys =
  shared :: spy_report_info
  cron :: cron_pc
  fresh_info :: spy_report_info
  agent :: agent_pc
  loaded :: spy_report_info
  published :: "spy_report_info list"
  reports :: "spy_report_info list"

definition cron_lock :: "spy_report_info \<Rightarrow> report_sys \<Rightarrow> report_sys" where
  "cron_lock v s =
     (case spy_atomic_cmp_and_set (ri_lock (shared s)) 0 1 of
        (False, _) \<Rightarrow> s
      | (True, l) \<Rightarrow> s\<lparr>shared := (shared s)\<lparr>ri_lock := l\<rparr>, fresh_info := v, cron := CStore store_order\<rparr>)"

definition cron_store :: "report_sys \<Rightarrow> report_sys" where
  "cron_store s =
     (case cron s of
        CStore (f # fs) \<Rightarrow> s\<lparr>shared := copy_field f (fresh_info s) (shared s), cron := CStore fs\<rparr>
      | CStore [] \<Rightarrow> s\<lparr>shared := (shared s)\<lparr>ri_lock := snd (spy_atomic_cmp_and_set (ri_lock (shared s)) 1 0)\<rparr>,
          cron := CIdle, published := published s @ [fresh_info s]\<rparr>
      | CIdle \<Rightarrow> s)"

text \<open>One attempt of \<open>spy_spinlock\<close>: the first one is without the test.\<close>

definition spin_try :: "report_sys \<Rightarrow> report_sys" where
  "spin_try s =
     (if agent s = AIdle \<or> ri_lock (shared s) = 0 then
        (case spy_atomic_cmp_and_set (ri_lock (shared s)) 0 1 of
           (True, l) \<Rightarrow> s\<lparr>shared := (shared s)\<lparr>ri_lock := l\<rparr>, agent := ALoad load_order\<rparr>
         | (False, _) \<Rightarrow> s\<lparr>agent := ASpin\<rparr>)
      else s)"

definition agent_load :: "report_sys \<Rightarrow> report_sys" where
  "agent_load s =
     (case agent s of
        ALoad (f # fs) \<Rightarrow> s\<lparr>loaded := copy_field f (shared s) (loaded s), agent := ALoad fs\<rparr>
      | ALoad [] \<Rightarrow> s\<lparr>shared := (shared s)\<lparr>ri_lock := spy_atomic_set 0\<rparr>, agent := AIdle, reports := reports s @ [loaded s]\<rparr>
      | _ \<Rightarrow> s)"

inductive report_step :: "report_sys \<Rightarrow> report_sys \<Rightarrow> bool" where
  timer: "cron s = CIdle \<Longrightarrow> report_step s (cron_lock v s)"
| store: "report_step s (cron_store s)"
| spin: "agent s = AIdle \<or> agent s = ASpin \<Longrightarrow> report_step s (spin_try s)"
| load: "report_step s (agent_load s)"

text \<open>\<open>spy_start_agent_thread\<close> resets the lock; the report is a global variable.\<close>

definition report_start :: report_sys where
  "report_start = \<lparr>shared = zero_report, cron = CIdle, fresh_info = zero_report, agent = AIdle, loaded = zero_report,
     published = [zero_report], reports = []\<rparr>"

inductive report_reach :: "report_sys \<Rightarrow> bool" where
  start: "report_reach report_start"
| step: "report_reach s \<Longrightarrow> report_step s s' \<Longrightarrow> report_reach s'"

section \<open>The texts\<close>

definition report_json :: "spy_config \<Rightarrow> spy_report_info \<Rightarrow> string" where \<open>
  report_json cfg r =
     ''{"GroupId": '' @ dec_int (server_id cfg) @ '',"Ip":"'' @ bind_addr cfg @ ''","Port":'' @ dec_int (port cfg) @
     '',"Status": '' @ dec_int (ri_status r) @ '',"TotalFreeSpace":'' @ dec (unat (total_free_space r)) @
     '',"MaxFreeSpace":'' @ dec (unat (max_free_space r)) @ '',"PendingWrites": '' @ dec_int (ri_pending_writes r) @
     '',"WritingCount": '' @ dec_int (ri_writing_count r) @ '',"ReadingCount": '' @ dec_int (ri_reading_count r) @
     '',"DataDir": "'' @ data_dir cfg @ ''","TotalChunks":'' @ dec_int (ri_n_chunks r) @
     '',"ConnectionsCount":'' @ dec_int (ri_conn_count r) @ ''}'' \<close>

definition master_report_uri :: string where "master_report_uri = ''/v1/chunkserver/reportinfo''"

definition http_post_addr :: "spy_config \<Rightarrow> string" where
  "http_post_addr cfg = ''http://'' @ (case master_addr cfg of None \<Rightarrow> ''(null)'' | Some a \<Rightarrow> a) @ '':'' @
     dec_int (master_port cfg) @ master_report_uri"

definition crlf :: string where "crlf = [char_of (13 :: nat), char_of (10 :: nat)]"

definition http_text :: "spy_config \<Rightarrow> string \<Rightarrow> string \<Rightarrow> string" where
  "http_text cfg addr json =
     ''POST '' @ addr @ '' HTTP/1.1'' @ crlf @ ''Host: '' @ bind_addr cfg @ '':'' @ dec_int (port cfg) @ crlf @
     ''Content-Type: text/json'' @ crlf @ ''Content-Length: '' @ dec (length json) @ crlf @ crlf @ json"

section \<open>One round of the agent\<close>

function write_all :: "os \<Rightarrow> nat \<Rightarrow> bytes \<Rightarrow> nat \<Rightarrow> int \<times> os" where
  "write_all s fd buf totlen =
     (if buf \<noteq> [] then
        (case sys_send s fd buf of
           (Fail e, s) \<Rightarrow> (- 1, s)
         | (Done n, s) \<Rightarrow> if n = 0 then (int totlen, s) else write_all s fd (drop n buf) (totlen + n))
      else (int totlen, s))"
  by pat_completeness auto
termination
  by (relation "measure (\<lambda>(s, fd, buf, totlen). length buf)") auto

declare write_all.simps [simp del]

definition spy_write :: "os \<Rightarrow> nat \<Rightarrow> bytes \<Rightarrow> int \<times> os" where
  "spy_write s fd buf = write_all s fd buf 0"

datatype report_result = WriteFailed | ReadFailed | BadStatus | Reported

text \<open>
  After the connection and the load of the report \<open>r\<close>. \<open>resp\<close> is what \<open>read(fd, http_resp, 4096)\<close> returns \<open>stamp\<close> the
  time in the log and \<open>errtext\<close> the text of \<open>strerror(errno)\<close>. An answer of 4096 bytes is terminated by a null one past the array.
\<close>

definition report_once ::
    "spy_config \<Rightarrow> string \<Rightarrow> string \<Rightarrow> spy_report_info \<Rightarrow> nat \<Rightarrow> bytes sysret \<Rightarrow> string \<Rightarrow> os \<Rightarrow>
     (report_result \<times> string \<times> os) option" where
  "report_once cfg stamp errtext r fd resp out s = do {
     let json = report_json cfg r;
     if length json < 2048 then do {
       let addr = http_post_addr cfg;
       if length addr < 256 then do {
         let content = http_text cfg addr json;
         if length content < 4096 then do {
           let (n, s) = spy_write s fd (map of_char content);
           if n \<noteq> int (length content) then do {
             out \<leftarrow> spy_log (log_level cfg) stamp ERROR (''write report info error ret='' @ dec_int n) out;
             Some (WriteFailed, out, s)
           } else
             (case resp of
                Fail e \<Rightarrow> do {
                  out \<leftarrow> spy_log (log_level cfg) stamp ERROR (''read report chunk server status resp failed, nread -1, err '' @ errtext) out;
                  Some (ReadFailed, out, s)
                }
              | Done bs \<Rightarrow>
                  if bs = [] then do {
                    out \<leftarrow> spy_log (log_level cfg) stamp ERROR (''read report chunk server status resp failed, nread 0, err '' @ errtext) out;
                    Some (ReadFailed, out, s)
                  }
                  else if length bs < 4096 then do {
                    let text = map (\<lambda>b. char_of (unat b)) (takeWhile (\<lambda>b. b \<noteq> 0) bs);
                    if take 15 text \<noteq> ''HTTP/1.1 200 OK'' then do {
                      out \<leftarrow> spy_log (log_level cfg) stamp ERROR (''report chunk server status failed, http resp '' @ text) out;
                      Some (BadStatus, out, s)
                    } else Some (Reported, out, s)
                  } else None)
         } else None
       } else None
     } else None
   }"

section \<open>The report is a snapshot\<close>

lemma get_copy [simp]: "get_field f (copy_field g a b) = (if f = g then get_field f a else get_field f b)"
  by (cases f; cases g) simp_all

lemma get_lock [simp]: "get_field f (r\<lparr>ri_lock := l\<rparr>) = get_field f r"
  by (cases f) simp_all

lemma lock_copy [simp]: "ri_lock (copy_field g a b) = ri_lock b"
  by (cases g) simp_all

lemma orders_all: "f \<in> set store_order" "f \<in> set load_order"
  by (cases f; simp add: store_order_def load_order_def)+

definition same_report :: "spy_report_info \<Rightarrow> spy_report_info \<Rightarrow> bool" where
  "same_report a b \<longleftrightarrow> (\<forall>f. get_field f a = get_field f b)"

lemma same_report_lock: "same_report (r\<lparr>ri_lock := l\<rparr>) p = same_report r p"
  by (simp add: same_report_def)

definition storing :: "report_sys \<Rightarrow> bool" where
  "storing s \<longleftrightarrow> cron s \<noteq> CIdle"

definition loading :: "report_sys \<Rightarrow> bool" where
  "loading s \<longleftrightarrow> agent s \<noteq> AIdle \<and> agent s \<noteq> ASpin"

definition report_inv :: "report_sys \<Rightarrow> bool" where
  "report_inv s \<longleftrightarrow>
     ri_lock (shared s) = (if storing s \<or> loading s then 1 else 0) \<and> \<not> (storing s \<and> loading s) \<and> published s \<noteq> [] \<and>
     (case cron s of CIdle \<Rightarrow> same_report (shared s) (last (published s))
      | CStore fs \<Rightarrow> \<forall>f. f \<notin> set fs \<longrightarrow> get_field f (shared s) = get_field f (fresh_info s)) \<and>
     (case agent s of ALoad fs \<Rightarrow> \<forall>f. f \<notin> set fs \<longrightarrow> get_field f (loaded s) = get_field f (shared s) | _ \<Rightarrow> True) \<and>
     (\<forall>r\<in>set (reports s). \<exists>p\<in>set (published s). same_report r p)"

lemmas report_defs = report_inv_def storing_def loading_def same_report_def

lemma inv_cron_lock:
  assumes "report_inv s" "cron s = CIdle"
  shows "report_inv (cron_lock v s)"
proof (cases "ri_lock (shared s) = 0")
  case True
  then have "\<not> loading s" using assms(1) by (auto simp: report_inv_def split: if_splits)
  then show ?thesis using assms True orders_all(1)
    by (auto simp: report_defs cron_lock_def spy_atomic_cmp_and_set_def split: agent_pc.splits)
qed (use assms in \<open>simp add: cron_lock_def spy_atomic_cmp_and_set_def\<close>)

lemma inv_cron_store:
  assumes "report_inv s"
  shows "report_inv (cron_store s)"
proof (cases "cron s")
  case (CStore fs)
  then have l: "\<not> loading s" "ri_lock (shared s) = 1" using assms by (auto simp: report_defs split: if_splits)
  then have a: "agent s = AIdle \<or> agent s = ASpin" by (auto simp: loading_def)
  show ?thesis
  proof (cases fs)
    case Nil
    then show ?thesis using CStore l a assms
      by (auto simp: report_defs cron_store_def spy_atomic_cmp_and_set_def)
  next
    case (Cons f fs')
    then show ?thesis using CStore l a assms by (auto simp: report_defs cron_store_def)
  qed
qed (use assms in \<open>simp add: cron_store_def\<close>)

lemma inv_spin_try:
  assumes "report_inv s" "agent s = AIdle \<or> agent s = ASpin"
  shows "report_inv (spin_try s)"
proof (cases "ri_lock (shared s) = 0")
  case True
  then have "cron s = CIdle" using assms by (auto simp: report_defs split: if_splits)
  then show ?thesis using assms True orders_all(2)
    by (auto simp: report_defs spin_try_def spy_atomic_cmp_and_set_def)
next
  case False
  then have "spin_try s = s \<or> spin_try s = s\<lparr>agent := ASpin\<rparr>" by (simp add: spin_try_def spy_atomic_cmp_and_set_def)
  then show ?thesis using assms by (elim disjE) (simp_all add: report_defs split: cron_pc.splits)
qed

lemma inv_agent_load:
  assumes "report_inv s"
  shows "report_inv (agent_load s)"
proof (cases "agent s")
  case (ALoad fs)
  then have c: "cron s = CIdle" using assms by (auto simp: report_defs)
  have last: "last (published s) \<in> set (published s)" using assms by (simp add: report_inv_def)
  show ?thesis
  proof (cases fs)
    case Nil
    then have "same_report (loaded s) (last (published s))" using ALoad c assms by (simp add: report_defs)
    with last have "\<exists>p\<in>set (published s). same_report (loaded s) p" by blast
    then show ?thesis using Nil ALoad c assms
      by (simp add: report_inv_def storing_def loading_def agent_load_def spy_atomic_set_def same_report_lock)
  next
    case (Cons f fs')
    then show ?thesis using ALoad c assms by (auto simp: report_defs agent_load_def)
  qed
qed (use assms in \<open>simp_all add: agent_load_def\<close>)

interpretation rep: guarded_system report_step report_inv
  by unfold_locales (erule report_step.cases; simp add: inv_cron_lock inv_cron_store inv_spin_try inv_agent_load)

lemma report_start_inv: "report_inv report_start"
  by (simp add: report_defs report_start_def zero_report_def spy_atomic_set_def)

lemma report_reach_inv: "report_reach s \<Longrightarrow> report_inv s"
  by (induction rule: report_reach.induct) (auto intro: report_start_inv rep.step_inv)

section \<open>What is sent\<close>

text \<open>The bytes on the socket grow by a prefix of the buffer, by all of it when the count is returned.\<close>

lemma write_all_ok:
  "write_all s fd buf k = (n, s') \<Longrightarrow>
   \<exists>w\<le>length buf. files s' = (files s)(fd := files s fd @ take w buf) \<and> (n = int (k + length buf) \<and> w = length buf \<or> n = - 1)"
proof (induction s fd buf k arbitrary: n s' rule: write_all.induct)
  case (1 s fd buf k)
  show ?case
  proof (cases "buf = []")
    case True
    then show ?thesis using 1(2) by (simp add: write_all.simps)
  next
    case False
    obtain r s1 where nr: "next_resp s = (r, s1)" by fastforce
    then have f1: "files s1 = files s" using next_resp_grant(1) os_frame_simps by metis
    show ?thesis
    proof (cases "grant r (length buf)")
      case (Fail e)
      then have "n = - 1" "s' = s1" using 1(2) False nr by (simp_all add: write_all.simps sys_send_def)
      then show ?thesis using f1 by (intro exI [of _ 0]) simp
    next
      case (Done m)
      then have m: "m \<le> length buf" "m \<noteq> 0" using next_resp_grant(3) [OF nr] False by auto
      define s2 where "s2 = s1\<lparr>files := (files s1)(fd := files s1 fd @ take m buf)\<rparr>"
      have send: "sys_send s fd buf = (Done m, s2)" using Done nr by (simp add: sys_send_def s2_def)
      then have "write_all s2 fd (drop m buf) (k + m) = (n, s')" using 1(2) False m by (simp add: write_all.simps [of s])
      with 1(1) [OF False send [symmetric] refl, of n s'] m
      have "\<exists>w\<le>length (drop m buf). files s' = (files s2)(fd := files s2 fd @ take w (drop m buf)) \<and>
        (n = int (k + m + length (drop m buf)) \<and> w = length (drop m buf) \<or> n = - 1)" by blast
      then obtain w where w: "w \<le> length (drop m buf)" "files s' = (files s2)(fd := files s2 fd @ take w (drop m buf))"
        "n = int (k + m + length (drop m buf)) \<and> w = length (drop m buf) \<or> n = - 1" by blast
      then show ?thesis using m f1
        by (intro exI [of _ "m + w"]) (auto simp: s2_def take_add)
    qed
  qed
qed

text \<open>A round that is reported as sent has put the whole request on the socket, with the length of the report in its header.\<close>

lemma report_sent:
  assumes "report_once cfg stamp errtext r fd resp out s = Some (res, out', s')" "res = Reported \<or> res = BadStatus \<or> res = ReadFailed"
  shows "files s' fd = files s fd @ map of_char (http_text cfg (http_post_addr cfg) (report_json cfg r))"
proof -
  obtain n s1 where w: "spy_write s fd (map of_char (http_text cfg (http_post_addr cfg) (report_json cfg r))) = (n, s1)" by fastforce
  with assms have "n = int (length (http_text cfg (http_post_addr cfg) (report_json cfg r)))" "s' = s1"
    by (auto simp: report_once_def Let_def bind_eq_Some_conv split: if_splits sysret.splits)
  then show ?thesis using write_all_ok [OF w [unfolded spy_write_def]] by auto
qed

text \<open>A message that does not fit the log's buffer stops the server, an answer of the master among them.\<close>

lemma log_fits: "length stamp < 128 \<Longrightarrow> length stamp + length body < 1024 \<Longrightarrow> \<exists>out'. spy_log lvl stamp level body out = Some out'"
  by (simp add: spy_log_def Let_def)

lemma log_overflow: "lvl \<le> level \<Longrightarrow> 1024 \<le> length stamp + length body \<Longrightarrow> spy_log lvl stamp level body out = None"
  by (simp add: spy_log_def Let_def)

lemma long_answer_aborts:
  assumes "log_level cfg \<le> ERROR" "0 \<notin> set bs" "1024 \<le> length bs" "map (\<lambda>b. char_of (unat b)) (take 15 bs) \<noteq> ''HTTP/1.1 200 OK''"
    and "length (report_json cfg r) < 2048" "length (http_post_addr cfg) < 256"
    and "length (http_text cfg (http_post_addr cfg) (report_json cfg r)) < 4096"
    and "fst (spy_write s fd (map of_char (http_text cfg (http_post_addr cfg) (report_json cfg r)))) =
      int (length (http_text cfg (http_post_addr cfg) (report_json cfg r)))"
  shows "report_once cfg stamp errtext r fd (Done bs) out s = None"
proof -
  have tw: "takeWhile (\<lambda>b. b \<noteq> 0) bs = bs" using assms(2) by (auto simp: takeWhile_eq_all_conv)
  have "bs \<noteq> []" using assms(3) by auto
  moreover obtain n s1 where "spy_write s fd (map of_char (http_text cfg (http_post_addr cfg) (report_json cfg r))) = (n, s1)" by fastforce
  ultimately show ?thesis using assms unfolding report_once_def Let_def by (simp add: tw log_overflow take_map)
qed

section \<open>Properties\<close>

text \<open>(C32) The report to the master is a snapshot. In every interleaving of the timer and the agent thread, at most one
  of them is inside the region the lock protects, and every report the agent loads is, in all its fields, one that
  the timer stored as a whole, or the zeroed report of the start: fields of two different moments are never mixed.\<close>

theorem report_is_snapshot:
  assumes "report_reach s"
  shows "\<not> (storing s \<and> loading s) \<and> (\<forall>r\<in>set (reports s). \<exists>p\<in>set (published s). \<forall>f. get_field f r = get_field f p)"
  using report_reach_inv [OF assms] by (simp add: report_inv_def same_report_def)

definition demo_report :: report_sys where
  "demo_report = (agent_load ^^ 9) (spin_try ((cron_store ^^ 9) (cron_lock (zero_report\<lparr>ri_n_chunks := 3, max_free_space := 7\<rparr>) report_start)))"

lemma reach_iterate:
  "report_reach s \<Longrightarrow> report_reach ((cron_store ^^ n) s)" "report_reach s \<Longrightarrow> report_reach ((agent_load ^^ n) s)"
  by (induction n) (auto intro: report_reach.step report_step.store report_step.load)

lemma agent_iterate: "agent ((cron_store ^^ n) s) = agent s"
  by (induction n) (simp_all add: cron_store_def split: cron_pc.splits list.splits)

lemma demo_report_reach: "report_reach demo_report"
  unfolding demo_report_def
  by (intro reach_iterate report_reach.step [OF _ report_step.spin] report_reach.step [OF report_reach.start report_step.timer])
    (simp_all add: agent_iterate cron_lock_def report_start_def spy_atomic_cmp_and_set_def zero_report_def spy_atomic_set_def)

theorem report_is_snapshot_witness:
  "length (reports demo_report) = 1 \<and> (\<exists>p\<in>set (published demo_report). get_field F_max (hd (reports demo_report)) = get_field F_max p)"
proof -
  have "length (reports demo_report) = 1"
    unfolding demo_report_def report_start_def zero_report_def
    by (simp add: cron_lock_def cron_store_def spin_try_def agent_load_def spy_atomic_cmp_and_set_def spy_atomic_set_def
        store_order_def load_order_def numeral_nat)
  with report_is_snapshot [OF demo_report_reach] show ?thesis by (cases "reports demo_report") (auto simp del: get_field.simps)
qed

end
