(* ===== verification/Spy_Work.thy ===== *)
theory Spy_Work
  imports Spy_Atomic Spy_Step
begin

text \<open>
  The work queue of \<^verbatim>\<open>spy_work.c\<close>: the main thread queues works, a changing number of worker threads runs
  them, and the main thread takes the finished ones back (\<open>spy_wq_thread_done\<close> of \<^verbatim>\<open>spy_server.c\<close>). Code
  between \<open>pthread_mutex_lock\<close> and \<open>pthread_mutex_unlock\<close> is one step, and so is every atomic instruction;
  the steps of all threads interleave freely.
\<close>

section \<open>State\<close>

text \<open>Where a worker is in \<open>spy_worker_routine\<close>: at the top of the loop, in \<open>pthread_cond_wait\<close>, signalled but
  without the lock yet, running \<open>work->fn\<close>, after the finished list was extended, after \<open>nr_works\<close> was
  counted down, and left.\<close>

datatype 'w worker = WTop | WWaiting | WWoken | WRunning 'w | WFinished | WNotify | WExited

text \<open>Where the main thread is in \<open>spy_queue_work\<close>: not in it, after \<open>nr_works\<close> was counted up, after the
  lock was released.\<close>

datatype 'w queueing = QIdle | QAdd 'w | QSignal

text \<open>
  The fields of \<open>spy_work_queue_t\<close>, the counter of the event descriptor, the threads, and what the main
  thread holds: \<open>splicing\<close> between the read of the event descriptor and the splice, \<open>todo\<close> the spliced
  list. \<open>submitted\<close> and \<open>completed\<close> record all calls of \<open>spy_queue_work\<close> and of \<open>work->done\<close>.
\<close>

record 'w wq =
  pending_list :: "'w list"
  finished_list :: "'w list"
  nr_threads :: spy_atomic
  nr_works :: spy_atomic
  last_expand_time :: u64
  event_count :: nat
  workers :: "'w worker list"
  queueing :: "'w queueing"
  splicing :: bool
  todo :: "'w list"
  submitted :: "'w list"
  completed :: "'w list"

definition DEF_WQ_NR_THRS :: nat where "DEF_WQ_NR_THRS = 10"
definition SHRINK_PERIOD_PROTECTION :: u64 where "SHRINK_PERIOD_PROTECTION = 10"

section \<open>Operations\<close>

text \<open>A counter is an \<open>int\<close>; its conversion to \<open>size_t\<close> extends the sign.\<close>

definition as_size :: "spy_atomic \<Rightarrow> u64" where
  "as_size v = of_int (spy_atomic_read v)"

definition spy_wq_need_shrink :: "u64 \<Rightarrow> 'w wq \<Rightarrow> bool" where
  "spy_wq_need_shrink current_time wq =
     (let nr_works = as_size (nr_works wq) + 1; nr_threads = as_size (nr_threads wq) + 1
      in nr_works < nr_threads div 2 \<and> nr_threads > of_nat (DEF_WQ_NR_THRS div 2) \<and>
         current_time > last_expand_time wq + SHRINK_PERIOD_PROTECTION)"

definition spy_wq_need_expand :: "'w wq \<Rightarrow> bool" where
  "spy_wq_need_expand wq =
     (let nr_threads = as_size (nr_threads wq) + 1; nr_works = as_size (nr_works wq) + 1
      in nr_threads < nr_works div 2 \<and> nr_threads < of_nat (2 * DEF_WQ_NR_THRS))"

text \<open>\<open>avail\<close> is the number of calls of \<open>pthread_create\<close> that will succeed.\<close>

fun spy_create_worker_threads :: "nat \<Rightarrow> int \<Rightarrow> 'w wq \<Rightarrow> int \<times> 'w wq" where
  "spy_create_worker_threads avail n wq =
     (if spy_atomic_read (nr_threads wq) < n then
        (case avail of
           0 \<Rightarrow> (- 1, wq)
         | Suc avail \<Rightarrow> spy_create_worker_threads avail n
             (wq\<lparr>workers := workers wq @ [WTop], nr_threads := spy_atomic_add 1 (nr_threads wq)\<rparr>))
      else (0, wq))"

declare spy_create_worker_threads.simps [simp del]

text \<open>Creating the queue is one step: the threads already started find no work, and none of them leaves within the
  protection period.\<close>

definition spy_create_work_queue :: "nat \<Rightarrow> u64 \<Rightarrow> int \<Rightarrow> 'w wq option" where
  "spy_create_work_queue avail now nr =
     (let (ret, wq) = spy_create_worker_threads avail nr
        \<lparr>pending_list = [], finished_list = [], nr_threads = spy_atomic_set 0, nr_works = spy_atomic_set 0,
         last_expand_time = now, event_count = 0, workers = [], queueing = QIdle, splicing = False, todo = [],
         submitted = [], completed = []\<rparr>
      in if ret = 0 then Some wq else None)"

text \<open>\<open>spy_queue_work\<close>: the count, the locked part, the signal. \<open>pthread_cond_signal\<close> wakes a waiting thread if
  there is one.\<close>

definition queue_count :: "'w \<Rightarrow> 'w wq \<Rightarrow> 'w wq" where
  "queue_count w wq = wq\<lparr>nr_works := spy_atomic_add 1 (nr_works wq), queueing := QAdd w, submitted := submitted wq @ [w]\<rparr>"

definition queue_locked :: "nat \<Rightarrow> u64 \<Rightarrow> 'w \<Rightarrow> 'w wq \<Rightarrow> 'w wq" where
  "queue_locked avail now w wq =
     (let wq = (if spy_wq_need_expand wq
        then (snd (spy_create_worker_threads avail (spy_atomic_read (nr_threads wq) * 2) wq))\<lparr>last_expand_time := now\<rparr>
        else wq)
      in wq\<lparr>pending_list := pending_list wq @ [w], queueing := QSignal\<rparr>)"

definition wake :: "nat \<Rightarrow> 'w wq \<Rightarrow> 'w wq" where
  "wake i wq = wq\<lparr>workers := (workers wq)[i := WWoken]\<rparr>"

text \<open>
  The locked part of \<open>spy_worker_routine\<close>: \<open>worker_top\<close> from the top of the loop, \<open>worker_take\<close> from the test of
  the inner loop on, to which a woken thread returns.
\<close>

definition worker_take :: "nat \<Rightarrow> 'w wq \<Rightarrow> 'w wq" where
  "worker_take i wq =
     (case pending_list wq of
        [] \<Rightarrow> wq\<lparr>workers := (workers wq)[i := WWaiting]\<rparr>
      | w # ws \<Rightarrow> wq\<lparr>pending_list := ws, workers := (workers wq)[i := WRunning w]\<rparr>)"

definition worker_top :: "u64 \<Rightarrow> nat \<Rightarrow> 'w wq \<Rightarrow> 'w wq" where
  "worker_top now i wq =
     (if spy_wq_need_shrink now wq
      then wq\<lparr>nr_threads := spy_atomic_sub 1 (nr_threads wq), workers := (workers wq)[i := WExited]\<rparr>
      else worker_take i wq)"

definition worker_finish :: "nat \<Rightarrow> 'w \<Rightarrow> 'w wq \<Rightarrow> 'w wq" where
  "worker_finish i w wq = wq\<lparr>finished_list := finished_list wq @ [w], workers := (workers wq)[i := WFinished]\<rparr>"

definition worker_count :: "nat \<Rightarrow> 'w wq \<Rightarrow> 'w wq" where
  "worker_count i wq = wq\<lparr>nr_works := spy_atomic_sub 1 (nr_works wq), workers := (workers wq)[i := WNotify]\<rparr>"

text \<open>\<open>spy_finish_work_notify\<close> adds one to the event counter; interrupted calls are repeated.\<close>

definition spy_finish_work_notify :: "nat \<Rightarrow> 'w wq \<Rightarrow> 'w wq" where
  "spy_finish_work_notify i wq = wq\<lparr>event_count := event_count wq + 1, workers := (workers wq)[i := WTop]\<rparr>"

text \<open>\<open>spy_wq_thread_done\<close>: read the event descriptor, splice the finished list, call \<open>work->done\<close> for each.\<close>

definition done_read :: "'w wq \<Rightarrow> 'w wq" where
  "done_read wq = wq\<lparr>event_count := 0, splicing := True\<rparr>"

definition done_splice :: "'w wq \<Rightarrow> 'w wq" where
  "done_splice wq = wq\<lparr>todo := finished_list wq, finished_list := [], splicing := False\<rparr>"

definition done_next :: "'w wq \<Rightarrow> 'w wq" where
  "done_next wq = wq\<lparr>todo := tl (todo wq), completed := completed wq @ [hd (todo wq)]\<rparr>"

section \<open>Interleaving\<close>

text \<open>A work may be queued when it is not in the queue already: its list entry is free.\<close>

definition in_queue :: "'w wq \<Rightarrow> 'w list" where
  "in_queue wq = pending_list wq @ [w. WRunning w \<leftarrow> workers wq] @ finished_list wq @ todo wq"

definition alive :: "'w worker \<Rightarrow> nat \<Rightarrow> 'w wq \<Rightarrow> bool" where
  "alive pc i wq \<longleftrightarrow> i < length (workers wq) \<and> workers wq ! i = pc"

text \<open>\<open>wq_run\<close> are the steps the threads take by themselves: the rest of \<open>spy_queue_work\<close>, the loop of each worker and the
  handler of the event descriptor.\<close>

inductive wq_run :: "'w wq \<Rightarrow> 'w wq \<Rightarrow> bool" where
  locked: "queueing wq = QAdd w \<Longrightarrow> wq_run wq (queue_locked avail now w wq)"
| signal: "queueing wq = QSignal \<Longrightarrow> alive WWaiting i wq \<Longrightarrow> wq_run wq ((wake i wq)\<lparr>queueing := QIdle\<rparr>)"
| signal_none: "queueing wq = QSignal \<Longrightarrow> WWaiting \<notin> set (workers wq) \<Longrightarrow> wq_run wq (wq\<lparr>queueing := QIdle\<rparr>)"
| top: "alive WTop i wq \<Longrightarrow> wq_run wq (worker_top now i wq)"
| woken: "alive WWoken i wq \<Longrightarrow> wq_run wq (worker_take i wq)"
| finish: "alive (WRunning w) i wq \<Longrightarrow> wq_run wq (worker_finish i w wq)"
| uncount: "alive WFinished i wq \<Longrightarrow> wq_run wq (worker_count i wq)"
| notify: "alive WNotify i wq \<Longrightarrow> wq_run wq (spy_finish_work_notify i wq)"
| event: "queueing wq = QIdle \<Longrightarrow> \<not> splicing wq \<Longrightarrow> todo wq = [] \<Longrightarrow> 0 < event_count wq \<Longrightarrow> wq_run wq (done_read wq)"
| splice: "splicing wq \<Longrightarrow> wq_run wq (done_splice wq)"
| complete: "queueing wq = QIdle \<Longrightarrow> \<not> splicing wq \<Longrightarrow> todo wq \<noteq> [] \<Longrightarrow> wq_run wq (done_next wq)"

text \<open>A step of the system is one of these, a new call of \<open>spy_queue_work\<close> by the main thread, or the return of
  \<open>pthread_cond_wait\<close> without a signal.\<close>

inductive wq_step :: "'w wq \<Rightarrow> 'w wq \<Rightarrow> bool" where
  run: "wq_run wq wq' \<Longrightarrow> wq_step wq wq'"
| submit: "queueing wq = QIdle \<Longrightarrow> \<not> splicing wq \<Longrightarrow> w \<notin> set (in_queue wq) \<Longrightarrow> wq_step wq (queue_count w wq)"
| spurious: "alive WWaiting i wq \<Longrightarrow> wq_step wq (wake i wq)"

inductive wq_reach :: "'w wq \<Rightarrow> bool" where
  start: "spy_create_work_queue avail now (int DEF_WQ_NR_THRS) = Some wq \<Longrightarrow> wq_reach wq"
| step: "wq_reach wq \<Longrightarrow> wq_step wq wq' \<Longrightarrow> wq_reach wq'"

section \<open>Invariant\<close>

definition live :: "'w worker \<Rightarrow> nat" where
  "live p = (case p of WExited \<Rightarrow> 0 | _ \<Rightarrow> 1)"

definition waiting :: "'w worker \<Rightarrow> nat" where
  "waiting p = (case p of WWaiting \<Rightarrow> 1 | _ \<Rightarrow> 0)"

definition woken :: "'w worker \<Rightarrow> nat" where
  "woken p = (case p of WWoken \<Rightarrow> 1 | _ \<Rightarrow> 0)"

definition counted :: "'w worker \<Rightarrow> nat" where
  "counted p = (case p of WRunning _ \<Rightarrow> 1 | WFinished \<Rightarrow> 1 | _ \<Rightarrow> 0)"

definition notifying :: "'w worker \<Rightarrow> nat" where
  "notifying p = (case p of WFinished \<Rightarrow> 1 | WNotify \<Rightarrow> 1 | _ \<Rightarrow> 0)"

definition running :: "'w worker \<Rightarrow> 'w multiset" where
  "running p = (case p of WRunning w \<Rightarrow> {#w#} | _ \<Rightarrow> {#})"

definition adding :: "'w queueing \<Rightarrow> 'w multiset" where
  "adding q = (case q of QAdd w \<Rightarrow> {#w#} | _ \<Rightarrow> {#})"

definition signalling :: "'w queueing \<Rightarrow> nat" where
  "signalling q = (case q of QSignal \<Rightarrow> 1 | _ \<Rightarrow> 0)"

lemmas pc_defs = live_def waiting_def woken_def counted_def notifying_def running_def adding_def signalling_def

text \<open>Both counters count what they are meant to count.\<close>

definition counters_ok :: "'w wq \<Rightarrow> bool" where
  "counters_ok wq \<longleftrightarrow> nr_threads wq = of_nat (tally live (workers wq)) \<and>
     nr_works wq = of_nat (length (pending_list wq) + tally counted (workers wq) + size (adding (queueing wq)))"

definition threads_ok :: "'w wq \<Rightarrow> bool" where
  "threads_ok wq \<longleftrightarrow> 4 \<le> tally live (workers wq) \<and> tally live (workers wq) \<le> 36"

text \<open>A thread waits only when every pending work has a thread that is woken for it, or a signal to come.\<close>

definition wakeups_ok :: "'w wq \<Rightarrow> bool" where
  "wakeups_ok wq \<longleftrightarrow> tally waiting (workers wq) = 0 \<or>
     length (pending_list wq) \<le> tally woken (workers wq) + signalling (queueing wq)"

text \<open>Finished works have an event to come for the main thread.\<close>

definition events_ok :: "'w wq \<Rightarrow> bool" where
  "events_ok wq \<longleftrightarrow> finished_list wq = [] \<or> 0 < event_count wq \<or> splicing wq \<or> 0 < tally notifying (workers wq)"

text \<open>Every submitted work is in exactly one place.\<close>

definition works_ok :: "'w wq \<Rightarrow> bool" where
  "works_ok wq \<longleftrightarrow> mset (submitted wq) = adding (queueing wq) + mset (pending_list wq) +
     tally running (workers wq) + mset (finished_list wq) + mset (todo wq) + mset (completed wq)"

definition main_ok :: "'w wq \<Rightarrow> bool" where
  "main_ok wq \<longleftrightarrow> (splicing wq \<longrightarrow> queueing wq = QIdle \<and> todo wq = [])"

definition wq_inv :: "'w wq \<Rightarrow> bool" where
  "wq_inv wq \<longleftrightarrow> counters_ok wq \<and> threads_ok wq \<and> wakeups_ok wq \<and> events_ok wq \<and> works_ok wq \<and> main_ok wq"

lemmas inv_defs = counters_ok_def threads_ok_def wakeups_ok_def events_ok_def works_ok_def main_ok_def

section \<open>The thread counter\<close>

lemma read_of_nat: "k < 2 ^ 31 \<Longrightarrow> spy_atomic_read (of_nat k) = int k"
proof -
  assume "k < 2 ^ 31"
  then have "signed_take_bit 31 (int k) = int k" by (intro signed_take_bit_int_eq_self) simp_all
  then show ?thesis by (simp add: spy_atomic_read_def signed_of_nat)
qed

lemma unat_size: "k < 2 ^ 31 \<Longrightarrow> unat (as_size (of_nat k) + 1) = k + 1"
  by (simp add: as_size_def read_of_nat unat_word_ariths unat_of_nat)

lemma shrink_threads:
  assumes "nr_threads wq = of_nat k" "k \<le> 36" "spy_wq_need_shrink now wq"
  shows "5 \<le> k"
proof -
  have "of_nat (DEF_WQ_NR_THRS div 2) < as_size (nr_threads wq) + 1"
    using assms(3) by (simp add: spy_wq_need_shrink_def Let_def)
  then show ?thesis using assms(1,2) by (simp add: word_less_nat_alt unat_size DEF_WQ_NR_THRS_def)
qed

lemma expand_threads:
  assumes "nr_threads wq = of_nat k" "k \<le> 36" "spy_wq_need_expand wq"
  shows "k \<le> 18"
proof -
  have "as_size (nr_threads wq) + 1 < of_nat (2 * DEF_WQ_NR_THRS)"
    using assms(3) by (simp add: spy_wq_need_expand_def Let_def)
  then show ?thesis using assms(1,2) by (simp add: word_less_nat_alt unat_size DEF_WQ_NR_THRS_def)
qed

text \<open>The threads created are new ones at the top of their loop; all of them when the call succeeds.\<close>

lemma create_worker_threads:
  "nr_threads wq = of_nat k \<Longrightarrow> k \<le> n \<Longrightarrow> n \<le> 36 \<Longrightarrow>
   \<exists>m. k + m \<le> n \<and> spy_create_worker_threads avail (int n) wq =
      (if k + m = n then 0 else - 1, wq\<lparr>workers := workers wq @ replicate m WTop, nr_threads := of_nat (k + m)\<rparr>)"
proof (induction avail arbitrary: k wq)
  case 0
  then show ?case
    by (intro exI [of _ 0]) (auto simp: spy_create_worker_threads.simps [of 0] read_of_nat)
next
  case (Suc avail)
  show ?case
  proof (cases "k < n")
    case True
    let ?wq = "wq\<lparr>workers := workers wq @ [WTop], nr_threads := spy_atomic_add 1 (nr_threads wq)\<rparr>"
    from Suc.prems have "nr_threads ?wq = of_nat (Suc k)" by (simp add: spy_atomic_add_def)
    with Suc.IH [of ?wq "Suc k"] True Suc.prems
    obtain m where m: "Suc k + m \<le> n" "spy_create_worker_threads avail (int n) ?wq =
      (if Suc k + m = n then 0 else - 1, ?wq\<lparr>workers := workers ?wq @ replicate m WTop, nr_threads := of_nat (Suc k + m)\<rparr>)"
      by auto
    from Suc.prems True have "spy_create_worker_threads (Suc avail) (int n) wq = spy_create_worker_threads avail (int n) ?wq"
      by (simp add: spy_create_worker_threads.simps [of "Suc avail"] read_of_nat)
    with m show ?thesis by (intro exI [of _ "Suc m"]) (simp add: replicate_append_same)
  next
    case False
    with Suc.prems show ?thesis
      by (intro exI [of _ 0]) (auto simp: spy_create_worker_threads.simps [of "Suc avail"] read_of_nat)
  qed
qed

section \<open>Every step keeps the invariant\<close>

text \<open>What one worker going from \<open>p\<close> to \<open>q\<close> changes.\<close>

lemma alive_tally: "alive p i wq \<Longrightarrow> tally f ((workers wq)[i := q]) + f p = tally f (workers wq) + f q"
  using tally_update [of i "workers wq" f q] by (auto simp: alive_def)

lemma moved:
  assumes "alive p i wq"
  shows "tally live ((workers wq)[i := q]) + live p = tally live (workers wq) + live q"
    and "tally waiting ((workers wq)[i := q]) + waiting p = tally waiting (workers wq) + waiting q"
    and "tally woken ((workers wq)[i := q]) + woken p = tally woken (workers wq) + woken q"
    and "tally counted ((workers wq)[i := q]) + counted p = tally counted (workers wq) + counted q"
    and "tally notifying ((workers wq)[i := q]) + notifying p = tally notifying (workers wq) + notifying q"
    and "tally running ((workers wq)[i := q]) + running p = tally running (workers wq) + running q"
  using assms by (rule alive_tally)+

lemma inv_wake: "wq_inv wq \<Longrightarrow> alive WWaiting i wq \<Longrightarrow> wq_inv (wake i wq)"
  using moved [of WWaiting i wq WWoken] by (auto simp: wq_inv_def inv_defs wake_def pc_defs)

lemma inv_signal:
  assumes "wq_inv wq" "queueing wq = QSignal" "alive WWaiting i wq"
  shows "wq_inv ((wake i wq)\<lparr>queueing := QIdle\<rparr>)"
  using moved [of WWaiting i wq WWoken] assms by (auto simp: wq_inv_def inv_defs wake_def pc_defs)

lemma inv_signal_none:
  assumes "wq_inv wq" "queueing wq = QSignal" "WWaiting \<notin> set (workers wq)"
  shows "wq_inv (wq\<lparr>queueing := QIdle\<rparr>)"
proof -
  have "tally waiting (workers wq) = 0"
    using assms(3) by (auto simp: tally_0_iff waiting_def split: worker.splits)
  then show ?thesis using assms by (auto simp: wq_inv_def inv_defs pc_defs)
qed

lemma inv_worker_take:
  assumes "wq_inv wq" "alive p i wq" "p = WTop \<or> p = WWoken"
  shows "wq_inv (worker_take i wq)"
proof (cases "pending_list wq")
  case Nil
  then show ?thesis using moved [of p i wq WWaiting] assms
    by (auto simp: wq_inv_def inv_defs worker_take_def pc_defs)
next
  case (Cons w ws)
  then show ?thesis using moved [of p i wq "WRunning w"] assms
    by (auto simp: wq_inv_def inv_defs worker_take_def pc_defs)
qed

lemma inv_worker_top:
  assumes "wq_inv wq" "alive WTop i wq"
  shows "wq_inv (worker_top now i wq)"
proof (cases "spy_wq_need_shrink now wq")
  case True
  have "5 \<le> tally live (workers wq)"
    using shrink_threads [OF _ _ True] assms(1) by (auto simp: wq_inv_def inv_defs)
  moreover obtain n where "tally live (workers wq) = Suc n" using calculation by (cases "tally live (workers wq)") auto
  ultimately show ?thesis using moved [of WTop i wq WExited] assms True
    by (auto simp: wq_inv_def inv_defs worker_top_def pc_defs spy_atomic_sub_def)
qed (use inv_worker_take [of wq WTop i] assms in \<open>simp add: worker_top_def\<close>)

lemma inv_worker_finish:
  assumes "wq_inv wq" "alive (WRunning w) i wq"
  shows "wq_inv (worker_finish i w wq)"
  using moved [of "WRunning w" i wq WFinished] assms by (auto simp: wq_inv_def inv_defs worker_finish_def pc_defs)

lemma inv_worker_count:
  assumes "wq_inv wq" "alive WFinished i wq"
  shows "wq_inv (worker_count i wq)"
proof -
  obtain n where "tally counted (workers wq) = Suc n"
    using moved(4) [OF assms(2), of WNotify] by (cases "tally counted (workers wq)") (auto simp: counted_def)
  then show ?thesis using moved [of WFinished i wq WNotify] assms
    by (auto simp: wq_inv_def inv_defs worker_count_def pc_defs spy_atomic_sub_def)
qed

lemma inv_notify:
  assumes "wq_inv wq" "alive WNotify i wq"
  shows "wq_inv (spy_finish_work_notify i wq)"
  using moved [of WNotify i wq WTop] assms by (auto simp: wq_inv_def inv_defs spy_finish_work_notify_def pc_defs)

lemma inv_queue_count:
  assumes "wq_inv wq" "queueing wq = QIdle" "\<not> splicing wq"
  shows "wq_inv (queue_count w wq)"
  using assms by (auto simp: wq_inv_def inv_defs queue_count_def pc_defs spy_atomic_add_def)

lemma new_threads:
  "tally live (replicate m WTop) = m" "tally waiting (replicate m WTop) = 0" "tally woken (replicate m WTop) = 0"
  "tally counted (replicate m WTop) = 0" "tally notifying (replicate m WTop) = 0" "tally running (replicate m WTop) = {#}"
  by (simp_all add: tally_replicate pc_defs)

text \<open>The state in which the locked part of \<open>spy_queue_work\<close> leaves the queue: at most eighteen new threads.\<close>

lemma queue_locked:
  assumes "wq_inv wq" "queueing wq = QAdd w"
  obtains m t where "m \<le> 18" "tally live (workers wq) + m \<le> 36"
    "queue_locked avail now w wq = wq\<lparr>workers := workers wq @ replicate m WTop,
       nr_threads := of_nat (tally live (workers wq) + m), last_expand_time := t,
       pending_list := pending_list wq @ [w], queueing := QSignal\<rparr>"
proof (cases "spy_wq_need_expand wq")
  case True
  let ?k = "tally live (workers wq)"
  have k: "nr_threads wq = of_nat ?k" "?k \<le> 36" using assms(1) by (auto simp: wq_inv_def inv_defs)
  from expand_threads [OF this True] have k18: "?k \<le> 18" .
  then obtain m where m: "?k + m \<le> 2 * ?k" "spy_create_worker_threads avail (int (2 * ?k)) wq =
      (if ?k + m = 2 * ?k then 0 else - 1, wq\<lparr>workers := workers wq @ replicate m WTop, nr_threads := of_nat (?k + m)\<rparr>)"
    using create_worker_threads [OF k(1), of "2 * ?k" avail] by auto
  have "spy_atomic_read (nr_threads wq) * 2 = int (2 * ?k)" unfolding k(1) using k(2) by (simp add: read_of_nat)
  then have "queue_locked avail now w wq = wq\<lparr>workers := workers wq @ replicate m WTop,
       nr_threads := of_nat (?k + m), last_expand_time := now, pending_list := pending_list wq @ [w], queueing := QSignal\<rparr>"
    unfolding queue_locked_def Let_def by (simp only: True m(2) if_True snd_conv) simp
  then show ?thesis using m k18 by (intro that [of m now]) auto
next
  case False
  then show ?thesis using assms(1)
    by (intro that [of 0 "last_expand_time wq"]) (auto simp: queue_locked_def wq_inv_def inv_defs)
qed

lemma inv_queue_locked:
  assumes "wq_inv wq" "queueing wq = QAdd w"
  shows "wq_inv (queue_locked avail now w wq)"
proof -
  obtain m t where "m \<le> 18" "tally live (workers wq) + m \<le> 36" and
    "queue_locked avail now w wq = wq\<lparr>workers := workers wq @ replicate m WTop,
       nr_threads := of_nat (tally live (workers wq) + m), last_expand_time := t,
       pending_list := pending_list wq @ [w], queueing := QSignal\<rparr>"
    by (rule queue_locked [OF assms])
  then show ?thesis using assms
    by (auto simp: wq_inv_def inv_defs new_threads adding_def signalling_def)
qed

lemma inv_done:
  assumes "wq_inv wq" "queueing wq = QIdle"
  shows "\<not> splicing wq \<Longrightarrow> todo wq = [] \<Longrightarrow> wq_inv (done_read wq)"
    and "splicing wq \<Longrightarrow> wq_inv (done_splice wq)"
    and "\<not> splicing wq \<Longrightarrow> todo wq \<noteq> [] \<Longrightarrow> wq_inv (done_next wq)"
  using assms by (auto simp: wq_inv_def inv_defs done_read_def done_splice_def done_next_def neq_Nil_conv)

lemma inv_run: "wq_run wq wq' \<Longrightarrow> wq_inv wq \<Longrightarrow> wq_inv wq'"
proof (induction rule: wq_run.induct)
  case (splice wq)
  then have "queueing wq = QIdle" by (simp add: wq_inv_def main_ok_def)
  with splice show ?case by (intro inv_done(2))
qed (auto intro: inv_queue_locked inv_signal inv_signal_none inv_worker_top inv_worker_take inv_worker_finish
      inv_worker_count inv_notify inv_done)

lemma inv_step: "wq_step wq wq' \<Longrightarrow> wq_inv wq \<Longrightarrow> wq_inv wq'"
  by (induction rule: wq_step.induct) (auto intro: inv_run inv_queue_count inv_wake)

lemma inv_start:
  assumes "spy_create_work_queue avail now (int DEF_WQ_NR_THRS) = Some wq"
  shows "wq_inv (wq :: 'w wq)"
proof -
  define wq0 :: "'w wq" where "wq0 = \<lparr>pending_list = [], finished_list = [], nr_threads = spy_atomic_set 0, nr_works = spy_atomic_set 0,
         last_expand_time = now, event_count = 0, workers = [], queueing = QIdle, splicing = False, todo = [],
         submitted = [], completed = []\<rparr>"
  have "nr_threads wq0 = of_nat 0" by (simp add: wq0_def spy_atomic_set_def)
  from create_worker_threads [OF this, of 10 avail] obtain m where
    "spy_create_worker_threads avail (int DEF_WQ_NR_THRS) wq0 =
      (if m = 10 then 0 else - 1, wq0\<lparr>workers := workers wq0 @ replicate m WTop, nr_threads := of_nat m\<rparr>)"
    by (auto simp: DEF_WQ_NR_THRS_def)
  with assms have "wq = wq0\<lparr>workers := workers wq0 @ replicate 10 WTop, nr_threads := of_nat 10\<rparr>"
    by (simp add: spy_create_work_queue_def wq0_def [symmetric] split: if_splits)
  then show ?thesis
    by (simp add: wq0_def wq_inv_def inv_defs new_threads adding_def spy_atomic_set_def)
qed

lemma reach_inv: "wq_reach wq \<Longrightarrow> wq_inv wq"
  by (induction rule: wq_reach.induct) (auto intro: inv_start inv_step)

section \<open>Every run comes to rest\<close>

text \<open>The work left: what remains to be done for a worker, for the call of \<open>spy_queue_work\<close> and for each work, event
  and splice. Up to eighteen threads may be created when a work is added.\<close>

definition left :: "'w worker \<Rightarrow> nat" where
  "left p = (case p of WTop \<Rightarrow> 1 | WWaiting \<Rightarrow> 0 | WWoken \<Rightarrow> 1 | WRunning _ \<Rightarrow> 7 | WFinished \<Rightarrow> 5 | WNotify \<Rightarrow> 4 | WExited \<Rightarrow> 0)"

definition wq_left :: "'w wq \<Rightarrow> nat" where
  "wq_left wq = (case queueing wq of QIdle \<Rightarrow> 0 | QAdd _ \<Rightarrow> 28 | QSignal \<Rightarrow> 2) + 7 * length (pending_list wq) +
     tally left (workers wq) + length (finished_list wq) + length (todo wq) + 2 * event_count wq + of_bool (splicing wq)"

lemma left_worker_take:
  assumes "alive p i wq" "p = WTop \<or> p = WWoken"
  shows "wq_left (worker_take i wq) < wq_left wq"
  using assms alive_tally [OF assms(1), of left WWaiting] alive_tally [OF assms(1), of left "WRunning (hd (pending_list wq))"]
  by (cases "pending_list wq") (auto simp: wq_left_def worker_take_def left_def split: queueing.splits)

lemma left_run: "wq_run wq wq' \<Longrightarrow> wq_inv wq \<Longrightarrow> wq_left wq' < wq_left wq"
proof (induction rule: wq_run.induct)
  case (locked wq w avail now)
  obtain m t where "m \<le> 18" "tally live (workers wq) + m \<le> 36" and
    "queue_locked avail now w wq = wq\<lparr>workers := workers wq @ replicate m WTop,
       nr_threads := of_nat (tally live (workers wq) + m), last_expand_time := t,
       pending_list := pending_list wq @ [w], queueing := QSignal\<rparr>"
    by (rule queue_locked [OF locked(2,1)])
  then show ?case using locked by (simp add: wq_left_def tally_replicate left_def)
next
  case (signal wq i)
  then show ?case using alive_tally [of WWaiting i wq left WWoken] by (simp add: wq_left_def wake_def left_def)
next
  case (top i wq now)
  then show ?case using alive_tally [of WTop i wq left WExited] left_worker_take [of WTop i wq]
    by (auto simp: worker_top_def wq_left_def left_def)
next
  case (finish w i wq)
  then show ?case using alive_tally [of "WRunning w" i wq left WFinished]
    by (simp add: wq_left_def worker_finish_def left_def split: queueing.splits)
next
  case (uncount i wq)
  then show ?case using alive_tally [of WFinished i wq left WNotify]
    by (simp add: wq_left_def worker_count_def left_def split: queueing.splits)
next
  case (notify i wq)
  then show ?case using alive_tally [of WNotify i wq left WTop]
    by (simp add: wq_left_def spy_finish_work_notify_def left_def split: queueing.splits)
next
  case (complete wq)
  then show ?case by (cases "todo wq") (simp_all add: wq_left_def done_next_def)
next
  case (woken i wq)
  then show ?case by (simp add: left_worker_take)
qed (auto simp: wq_left_def done_read_def done_splice_def wq_inv_def main_ok_def)

interpretation wqs: terminating_system wq_run wq_inv wq_left
  by unfold_locales (auto intro: inv_run left_run)

interpretation wqe: guarded_system wq_step wq_inv
  by unfold_locales (auto intro: inv_step)

lemma alive_in: "p \<in> set (workers wq) \<Longrightarrow> \<exists>i. alive p i wq"
  by (auto simp: alive_def in_set_conv_nth)

text \<open>A state without a next step has no work in it.\<close>

lemma workers_at_rest:
  assumes "\<not> (\<exists>wq'. wq_run wq wq')"
  shows "set (workers wq) \<subseteq> {WWaiting, WExited}"
proof
  fix p assume "p \<in> set (workers wq)"
  then obtain i where i: "alive p i wq" using alive_in by blast
  with assms show "p \<in> {WWaiting, WExited}"
    by (cases p) (auto intro: wq_run.intros)
qed

lemma main_at_rest:
  assumes "\<not> (\<exists>wq'. wq_run wq wq')"
  shows "queueing wq = QIdle" "\<not> splicing wq" "todo wq = []" "event_count wq = 0"
proof -
  have stuck: "\<not> wq_run wq wq'" for wq' using assms by blast
  have "queueing wq \<noteq> QSignal"
    using stuck wq_run.signal [of wq] wq_run.signal_none [of wq] alive_in [of WWaiting wq] by metis
  moreover have "queueing wq \<noteq> QAdd w" for w using stuck wq_run.locked [of wq w] by metis
  ultimately show q: "queueing wq = QIdle" by (cases "queueing wq") auto
  show s: "\<not> splicing wq" using stuck wq_run.splice [of wq] by metis
  show t: "todo wq = []" using stuck wq_run.complete [of wq] q s by metis
  show "event_count wq = 0" using stuck wq_run.event [of wq] q s t by (metis neq0_conv)
qed

lemma at_rest:
  assumes "wq_inv wq" "\<not> (\<exists>wq'. wq_run wq wq')"
  shows "mset (completed wq) = mset (submitted wq)" "pending_list wq = []" "nr_works wq = 0"
proof -
  note main = main_at_rest [OF assms(2)]
  note rest = workers_at_rest [OF assms(2)]
  have t: "tally woken (workers wq) = 0" "tally counted (workers wq) = 0" "tally notifying (workers wq) = 0"
    using rest by (auto simp: tally_0_iff pc_defs split: worker.splits)
  have r: "tally running (workers wq) = {#}" using rest
    by (intro tally_zero) (auto simp: running_def)
  have "\<exists>p\<in>set (workers wq). 0 < live p" using assms(1) by (simp add: wq_inv_def inv_defs flip: tally_pos_iff)
  then have "0 < tally waiting (workers wq)" using rest by (auto simp: tally_pos_iff pc_defs split: worker.splits)
  then show pend: "pending_list wq = []" using assms(1) main t by (simp add: wq_inv_def inv_defs signalling_def)
  have "finished_list wq = []" using assms(1) main t by (simp add: wq_inv_def inv_defs)
  then show "mset (completed wq) = mset (submitted wq)" "nr_works wq = 0"
    using assms(1) main t r pend by (simp_all add: wq_inv_def inv_defs adding_def)
qed

section \<open>Properties\<close>

lemma live_length: "tally live ps = length (filter (\<lambda>p. p \<noteq> WExited) ps)"
  by (induction ps) (auto simp: live_def split: worker.splits)

lemma run_submitted: "wq_run wq wq' \<Longrightarrow> wq_inv wq \<Longrightarrow> submitted wq' = submitted wq"
proof (induction rule: wq_run.induct)
  case (locked wq w avail now)
  from locked(2,1) show ?case by (rule queue_locked [where avail = avail and now = now]) simp
qed (auto simp: wake_def worker_top_def worker_take_def worker_finish_def worker_count_def spy_finish_work_notify_def
       done_read_def done_splice_def done_next_def split: list.splits)

lemma runs_submitted: "(wq_run ^^ n) wq wq' \<Longrightarrow> wq_inv wq \<Longrightarrow> submitted wq' = submitted wq"
proof (induction n arbitrary: wq')
  case (Suc n)
  then obtain wq1 where "(wq_run ^^ n) wq wq1" "wq_run wq1 wq'" by auto
  with Suc show ?case using run_submitted wqs.run_bounded by metis
qed simp

definition demo_wq :: "nat wq" where
  "demo_wq = queue_count 7 (the (spy_create_work_queue 10 0 10))"

lemma demo_wq_reach: "wq_reach demo_wq"
proof -
  obtain wq :: "nat wq" where wq: "spy_create_work_queue 10 0 (int DEF_WQ_NR_THRS) = Some wq" "queueing wq = QIdle"
    "\<not> splicing wq" "in_queue wq = []"
    by (simp add: spy_create_work_queue_def DEF_WQ_NR_THRS_def eval_nat_numeral spy_create_worker_threads.simps
        spy_atomic_set_def spy_atomic_read_def spy_atomic_add_def in_queue_def)
  then have "wq_reach (queue_count 7 wq)" by (intro wq_reach.step [OF wq_reach.start [OF wq(1)]] wq_step.submit) simp_all
  then show ?thesis using wq by (simp add: demo_wq_def DEF_WQ_NR_THRS_def)
qed

lemma demo_wq_submitted: "submitted demo_wq = [7]"
    by (simp add: demo_wq_def queue_count_def spy_create_work_queue_def eval_nat_numeral spy_create_worker_threads.simps
        spy_atomic_set_def spy_atomic_read_def spy_atomic_add_def)

text \<open>(C8) Queued works are completed. Once the main thread stops queueing, the worker threads, the pending queue, the
  signals and the event descriptor always come to rest after a bounded number of steps, whatever the interleaving,
  and in every state of rest the completion callback of every submitted work has run exactly once: no wake-up and no
  completion event is lost, although workers exit and are created on the way.\<close>

theorem queued_works_complete:
  assumes "wq_reach wq" "(wq_run ^^ n) wq wq'"
  shows "n \<le> wq_left wq \<and> ((\<exists>wq''. wq_run wq' wq'') \<or> mset (completed wq') = mset (submitted wq))"
  using wqs.run_bounded [OF assms(2) reach_inv [OF assms(1)]] at_rest(1) [of wq']
    runs_submitted [OF assms(2) reach_inv [OF assms(1)]] by auto

theorem queued_works_complete_witness: "\<exists>wq'. wq_run\<^sup>*\<^sup>* demo_wq wq' \<and> completed wq' = [7]"
proof -
  obtain wq' where wq': "wq_run\<^sup>*\<^sup>* demo_wq wq'" "\<not> (\<exists>wq''. wq_run wq' wq'')"
    using wqs.run_stops [OF reach_inv [OF demo_wq_reach]] by blast
  then obtain n where "(wq_run ^^ n) demo_wq wq'" by (auto simp: rtranclp_power)
  from queued_works_complete [OF demo_wq_reach this] show ?thesis
    using wq' by (auto simp: demo_wq_submitted)
qed

text \<open>(C31) The number of worker threads stays between 4 and 36 in every interleaving, and the atomic counter
  \<open>nr_threads\<close> is exactly the number of threads that have not left their loop.\<close>

theorem worker_threads_bounded:
  assumes "wq_reach wq"
  shows "spy_atomic_read (nr_threads wq) = int (length (filter (\<lambda>p. p \<noteq> WExited) (workers wq))) \<and>
    spy_atomic_read (nr_threads wq) \<in> {4..36}"
  using reach_inv [OF assms] by (auto simp: wq_inv_def inv_defs read_of_nat live_length simp del: of_nat_id)

theorem worker_threads_bounded_witness:
  "spy_atomic_read (nr_threads demo_wq) \<in> {4..36}"
  using worker_threads_bounded [OF demo_wq_reach] by blast

text \<open>The queue as its user sees it: works that wait for a worker or run, works that have run, and works whose completion
  callback was called. A worker function takes effect when its work leaves the first group.\<close>

type_synonym 'w jobs = "'w multiset \<times> 'w multiset \<times> 'w multiset"

inductive job_step :: "'w jobs \<Rightarrow> 'w jobs \<Rightarrow> bool" where
  submit: "job_step (q, f, c) (add_mset w q, f, c)"
| execute: "job_step (add_mset w q, f, c) (q, add_mset w f, c)"
| complete: "job_step (q, add_mset w f, c) (q, f, add_mset w c)"

definition jobs_of :: "'w wq \<Rightarrow> 'w jobs" where
  "jobs_of wq = (adding (queueing wq) + mset (pending_list wq) + tally running (workers wq),
     mset (finished_list wq) + mset (todo wq), mset (completed wq))"

lemma jobs_worker:
  assumes "alive p i wq" "running p = {#}" "running q = {#}"
  shows "tally running ((workers wq)[i := q]) = tally running (workers wq)"
  using moved(6) [OF assms(1), of q] assms(2,3) by simp

lemma jobs_take:
  assumes "alive p i wq" "running p = {#}"
  shows "jobs_of (worker_take i wq) = jobs_of wq"
proof (cases "pending_list wq")
  case Nil
  then show ?thesis using jobs_worker [of p i wq WWaiting] assms by (simp add: jobs_of_def worker_take_def running_def)
next
  case (Cons w ws)
  then show ?thesis using moved(6) [OF assms(1), of "WRunning w"] assms(2)
    by (simp add: jobs_of_def worker_take_def running_def)
qed

lemma jobs_run: "wq_run wq wq' \<Longrightarrow> wq_inv wq \<Longrightarrow> jobs_of wq' = jobs_of wq \<or> job_step (jobs_of wq) (jobs_of wq')"
proof (induction rule: wq_run.induct)
  case (locked wq w avail now)
  from locked(2,1) show ?case
    by (rule queue_locked [where avail = avail and now = now])
      (use locked in \<open>simp add: jobs_of_def adding_def new_threads\<close>)
next
  case (signal wq i)
  then show ?case using jobs_worker [of WWaiting i wq WWoken] by (simp add: jobs_of_def wake_def adding_def running_def)
next
  case (top i wq now)
  then show ?case using jobs_take [of WTop i wq] jobs_worker [of WTop i wq WExited]
    by (simp add: worker_top_def running_def) (simp add: jobs_of_def)
next
  case (woken i wq)
  then show ?case using jobs_take [of WWoken i wq] by (simp add: running_def)
next
  case (finish w i wq)
  then have "jobs_of wq = (add_mset w (adding (queueing wq) + mset (pending_list wq) + tally running ((workers wq)[i := WFinished])),
      mset (finished_list wq) + mset (todo wq), mset (completed wq))"
    using moved(6) [of "WRunning w" i wq WFinished] by (simp add: jobs_of_def running_def)
  then show ?case by (simp add: jobs_of_def worker_finish_def job_step.execute)
next
  case (uncount i wq)
  then show ?case using jobs_worker [of WFinished i wq WNotify] by (simp add: jobs_of_def worker_count_def running_def)
next
  case (notify i wq)
  then show ?case using jobs_worker [of WNotify i wq WTop] by (simp add: jobs_of_def spy_finish_work_notify_def running_def)
next
  case (splice wq)
  then show ?case by (simp add: jobs_of_def done_splice_def wq_inv_def main_ok_def)
next
  case (complete wq)
  then obtain w ws where "todo wq = w # ws" by (cases "todo wq") auto
  then show ?case by (simp add: jobs_of_def done_next_def job_step.complete)
qed (simp_all add: jobs_of_def adding_def done_read_def)

text \<open>(C9) The work queue implements its contract: seen through \<open>jobs_of\<close>, every step of every thread, in every
  interleaving, is the submission of one work, the execution of one submitted work, the completion of one executed
  work, or no change. No work is lost, run twice or completed before it ran.\<close>

theorem work_queue_refines:
  assumes "wq_reach wq" "wq_step wq wq'"
  shows "jobs_of wq' = jobs_of wq \<or> job_step (jobs_of wq) (jobs_of wq')"
  using assms(2)
proof cases
  case run
  then show ?thesis using jobs_run reach_inv [OF assms(1)] by blast
next
  case (submit w)
  then show ?thesis by (simp add: jobs_of_def queue_count_def adding_def job_step.submit)
next
  case (spurious i)
  then show ?thesis using jobs_worker [of WWaiting i wq WWoken] by (simp add: jobs_of_def wake_def running_def)
qed

theorem work_queue_refines_witness:
  "jobs_of demo_wq = ({#7#}, {#}, {#}) \<and> (\<exists>wq'. wq_step demo_wq wq' \<and>
    (jobs_of wq' = ({#7#}, {#}, {#}) \<or> job_step ({#7#}, {#}, {#}) (jobs_of wq')))"
proof -
  have "queueing demo_wq = QAdd 7" by (simp add: demo_wq_def queue_count_def)
  then have step: "wq_step demo_wq (queue_locked 0 0 7 demo_wq)" by (intro wq_step.run wq_run.locked)
  have "jobs_of demo_wq = ({#7#}, {#}, {#})"
    by (simp add: jobs_of_def demo_wq_def queue_count_def adding_def spy_create_work_queue_def eval_nat_numeral
        spy_create_worker_threads.simps spy_atomic_set_def spy_atomic_read_def spy_atomic_add_def running_def)
  with work_queue_refines [OF demo_wq_reach step] step show ?thesis by auto
qed

end
