(* ===== verification/Spy_Server.thy ===== *)
theory Spy_Server
  imports Spy_Event Spy_Agent Spy_Index Spy_Store Spy_Work
begin

text \<open>
  The chunk server itself (\<^verbatim>\<open>spy_server.c\<close>, \<^verbatim>\<open>spy_obj_cache.c\<close>): connections, the request handlers, the completion
  callbacks of the work queue, and the timer. The state is the event loop extended by the global variables
  \<open>config\<close>, \<open>server\<close>, \<open>statistic\<close> and \<open>report_info\<close> and by the operating system. Log messages are not part of it.
\<close>

section \<open>State\<close>

record spy_statistic =
  read_bytes :: u64
  write_bytes :: u64
  read_count :: u64
  write_count :: u64
  read_error :: u64
  write_error :: u64
  conn_count :: u32
  reading_count :: u32
  writing_count :: u32

record spy_dump_job =
  dj_retcode :: int
  dj_conn :: nat
  dj_chunk :: "nat option"
  dj_name :: bytes

text \<open>The structures that embed a \<open>spy_work_t\<close>.\<close>

datatype work = IoWork nat | DumpWork nat

datatype spy_proc = AcceptHandler | ReadHandler | WriteHandler | WqThreadDone | ServerCron

text \<open>
  Connections, io jobs and dump jobs are objects with an address; a freed object is \<open>None\<close>. Of the work queue its
  contract is used: works wait in \<open>wq_queued\<close>, and in \<open>wq_finished\<close> for their completion. The last fields are the
  operating system: bytes that have arrived on a socket, whether its peer has closed, the blocking mode of a socket,
  the connections to be accepted, how many further connections can be allocated, and the results of \<open>rand()\<close>.
\<close>

record spy_server =
  config :: spy_config
  mem :: mem_state
  store :: spy_store
  conns :: "nat \<rightharpoonup> spy_connection"
  next_conn :: nat
  io_jobs :: "nat \<Rightarrow> spy_io_job"
  free_io_jobs :: "nat list"
  dump_jobs :: "nat \<rightharpoonup> spy_dump_job"
  next_dump :: nat
  pending_writes :: "nat list"
  pending_writes_size :: u32
  statistic :: spy_statistic
  status :: spy_server_status
  report_info :: spy_report_info
  wq_queued :: "work list"
  wq_finished :: "work list"
  osys :: os
  sock_in :: "nat \<Rightarrow> bytes"
  sock_eof :: "nat \<Rightarrow> bool"
  nonblock :: "nat \<Rightarrow> bool"
  accept_queue :: "nat list"
  conn_mem :: nat
  rands :: "nat list"

record world = "(spy_proc, nat) aeEventLoop" +
  srv :: spy_server

definition DEF_MAX_IO_JOBS :: nat where "DEF_MAX_IO_JOBS = 5000"
definition DEF_MAX_CLIENTS :: nat where "DEF_MAX_CLIENTS = 10240"

definition get_conn :: "nat \<Rightarrow> world \<Rightarrow> spy_connection option" where
  "get_conn c w = conns (srv w) c"

definition put_conn :: "nat \<Rightarrow> spy_connection \<Rightarrow> world \<Rightarrow> world" where
  "put_conn c cn w = w\<lparr>srv := (srv w)\<lparr>conns := (conns (srv w))(c \<mapsto> cn)\<rparr>\<rparr>"

definition set_mem :: "mem_state \<Rightarrow> world \<Rightarrow> world" where
  "set_mem m w = w\<lparr>srv := (srv w)\<lparr>mem := m\<rparr>\<rparr>"

definition upd_stat :: "(spy_statistic \<Rightarrow> spy_statistic) \<Rightarrow> world \<Rightarrow> world" where
  "upd_stat f w = w\<lparr>srv := (srv w)\<lparr>statistic := f (statistic (srv w))\<rparr>\<rparr>"

definition set_job :: "nat \<Rightarrow> spy_io_job \<Rightarrow> world \<Rightarrow> world" where
  "set_job j job w = w\<lparr>srv := (srv w)\<lparr>io_jobs := (io_jobs (srv w))(j := job)\<rparr>\<rparr>"

section \<open>The cache of io jobs\<close>

text \<open>Every job of the zeroed array goes to the front of the list.\<close>

fun init_jobs_loop :: "nat \<Rightarrow> nat \<Rightarrow> spy_server \<Rightarrow> spy_server" where
  "init_jobs_loop i 0 s = s"
| "init_jobs_loop i (Suc n) s =
     init_jobs_loop (i + 1) n (s\<lparr>io_jobs := (io_jobs s)(i := zero_job), free_io_jobs := i # free_io_jobs s\<rparr>)"

definition spy_init_io_jobs :: "nat \<Rightarrow> spy_server \<Rightarrow> spy_server option" where
  "spy_init_io_jobs max_io_jobs s = (if max_io_jobs > 0 then Some (init_jobs_loop 0 max_io_jobs s) else None)"

definition spy_gen_io_job :: "world \<Rightarrow> nat option \<times> world" where
  "spy_gen_io_job w =
     (case free_io_jobs (srv w) of
        [] \<Rightarrow> (None, w)
      | j # js \<Rightarrow> (Some j, w\<lparr>srv := (srv w)\<lparr>free_io_jobs := js\<rparr>\<rparr>))"

definition spy_free_io_job :: "nat \<Rightarrow> world \<Rightarrow> world" where
  "spy_free_io_job j w =
     w\<lparr>srv := (srv w)\<lparr>io_jobs := (io_jobs (srv w))(j := zero_job), free_io_jobs := j # free_io_jobs (srv w)\<rparr>\<rparr>"

definition spy_queue_work :: "work \<Rightarrow> world \<Rightarrow> world" where
  "spy_queue_work wk w = w\<lparr>srv := (srv w)\<lparr>wq_queued := wq_queued (srv w) @ [wk]\<rparr>\<rparr>"

section \<open>System calls on sockets\<close>

definition sock_send :: "nat \<Rightarrow> bytes \<Rightarrow> world \<Rightarrow> nat sysret \<times> world" where
  "sock_send fd data w =
     (case sys_send (osys (srv w)) fd data of (r, s) \<Rightarrow> (r, w\<lparr>srv := (srv w)\<lparr>osys := s\<rparr>\<rparr>))"

text \<open>\<open>read\<close> on a socket that does not block.\<close>

definition sock_recv :: "nat \<Rightarrow> nat \<Rightarrow> world \<Rightarrow> bytes sysret \<times> world" where
  "sock_recv fd len w =
     (case next_resp (osys (srv w)) of (r, s) \<Rightarrow>
        let w = w\<lparr>srv := (srv w)\<lparr>osys := s\<rparr>\<rparr>; arrived = sock_in (srv w) fd
        in if arrived = [] then (if sock_eof (srv w) fd then (Done [], w) else (Fail EAGAIN, w))
           else case grant r (min len (length arrived)) of
                  Fail e \<Rightarrow> (Fail e, w)
                | Done n \<Rightarrow> (Done (take n arrived), w\<lparr>srv := (srv w)\<lparr>sock_in := (sock_in (srv w))(fd := drop n arrived)\<rparr>\<rparr>))"

text \<open>The two calls of \<open>fcntl\<close>.\<close>

definition spy_set_blocking :: "nat \<Rightarrow> bool \<Rightarrow> world \<Rightarrow> int \<times> world" where
  "spy_set_blocking fd block w =
     (case next_resp (osys (srv w)) of
        (Some (SysErr e), s) \<Rightarrow> (- 1, w\<lparr>srv := (srv w)\<lparr>osys := s\<rparr>\<rparr>)
      | (_, s) \<Rightarrow>
          (case next_resp s of
             (Some (SysErr e), s) \<Rightarrow> (- 1, w\<lparr>srv := (srv w)\<lparr>osys := s\<rparr>\<rparr>)
           | (_, s) \<Rightarrow> (0, w\<lparr>srv := (srv w)\<lparr>osys := s, nonblock := (nonblock (srv w))(fd := \<not> block)\<rparr>\<rparr>)))"

section \<open>Connections\<close>

definition spy_reset_client_connection :: "nat \<Rightarrow> world \<Rightarrow> world option" where
  "spy_reset_client_connection c w = do {
     cn \<leftarrow> get_conn c w;
     let w = aeDeleteFileEvent (conn_fd cn) AE_WRITABLE w;
     let (req, m) = spy_rw_buffer_reset (request cn) (mem (srv w));
     let (rsp, m) = spy_rw_buffer_reset (rsp_body cn) m;
     let cn = cn\<lparr>request := req, rsp_body := rsp, sentlen := 0, conn_error := 0, body_len := 0, conn_state := RECEIVE_HDR\<rparr>;
     let w = put_conn c cn (set_mem m w);
     let (n, w) = aeCreateFileEvent (conn_fd cn) AE_READABLE ReadHandler (Some c) w;
     if n \<noteq> AE_ERR then Some w else None
   }"

definition spy_free_client_connection :: "nat \<Rightarrow> world \<Rightarrow> world option" where
  "spy_free_client_connection c w = do {
     cn \<leftarrow> get_conn c w;
     let (req, m) = spy_rw_buffer_reset (request cn) (mem (srv w));
     let (rsp, m) = spy_rw_buffer_reset (rsp_body cn) m;
     let w = set_mem m w;
     let w = (if conn_fd cn \<noteq> 0 then aeDeleteFileEvent (conn_fd cn) (AE_READABLE OR AE_WRITABLE) (sys_close (conn_fd cn) w) else w);
     let w = upd_stat (\<lambda>st. st\<lparr>conn_count := conn_count st - 1\<rparr>) w;
     Some (w\<lparr>srv := (srv w)\<lparr>conns := (conns (srv w))(c := None)\<rparr>\<rparr>)
   }"

text \<open>The loop of \<open>spy_write_handler\<close>; the flag tells that it was left by its condition.\<close>

definition send_failed :: "nat \<Rightarrow> errno \<Rightarrow> world \<Rightarrow> (bool \<times> world) option" where
  "send_failed c e w =
     (if e = EAGAIN then Some (False, w) else do { w \<leftarrow> spy_free_client_connection c w; Some (False, w) })"

definition write_remaining :: "spy_connection \<Rightarrow> int" where
  "write_remaining cn = i32 (int RSP_HDR_SIZE + uint (body_len cn) - sentlen cn)"

partial_function (option) write_loop :: "nat \<Rightarrow> world \<Rightarrow> (bool \<times> world) option" where
  "write_loop c w =
     Option.bind (get_conn c w) (\<lambda>cn.
     if write_remaining cn > 0 then
       if sentlen cn < int RSP_HDR_SIZE then
         (case sock_send (conn_fd cn) (drop (nat (sentlen cn)) (rsp_header cn)) w of (r, w) \<Rightarrow>
            (case r of
               Fail e \<Rightarrow> send_failed c e w
             | Done n \<Rightarrow> if n = 0 then None else write_loop c (put_conn c (cn\<lparr>sentlen := sentlen cn + int n\<rparr>) w)))
       else
         Option.bind (spy_rw_buffer_next_readable (mem (srv w)) (rsp_body cn)) (\<lambda>(rsp, nxt).
         Option.bind nxt (\<lambda>(snd_buf, len).
         Option.bind (load_area (mem (srv w)) snd_buf (min len (nat (write_remaining cn)))) (\<lambda>data.
         (case sock_send (conn_fd cn) data (put_conn c (cn\<lparr>rsp_body := rsp\<rparr>) w) of (r, w) \<Rightarrow>
            (case r of
               Fail e \<Rightarrow> send_failed c e w
             | Done n \<Rightarrow> if n = 0 then None
                 else write_loop c (put_conn c (cn\<lparr>rsp_body := advance_read n rsp, sentlen := sentlen cn + int n\<rparr>) w))))))
     else Some (True, w))"

definition spy_write_handler :: "nat \<Rightarrow> world \<Rightarrow> world option" where
  "spy_write_handler c w = do {
     (sent, w) \<leftarrow> write_loop c w;
     if sent then do {
       cn \<leftarrow> get_conn c w;
       if word_of_int (sentlen cn) = (of_nat RSP_HDR_SIZE + body_len cn :: u32) then spy_reset_client_connection c w else Some w
     } else Some w
   }"

definition spy_send_response_if_needed :: "nat \<Rightarrow> world \<Rightarrow> world option" where
  "spy_send_response_if_needed c w = do {
     cn \<leftarrow> get_conn c w;
     if conn_state cn = SEND_RSP then
       (case aeCreateFileEvent (conn_fd cn) AE_WRITABLE WriteHandler (Some c) w of (n, w) \<Rightarrow>
          if n = AE_ERR then spy_free_client_connection c w else Some w)
     else Some w
   }"

definition spy_reply_body :: "nat \<Rightarrow> world \<Rightarrow> world option" where
  "spy_reply_body c w = spy_send_response_if_needed c w"

definition spy_reply_header :: "nat \<Rightarrow> world \<Rightarrow> world option" where
  "spy_reply_header c w = do {
     cn \<leftarrow> get_conn c w;
     let header = at_off 0 (\<lambda>p. spy_mach_write_to_1 p (opcode cn)) (rsp_header cn);
     let header = at_off 1 (\<lambda>p. spy_mach_write_to_1 p (conn_error cn)) header;
     let header = at_off 2 (\<lambda>p. spy_mach_write_to_4 p (body_len cn)) header;
     spy_send_response_if_needed c (put_conn c (cn\<lparr>rsp_header := header\<rparr>) w)
   }"

text \<open>The common end of the handlers: an error code and an empty body.\<close>

definition reply_error :: "nat \<Rightarrow> u8 \<Rightarrow> world \<Rightarrow> world option" where
  "reply_error c err w = do {
     cn \<leftarrow> get_conn c w;
     spy_reply_header c (put_conn c (cn\<lparr>conn_error := err, body_len := 0, conn_state := SEND_RSP\<rparr>) w)
   }"

section \<open>Completion callbacks\<close>

definition spy_read_file_done :: "nat \<Rightarrow> world \<Rightarrow> world option" where
  "spy_read_file_done j w = do {
     let io_job = io_jobs (srv w) j;
     let c = job_conn io_job;
     let w = upd_stat (\<lambda>st. st\<lparr>reading_count := reading_count st - 1\<rparr>) w;
     if retcode io_job \<noteq> 0 then do {
       w \<leftarrow> reply_error c (error_code READ_ERROR) w;
       let w = upd_stat (\<lambda>st. st\<lparr>read_error := read_error st + 1\<rparr>) w;
       Some (spy_free_io_job j w)
     } else do {
       cn \<leftarrow> get_conn c w;
       w \<leftarrow> spy_reply_header c (put_conn c (cn\<lparr>conn_error := error_code SUCCESS, body_len := f_size (job_file io_job)\<rparr>) w);
       cn \<leftarrow> get_conn c w;
       w \<leftarrow> spy_reply_body c (put_conn c (cn\<lparr>conn_state := SEND_RSP\<rparr>) w);
       let w = upd_stat (\<lambda>st. st\<lparr>read_bytes := read_bytes st + ucast (f_size (job_file io_job))\<rparr>) w;
       Some (spy_free_io_job j w)
     }
   }"

text \<open>Whether a chunk has room for a file; \<open>size + FILE_META_SIZE\<close> is a 32-bit sum.\<close>

definition has_room :: "spy_store \<Rightarrow> u32 \<Rightarrow> nat \<Rightarrow> bool" where
  "has_room st sz a \<longleftrightarrow> avail_space (chunk_tab st a) > ucast (sz + of_nat FILE_META_SIZE :: u32)"

definition upd_store :: "(spy_store \<Rightarrow> spy_store) \<Rightarrow> world \<Rightarrow> world" where
  "upd_store f w = w\<lparr>srv := (srv w)\<lparr>store := f (store (srv w))\<rparr>\<rparr>"

text \<open>\<open>list_move\<close> to the head of the writing chunks, \<open>list_move_tail\<close> back to the chunks.\<close>

definition take_chunk :: "nat \<Rightarrow> spy_store \<Rightarrow> spy_store" where
  "take_chunk a st = st\<lparr>chunks := remove1 a (chunks st), writing_chunks := a # remove1 a (writing_chunks st)\<rparr>"

definition return_chunk :: "nat \<Rightarrow> spy_store \<Rightarrow> spy_store" where
  "return_chunk a st = st\<lparr>writing_chunks := remove1 a (writing_chunks st), chunks := remove1 a (chunks st) @ [a]\<rparr>"

text \<open>The pending write that gets the chunk, or else the chunk goes back.\<close>

definition next_pending_write :: "nat \<Rightarrow> world \<Rightarrow> world" where
  "next_pending_write chunk w =
     (let s = srv w;
          pending = (if pending_writes_size s > 0
            then find (\<lambda>tmp. has_room (store s) (f_size (job_file (io_jobs s tmp))) chunk) (pending_writes s) else None)
      in case pending of
           Some j \<Rightarrow>
             let w = w\<lparr>srv := s\<lparr>pending_writes := remove1 j (pending_writes s), pending_writes_size := pending_writes_size s - 1\<rparr>\<rparr>;
                 w = set_job j ((io_jobs s j)\<lparr>job_chunk := Some chunk,
                   job_arg := JobOffset (current_offset (chunk_tab (store s) chunk))\<rparr>) w;
                 w = upd_stat (\<lambda>st. st\<lparr>write_count := write_count st + 1, writing_count := writing_count st + 1\<rparr>) w
             in spy_queue_work (IoWork j) w
         | None \<Rightarrow> upd_store (return_chunk chunk) w)"

definition write_done_error :: "nat \<Rightarrow> nat \<Rightarrow> spy_error \<Rightarrow> world \<Rightarrow> world option" where
  "write_done_error j c err w = do {
     let w = upd_stat (\<lambda>st. st\<lparr>write_error := write_error st + 1\<rparr>) w;
     w \<leftarrow> reply_error c (error_code err) w;
     Some (spy_free_io_job j w)
   }"

definition spy_write_file_done :: "nat \<Rightarrow> world \<Rightarrow> world option" where
  "spy_write_file_done j w = do {
     let io_job = io_jobs (srv w) j;
     let c = job_conn io_job;
     let file = job_file io_job;
     chunk \<leftarrow> job_chunk io_job;
     cn \<leftarrow> get_conn c w;
     let w = put_conn c (cn\<lparr>body_len := 0\<rparr>) w;
     let w = upd_stat (\<lambda>st. st\<lparr>writing_count := writing_count st - 1\<rparr>) w;
     let (same_entry, head) = spy_lookup_file_index (f_fid file) (store (srv w));
     if same_entry \<noteq> None then write_done_error j c INTERNAL_ERROR w
     else do {
       let w = next_pending_write chunk w;
       if retcode io_job \<noteq> 0 then write_done_error j c WRITE_ERROR w
       else do {
         let w = upd_stat (\<lambda>st. st\<lparr>write_bytes := write_bytes st + ucast (f_size file)\<rparr>) w;
         offset \<leftarrow> (case job_arg io_job of JobOffset off \<Rightarrow> Some off | JobEntry e \<Rightarrow> None);
         let e = \<lparr>e_chunk_id = c_chunk_id (chunk_tab (store (srv w)) chunk), e_fid = f_fid file, e_offset = offset,
           e_size = f_size file + of_nat FILE_META_SIZE\<rparr>;
         let w = upd_store (\<lambda>st. st\<lparr>file_index := (file_index st)(head := e # file_index st head)\<rparr>) w;
         w \<leftarrow> reply_error c (error_code SUCCESS) w;
         Some (spy_free_io_job j w)
       }
     }
   }"

definition spy_check_chunk_done :: "nat \<Rightarrow> world \<Rightarrow> world option" where
  "spy_check_chunk_done j w = do {
     let io_job = io_jobs (srv w) j;
     w \<leftarrow> reply_error (job_conn io_job) (error_code (if retcode io_job = 0 then SUCCESS else CHUNK_CHECK_ERROR)) w;
     Some (spy_free_io_job j w)
   }"

definition spy_dump_chunkfile_done :: "nat \<Rightarrow> world \<Rightarrow> world option" where
  "spy_dump_chunkfile_done d w = do {
     dump_job \<leftarrow> dump_jobs (srv w) d;
     let c = dj_conn dump_job;
     let w = w\<lparr>srv := (srv w)\<lparr>dump_jobs := (dump_jobs (srv w))(d := None)\<rparr>\<rparr>;
     if dj_retcode dump_job \<noteq> 0 then spy_free_client_connection c w
     else do {
       cn \<leftarrow> get_conn c w;
       let (r, w) = spy_set_blocking (conn_fd cn) False w;
       if r \<noteq> 0 then spy_free_client_connection c w else spy_reset_client_connection c w
     }
   }"

section \<open>Request handlers\<close>

text \<open>The loops that enlarge a buffer until it can hold \<open>n\<close> bytes; the flag tells that the limit was reached.\<close>

function expand_to :: "nat \<Rightarrow> rw_buffer \<Rightarrow> mem_state \<Rightarrow> (bool \<times> rw_buffer \<times> mem_state) option" where
  "expand_to n b m =
     (if cap b < n then
        (case spy_rw_buffer_expand b m of
           None \<Rightarrow> None
         | Some (r, b', m') \<Rightarrow>
             if r < 0 then Some (False, b', m')
             else if cap b' \<le> cap b then None
             else expand_to n b' m')
      else Some (True, b, m))"
  by pat_completeness auto
termination
  by (relation "measure (\<lambda>(n, b, m). n - cap b)") auto

declare expand_to.simps [simp del]

definition expand_rsp_body :: "nat \<Rightarrow> nat \<Rightarrow> world \<Rightarrow> (bool \<times> world) option" where
  "expand_rsp_body n c w = do {
     cn \<leftarrow> get_conn c w;
     (ok, rsp, m) \<leftarrow> expand_to n (rsp_body cn) (mem (srv w));
     Some (ok, put_conn c (cn\<lparr>rsp_body := rsp\<rparr>) (set_mem m w))
   }"

text \<open>A response with a body: the header while the request is still being processed, then the body.\<close>

definition reply_with :: "nat \<Rightarrow> bytes \<Rightarrow> world \<Rightarrow> world option" where
  "reply_with c body w = do {
     cn \<leftarrow> get_conn c w;
     w \<leftarrow> spy_reply_header c (put_conn c (cn\<lparr>conn_error := 0, body_len := of_nat (length body)\<rparr>) w);
     cn \<leftarrow> get_conn c w;
     (k, rsp, m) \<leftarrow> spy_rw_buffer_write_n (rsp_body cn) (mem (srv w)) body;
     if k = length body then spy_reply_body c (put_conn c (cn\<lparr>rsp_body := rsp, conn_state := SEND_RSP\<rparr>) (set_mem m w))
     else None
   }"

fun kill_loop :: "nat list \<Rightarrow> world \<Rightarrow> world option" where
  "kill_loop [] w = Some w"
| "kill_loop (j # js) w = do {
     let w = w\<lparr>srv := (srv w)\<lparr>pending_writes := js, pending_writes_size := pending_writes_size (srv w) - 1\<rparr>\<rparr>;
     w \<leftarrow> reply_error (job_conn (io_jobs (srv w) j)) (error_code KILLED) w;
     kill_loop js (spy_free_io_job j w)
   }"

definition spy_kill_pending_writes :: "nat \<Rightarrow> world \<Rightarrow> world option" where
  "spy_kill_pending_writes c w = do {
     w \<leftarrow> kill_loop (pending_writes (srv w)) w;
     reply_error c 0 w
   }"

definition enc4 :: "u32 \<Rightarrow> bytes" where "enc4 v = spy_mach_write_to_4 (uninit 4) v"
definition enc8 :: "u64 \<Rightarrow> bytes" where "enc8 v = spy_mach_write_to_8 (uninit 8) v"

definition spy_query_io_status :: "nat \<Rightarrow> world \<Rightarrow> world option" where
  "spy_query_io_status c w = do {
     (ok, w) \<leftarrow> expand_rsp_body 12 c w;
     if \<not> ok then reply_error c (error_code REACH_MEMORY_LIMIT) w
     else reply_with c (enc4 (pending_writes_size (srv w)) @ enc4 (writing_count (statistic (srv w))) @
       enc4 (reading_count (statistic (srv w)))) w
   }"

definition chunk_infos :: "spy_store \<Rightarrow> nat list \<Rightarrow> bytes" where
  "chunk_infos st as = concat (map (\<lambda>a. enc8 (c_chunk_id (chunk_tab st a)) @ enc8 (avail_space (chunk_tab st a))) as)"

definition detail_infos :: "spy_server \<Rightarrow> bytes" where
  "detail_infos s =
     (let st = store s; x = statistic s
      in enc4 (conn_count x) @ enc4 (reading_count x) @ enc4 (writing_count x) @ enc4 (pending_writes_size s) @
         enc8 (read_count x) @ enc8 (write_count x) @ enc8 (read_error x) @ enc8 (write_error x) @
         enc8 (read_bytes x) @ enc8 (write_bytes x) @ enc4 (word_of_int (n_chunks st)) @
         chunk_infos st (chunks st) @ chunk_infos st (writing_chunks st) @
         enc8 (sum_list (map (\<lambda>a. ucast (files_count (chunk_tab st a))) (chunks st @ writing_chunks st))))"

text \<open>The buffer has \<open>size\<close> bytes; writing past its end is an invalid access, bytes not written are unspecified.\<close>

definition spy_query_detail_infos :: "nat \<Rightarrow> world \<Rightarrow> world option" where
  "spy_query_detail_infos c w = do {
     let sz = nat (int DEF_DETAIL_INFOS_HDR_SIZE + n_chunks (store (srv w)) * (8 + 8));
     let buf = detail_infos (srv w);
     if length buf \<le> sz then do {
       let buf = buf @ uninit (sz - length buf);
       (ok, w) \<leftarrow> expand_rsp_body sz c w;
       if \<not> ok then reply_error c (error_code REACH_MEMORY_LIMIT) w else reply_with c buf w
     } else None
   }"

definition no_more_reads :: "nat \<Rightarrow> world \<Rightarrow> world option" where
  "no_more_reads c w = do { cn \<leftarrow> get_conn c w; Some (aeDeleteFileEvent (conn_fd cn) AE_READABLE w) }"

definition spy_handle_ping :: "nat \<Rightarrow> world \<Rightarrow> world option" where
  "spy_handle_ping c w = do { w \<leftarrow> no_more_reads c w; reply_error c (error_code SUCCESS) w }"

text \<open>The inner header of a request: the server id and the file id.\<close>

definition read_inner_header :: "nat \<Rightarrow> world \<Rightarrow> (u16 \<times> u64 \<times> world) option" where
  "read_inner_header c w = do {
     cn \<leftarrow> get_conn c w;
     (buf, req) \<leftarrow> spy_rw_buffer_read_n (mem (srv w)) (request cn) REQ_INNER_HDR_SIZE;
     if length buf = REQ_INNER_HDR_SIZE then
       Some (spy_mach_read_from_2 buf, spy_mach_read_from_8 (drop 2 buf), put_conn c (cn\<lparr>request := req\<rparr>) w)
     else None
   }"

definition write_request_error :: "nat \<Rightarrow> spy_error \<Rightarrow> world \<Rightarrow> world option" where
  "write_request_error c err w =
     reply_error c (error_code err) (upd_stat (\<lambda>st. st\<lparr>write_error := write_error st + 1\<rparr>) w)"

definition spy_handle_write :: "nat \<Rightarrow> world \<Rightarrow> world option" where
  "spy_handle_write c w = do {
     cn \<leftarrow> get_conn c w;
     if body_len cn \<ge> of_nat REQ_INNER_HDR_SIZE then do {
       let blen = body_len cn - 8 - 2;
       (sid, fid, w) \<leftarrow> read_inner_header c w;
       if uint sid \<noteq> server_id (config (srv w)) then write_request_error c SERVER_ID_MISMATCH w
       else if fst (spy_lookup_file_index fid (store (srv w))) \<noteq> None then write_request_error c FILE_EXISTS w
       else do {
         let chunk = find (has_room (store (srv w)) blen) (chunks (store (srv w)));
         if chunk = None \<and> pending_writes_size (srv w) \<ge> DEF_MAX_PENDING_WRITES
         then write_request_error c CHUNK_UNAVAILABLE w
         else do {
           let w = (case chunk of Some a \<Rightarrow> upd_store (take_chunk a) w | None \<Rightarrow> w);
           (case spy_gen_io_job w of
              (None, w) \<Rightarrow> write_request_error c IO_JOB_UNAVAILABLE w
            | (Some j, w) \<Rightarrow> do {
                let job = io_jobs (srv w) j;
                let job = job\<lparr>job_file := (job_file job)\<lparr>f_fid := fid, f_ref := 1, f_size := blen\<rparr>, job_conn := c, job_work := WWrite\<rparr>;
                w \<leftarrow> no_more_reads c w;
                (case chunk of
                   Some a \<Rightarrow> do {
                     let w = upd_stat (\<lambda>st. st\<lparr>write_count := write_count st + 1, writing_count := writing_count st + 1\<rparr>) w;
                     let job = job\<lparr>job_arg := JobOffset (current_offset (chunk_tab (store (srv w)) a)), job_chunk := Some a\<rparr>;
                     Some (spy_queue_work (IoWork j) (set_job j job w))
                   }
                 | None \<Rightarrow> do {
                     let job = job\<lparr>job_arg := JobOffset 0, job_chunk := None, req_time := uint (clock (osys (srv w)))\<rparr>;
                     let w = set_job j job w;
                     Some (w\<lparr>srv := (srv w)\<lparr>pending_writes := pending_writes (srv w) @ [j],
                       pending_writes_size := pending_writes_size (srv w) + 1\<rparr>\<rparr>)
                   })
              })
         }
       }
     } else None
   }"

definition spy_string_ends_with :: "string \<Rightarrow> string \<Rightarrow> bool" where
  "spy_string_ends_with str suffix =
     (let lstr = length str; lsuffix = length suffix
      in if lsuffix > lstr then False else take lsuffix (drop (lstr - lsuffix) str) = suffix)"

text \<open>The characters up to the first null.\<close>

definition c_string :: "bytes \<Rightarrow> string" where
  "c_string bs = map (\<lambda>b. char_of (unat b)) (takeWhile (\<lambda>b. b \<noteq> 0) bs)"

definition spy_dump_chunk :: "nat \<Rightarrow> world \<Rightarrow> world option" where
  "spy_dump_chunk c w = do {
     cn \<leftarrow> get_conn c w;
     let d = next_dump (srv w);
     let dump_job = \<lparr>dj_retcode = 0, dj_conn = 0, dj_chunk = None, dj_name = []\<rparr>;
     let w = w\<lparr>srv := (srv w)\<lparr>next_dump := d + 1, dump_jobs := (dump_jobs (srv w))(d \<mapsto> dump_job)\<rparr>\<rparr>;
     if body_len cn \<ge> of_nat CHUNK_FILENAME_LEN_MAX then reply_error c (error_code INTERNAL_ERROR) w
     else do {
       (name, req) \<leftarrow> spy_rw_buffer_read_n (mem (srv w)) (request cn) (unat (body_len cn));
       if length name = unat (body_len cn) then do {
         let w = put_conn c (cn\<lparr>request := req\<rparr>) w;
         (case find (\<lambda>tmp. spy_string_ends_with (c_path (chunk_tab (store (srv w)) tmp)) (CHR ''/'' # c_string name)) (chunks (store (srv w))) of
            None \<Rightarrow> reply_error c (error_code FILE_NOT_FOUND) w
          | Some a \<Rightarrow> do {
              let (r, w) = spy_set_blocking (conn_fd cn) True w;
              if r \<noteq> 0 then reply_error c (error_code INTERNAL_ERROR) w
              else do {
                let dump_job = \<lparr>dj_retcode = 0, dj_conn = c, dj_chunk = Some a, dj_name = name\<rparr>;
                let w = w\<lparr>srv := (srv w)\<lparr>dump_jobs := (dump_jobs (srv w))(d \<mapsto> dump_job)\<rparr>\<rparr>;
                w \<leftarrow> no_more_reads c w;
                Some (spy_queue_work (DumpWork d) w)
              }
            })
       } else None
     }
   }"

definition read_request_error :: "nat \<Rightarrow> spy_error \<Rightarrow> world \<Rightarrow> world option" where
  "read_request_error c err w =
     reply_error c (error_code err) (upd_stat (\<lambda>st. st\<lparr>read_error := read_error st + 1\<rparr>) w)"

text \<open>When no chunk has the id of the entry, the variable \<open>chunk\<close> is read uninitialised.\<close>

definition spy_handle_read :: "nat \<Rightarrow> world \<Rightarrow> world option" where
  "spy_handle_read c w = do {
     (sid, fid, w) \<leftarrow> read_inner_header c w;
     if uint sid \<noteq> server_id (config (srv w)) then read_request_error c SERVER_ID_MISMATCH w
     else
       (case fst (spy_lookup_file_index fid (store (srv w))) of
          None \<Rightarrow> read_request_error c FILE_NOT_FOUND w
        | Some index_entry \<Rightarrow> do {
            chunk \<leftarrow> lookup_chunk (e_chunk_id index_entry) (store (srv w));
            (ok, w) \<leftarrow> expand_rsp_body (unat (e_size index_entry)) c w;
            if \<not> ok then read_request_error c REACH_MEMORY_LIMIT w
            else
              (case spy_gen_io_job w of
                 (None, w) \<Rightarrow> read_request_error c IO_JOB_UNAVAILABLE w
               | (Some j, w) \<Rightarrow> do {
                   let job = (io_jobs (srv w) j)\<lparr>job_arg := JobEntry index_entry, job_conn := c, job_chunk := Some chunk, job_work := WRead\<rparr>;
                   let w = upd_stat (\<lambda>st. st\<lparr>read_count := read_count st + 1, reading_count := reading_count st + 1\<rparr>) (set_job j job w);
                   w \<leftarrow> no_more_reads c w;
                   Some (spy_queue_work (IoWork j) w)
                 })
          })
   }"

definition next_rand :: "world \<Rightarrow> nat \<times> world" where
  "next_rand w = (case rands (srv w) of [] \<Rightarrow> (0, w) | r # rs \<Rightarrow> (r, w\<lparr>srv := (srv w)\<lparr>rands := rs\<rparr>\<rparr>))"

text \<open>A division by zero when there is no chunk; an uninitialised \<open>chunk\<close> when the id is not in use.\<close>

definition spy_handle_check_disk :: "nat \<Rightarrow> world \<Rightarrow> world option" where
  "spy_handle_check_disk c w = do {
     let (r, w) = next_rand w;
     if n_chunks (store (srv w)) = 0 then None
     else do {
       chunk \<leftarrow> lookup_chunk (word_of_int (int r mod n_chunks (store (srv w)) + 1)) (store (srv w));
       (case spy_gen_io_job w of
          (None, w) \<Rightarrow> reply_error c (error_code IO_JOB_UNAVAILABLE) w
        | (Some j, w) \<Rightarrow> do {
            let job = (io_jobs (srv w) j)\<lparr>job_conn := c, job_chunk := Some chunk, job_work := WCheck\<rparr>;
            w \<leftarrow> no_more_reads c (set_job j job w);
            Some (spy_queue_work (IoWork j) w)
          })
     }
   }"

definition dispatch :: "nat \<Rightarrow> u8 \<Rightarrow> world \<Rightarrow> world option" where
  "dispatch c opc w =
     (if opc = opcode_num OPCODE_WRITE then spy_handle_write c w
      else if opc = opcode_num OPCODE_READ then spy_handle_read c w
      else if opc = opcode_num OPCODE_PING then spy_handle_ping c w
      else if opc = opcode_num OPCODE_CHECK_DISK then spy_handle_check_disk c w
      else if opc = opcode_num OPCODE_KILL_PD_WR then spy_kill_pending_writes c w
      else if opc = opcode_num OPCODE_QUERY_IO_STATUS then spy_query_io_status c w
      else if opc = opcode_num OPCODE_QUERY_DETAIL_INFOS then spy_query_detail_infos c w
      else if opc = opcode_num OPCODE_DUMP_CHUNK then spy_dump_chunk c w
      else spy_free_client_connection c w)"

definition unread_len :: "spy_connection \<Rightarrow> nat" where
  "unread_len cn = write_pos (request cn) - read_pos (request cn)"

definition receive_header :: "mem_state \<Rightarrow> spy_connection \<Rightarrow> spy_connection option" where
  "receive_header m cn =
     (if conn_state cn = RECEIVE_HDR \<and> unread_len cn \<ge> REQ_HDR_SIZE then do {
        (buf, req) \<leftarrow> spy_rw_buffer_read_n m (request cn) REQ_HDR_SIZE;
        if length buf = REQ_HDR_SIZE then
          Some (cn\<lparr>request := req, opcode := spy_mach_read_from_1 buf, body_len := spy_mach_read_from_4 (drop 1 buf),
            conn_state := RECEIVE_BODY\<rparr>)
        else None
      } else Some cn)"

definition receive_body :: "spy_connection \<Rightarrow> spy_connection" where
  "receive_body cn =
     (if conn_state cn = RECEIVE_BODY \<and> unread_len cn \<ge> unat (body_len cn) then cn\<lparr>conn_state := PROCESS_REQUEST\<rparr> else cn)"

definition spy_process_receive_buffer :: "nat \<Rightarrow> world \<Rightarrow> world option" where
  "spy_process_receive_buffer c w = do {
     cn \<leftarrow> get_conn c w;
     cn \<leftarrow> receive_header (mem (srv w)) cn;
     let cn = receive_body cn;
     let w = put_conn c cn w;
     if conn_state cn = PROCESS_REQUEST then dispatch c (opcode cn) w else Some w
   }"

text \<open>The loop that finds room for the next read; no area when the memory limit is reached.\<close>

partial_function (option) make_room :: "rw_buffer \<Rightarrow> mem_state \<Rightarrow> ((area \<times> nat) option \<times> rw_buffer \<times> mem_state) option" where
  "make_room b m =
     Option.bind (spy_rw_buffer_next_writeable m b) (\<lambda>(b, nxt).
     (case nxt of
        Some a \<Rightarrow> Some (Some a, b, m)
      | None \<Rightarrow>
          Option.bind (spy_rw_buffer_expand b m) (\<lambda>(r, b, m).
          if r < 0 then Some (None, b, m) else make_room b m)))"

definition spy_read_handler :: "nat \<Rightarrow> world \<Rightarrow> world option" where
  "spy_read_handler c w = do {
     cn \<leftarrow> get_conn c w;
     (place, req, m) \<leftarrow> make_room (request cn) (mem (srv w));
     let w = put_conn c (cn\<lparr>request := req\<rparr>) (set_mem m w);
     (case place of
        None \<Rightarrow> spy_free_client_connection c w
      | Some (buf, len) \<Rightarrow>
          (case sock_recv (conn_fd cn) len w of
             (Fail e, w) \<Rightarrow> if e = EAGAIN then Some w else spy_free_client_connection c w
           | (Done data, w) \<Rightarrow>
               if data = [] then spy_free_client_connection c w
               else do {
                 m \<leftarrow> store_area (mem (srv w)) buf data;
                 spy_process_receive_buffer c
                   (put_conn c (cn\<lparr>request := req\<lparr>write_pos := write_pos req + length data\<rparr>\<rparr>) (set_mem m w))
               }))
   }"

text \<open>When the event cannot be created the connection is freed and its descriptor stays open.\<close>

definition spy_create_client_connection :: "nat \<Rightarrow> world \<Rightarrow> world" where
  "spy_create_client_connection fd w =
     (if conn_mem (srv w) = 0 then w
      else
        let c = next_conn (srv w);
            cn = \<lparr>conn_fd = fd, request = spy_rw_buffer_init, rsp_body = spy_rw_buffer_init, rsp_header = replicate RSP_HDR_SIZE 0,
              sentlen = 0, opcode = 0, conn_error = 0, body_len = 0, conn_state = RECEIVE_HDR\<rparr>;
            w = put_conn c cn (w\<lparr>srv := (srv w)\<lparr>next_conn := c + 1, conn_mem := conn_mem (srv w) - 1\<rparr>\<rparr>)
        in case aeCreateFileEvent fd AE_READABLE ReadHandler (Some c) w of (n, w) \<Rightarrow>
             if n = AE_ERR then w\<lparr>srv := (srv w)\<lparr>conns := (conns (srv w))(c := None)\<rparr>\<rparr>
             else upd_stat (\<lambda>st. st\<lparr>conn_count := conn_count st + 1\<rparr>) w)"

text \<open>\<open>accept4\<close> gives the next waiting connection as a new socket that does not block.\<close>

definition spy_accept_handler :: "world \<Rightarrow> world" where
  "spy_accept_handler w =
     (case accept_queue (srv w) of
        [] \<Rightarrow> w
      | cfd # q \<Rightarrow>
          let s = srv w; s = s\<lparr>accept_queue := q, nonblock := (nonblock s)(cfd := True), sock_in := (sock_in s)(cfd := []),
            sock_eof := (sock_eof s)(cfd := False), osys := (osys s)\<lparr>files := (files (osys s))(cfd := [])\<rparr>\<rparr>
          in spy_create_client_connection cfd (w\<lparr>srv := s\<rparr>))"

section \<open>Workers\<close>

text \<open>A worker runs \<open>work->fn\<close>: one step on the objects the job refers to.\<close>

definition set_chunk :: "nat \<Rightarrow> spy_chunk \<Rightarrow> world \<Rightarrow> world" where
  "set_chunk a ch w = upd_store (\<lambda>st. st\<lparr>chunk_tab := (chunk_tab st)(a := ch)\<rparr>) w"

definition set_os :: "os \<Rightarrow> world \<Rightarrow> world" where
  "set_os s w = w\<lparr>srv := (srv w)\<lparr>osys := s\<rparr>\<rparr>"

definition run_io_job :: "nat \<Rightarrow> world \<Rightarrow> world option" where
  "run_io_job j w = do {
     let job = io_jobs (srv w) j;
     a \<leftarrow> job_chunk job;
     cn \<leftarrow> get_conn (job_conn job) w;
     let ch = chunk_tab (store (srv w)) a;
     (case job_work job of
        WWrite \<Rightarrow> do {
          (job', cn', ch', s') \<leftarrow> spy_write_file (cfg_sync (config (srv w)) \<noteq> 0) job cn ch (mem (srv w)) (osys (srv w));
          Some (set_job j job' (put_conn (job_conn job) cn' (set_chunk a ch' (set_os s' w))))
        }
      | WRead \<Rightarrow> do {
          (job', cn', m', s') \<leftarrow> spy_read_file job cn ch (mem (srv w)) (osys (srv w));
          Some (set_job j job' (put_conn (job_conn job) cn' (set_mem m' (set_os s' w))))
        }
      | WCheck \<Rightarrow> do {
          let (r, w) = next_rand w;
          let (job', s') = spy_check_chunk r job ch (osys (srv w));
          Some (set_job j job' (set_os s' w))
        }
      | _ \<Rightarrow> None)
   }"

definition run_dump_job :: "nat \<Rightarrow> world \<Rightarrow> world option" where
  "run_dump_job d w = do {
     dj \<leftarrow> dump_jobs (srv w) d;
     a \<leftarrow> dj_chunk dj;
     cn \<leftarrow> get_conn (dj_conn dj) w;
     (r, cn', s') \<leftarrow> spy_dump_chunkfile cn (chunk_tab (store (srv w)) a) (osys (srv w));
     let w = put_conn (dj_conn dj) cn' (set_os s' w);
     Some (w\<lparr>srv := (srv w)\<lparr>dump_jobs := (dump_jobs (srv w))(d \<mapsto> dj\<lparr>dj_retcode := r\<rparr>)\<rparr>\<rparr>)
   }"

definition run_work :: "work \<Rightarrow> world \<Rightarrow> world option" where
  "run_work wk w = do {
     w \<leftarrow> (case wk of IoWork j \<Rightarrow> run_io_job j w | DumpWork d \<Rightarrow> run_dump_job d w);
     Some (w\<lparr>srv := (srv w)\<lparr>wq_queued := remove1 wk (wq_queued (srv w)), wq_finished := wq_finished (srv w) @ [wk]\<rparr>\<rparr>)
   }"

text \<open>\<open>work->done\<close>, chosen together with \<open>work->fn\<close>.\<close>

definition work_done :: "work \<Rightarrow> world \<Rightarrow> world option" where
  "work_done wk w =
     (case wk of
        DumpWork d \<Rightarrow> spy_dump_chunkfile_done d w
      | IoWork j \<Rightarrow>
          (case job_work (io_jobs (srv w) j) of
             WWrite \<Rightarrow> spy_write_file_done j w
           | WRead \<Rightarrow> spy_read_file_done j w
           | WCheck \<Rightarrow> spy_check_chunk_done j w
           | _ \<Rightarrow> None))"

text \<open>The finished works are spliced to a local list, then completed one after the other.\<close>

fun done_loop :: "work list \<Rightarrow> world \<Rightarrow> world option" where
  "done_loop [] w = Some w"
| "done_loop (wk # wks) w = do { w \<leftarrow> work_done wk w; done_loop wks w }"

definition spy_wq_thread_done :: "world \<Rightarrow> world option" where
  "spy_wq_thread_done w = done_loop (wq_finished (srv w)) (w\<lparr>srv := (srv w)\<lparr>wq_finished := []\<rparr>\<rparr>)"

section \<open>The timer\<close>

fun free_space_loop :: "(nat \<Rightarrow> spy_chunk) \<Rightarrow> nat list \<Rightarrow> u64 \<times> u64 \<Rightarrow> u64 \<times> u64" where
  "free_space_loop tab [] (tot, mx) = (tot, mx)"
| "free_space_loop tab (a # as) (tot, mx) =
     free_space_loop tab as (tot + avail_space (tab a), if avail_space (tab a) > mx then avail_space (tab a) else mx)"

definition spy_collect_free_space :: "spy_store \<Rightarrow> u64 \<times> u64" where
  "spy_collect_free_space st =
     free_space_loop (chunk_tab st) (writing_chunks st) (free_space_loop (chunk_tab st) (chunks st) (0, 0))"

primrec status_code :: "spy_server_status \<Rightarrow> int" where
  "status_code STATUS_RW = 0"
| "status_code STATUS_RO = 1"
| "status_code STATUS_PRE_RO = 2"

definition current_report :: "spy_server \<Rightarrow> spy_report_info \<Rightarrow> spy_report_info" where
  "current_report s r =
     (let (total_free, max_free) = spy_collect_free_space (store s)
      in r\<lparr>max_free_space := max_free, total_free_space := total_free, ri_status := status_code (status s),
         ri_n_chunks := n_chunks (store s), ri_pending_writes := sint (pending_writes_size s),
         ri_writing_count := sint (writing_count (statistic s)), ri_reading_count := sint (reading_count (statistic s)),
         ri_conn_count := sint (conn_count (statistic s))\<rparr>)"

definition spy_report_server_infos :: "world \<Rightarrow> world" where
  "spy_report_server_infos w =
     (let s = srv w; r = report_info s
      in case spy_atomic_cmp_and_set (ri_lock r) 0 1 of
           (False, _) \<Rightarrow> w
         | (True, l) \<Rightarrow>
             let r = current_report s (r\<lparr>ri_lock := l\<rparr>);
                 r = r\<lparr>ri_lock := snd (spy_atomic_cmp_and_set (ri_lock r) 1 0)\<rparr>
             in w\<lparr>srv := s\<lparr>report_info := r\<rparr>\<rparr>)"

fun timeout_loop :: "int \<Rightarrow> nat list \<Rightarrow> world \<Rightarrow> world option" where
  "timeout_loop t [] w = Some w"
| "timeout_loop t (j # js) w =
     (if req_time (io_jobs (srv w) j) + DEF_PENDING_WRITE_TIMEOUT > t then Some w
      else do {
        let w = w\<lparr>srv := (srv w)\<lparr>pending_writes := js, pending_writes_size := pending_writes_size (srv w) - 1\<rparr>\<rparr>;
        w \<leftarrow> reply_error (job_conn (io_jobs (srv w) j)) (error_code CHUNK_UNAVAILABLE) w;
        timeout_loop t js (spy_free_io_job j w)
      })"

definition spy_remove_timeout_pending_writes :: "world \<Rightarrow> world option" where
  "spy_remove_timeout_pending_writes w =
     (if pending_writes_size (srv w) = 0 then Some w
      else if pending_writes (srv w) = [] then None
      else timeout_loop (uint (clock (osys (srv w)))) (pending_writes (srv w)) w)"

definition spy_server_cron :: "world \<Rightarrow> (int \<times> world) option" where
  "spy_server_cron w = do {
     w \<leftarrow> spy_remove_timeout_pending_writes (spy_report_server_infos w);
     Some (1000, w)
   }"

section \<open>The program\<close>

definition spy_code :: "(spy_proc, nat, world) procs" where
  "spy_code =
     \<lparr>file_proc = (\<lambda>p fd data msk w.
        case p of
          AcceptHandler \<Rightarrow> Some (spy_accept_handler w)
        | ReadHandler \<Rightarrow> Option.bind data (\<lambda>c. spy_read_handler c w)
        | WriteHandler \<Rightarrow> Option.bind data (\<lambda>c. spy_write_handler c w)
        | WqThreadDone \<Rightarrow> spy_wq_thread_done w
        | ServerCron \<Rightarrow> None),
      time_proc = (\<lambda>p i data w. case p of ServerCron \<Rightarrow> spy_server_cron w | _ \<Rightarrow> None),
      final_proc = (\<lambda>p data w. None),
      sleep_proc = (\<lambda>p w. None)\<rparr>"

text \<open>The part of \<open>spy_server_init\<close> that clears the server and the statistic; \<open>m\<close> is the memory of the system.\<close>

definition init_server :: "spy_config \<Rightarrow> mem_state \<Rightarrow> os \<Rightarrow> nat \<Rightarrow> nat list \<Rightarrow> spy_server" where
  "init_server cfg m os0 cmem rnds =
     \<lparr>config = cfg, mem = m\<lparr>free_mem_blocks := [], mem_blocks_alloc := 0, mem_blocks_alloc_limit := 0, mem_blocks_used := 0\<rparr>,
      store = empty_store, conns = Map.empty, next_conn = 0, io_jobs = (\<lambda>_. zero_job), free_io_jobs = [],
      dump_jobs = Map.empty, next_dump = 0, pending_writes = [], pending_writes_size = 0,
      statistic = \<lparr>read_bytes = 0, write_bytes = 0, read_count = 0, write_count = 0, read_error = 0, write_error = 0,
        conn_count = 0, reading_count = 0, writing_count = 0\<rparr>,
      status = STATUS_RW, report_info = zero_report, wq_queued = [], wq_finished = [], osys = os0,
      sock_in = (\<lambda>_. []), sock_eof = (\<lambda>_. False), nonblock = (\<lambda>_. False), accept_queue = [], conn_mem = cmem, rands = rnds\<rparr>"

text \<open>\<open>lis\<close> tells whether \<open>listen\<close> succeeds, the next arguments are those of \<open>aeCreateEventLoop\<close> and \<open>aeCreateTimeEvent\<close>.\<close>

definition spy_setup_listen_events ::
    "bool \<Rightarrow> nat \<Rightarrow> bool \<Rightarrow> int \<times> int \<Rightarrow> bool \<Rightarrow> nat \<Rightarrow> spy_server \<Rightarrow> world option" where
  "spy_setup_listen_events lis avail epoll time0 tmem listen_fd s =
     (if \<not> lis then None
      else do {
        el \<leftarrow> aeCreateEventLoop avail epoll time0 DEF_MAX_CLIENTS;
        let w = aeEventLoop.extend el (world.fields s);
        let (n, w) = aeCreateFileEvent listen_fd AE_READABLE AcceptHandler None w;
        if n = AE_ERR then None
        else do {
          let (n, w) = aeCreateTimeEvent tmem 1000 ServerCron 0 None w;
          if n = AE_ERR then None else Some w
        }
      })"

text \<open>\<open>avail\<close> is the number of threads that can be created.\<close>

definition spy_setup_work_queue :: "nat \<Rightarrow> nat \<Rightarrow> world \<Rightarrow> world option" where
  "spy_setup_work_queue avail event_fd w = do {
     (_ :: work wq) \<leftarrow> spy_create_work_queue avail (clock (osys (srv w))) (int DEF_WQ_NR_THRS);
     let (n, w) = aeCreateFileEvent event_fd AE_READABLE WqThreadDone None w;
     if n = AE_ERR then None else Some w
   }"

text \<open>
  The end of \<open>main\<close>, from \<open>spy_setup_listen_events\<close> on. \<open>st\<close> and \<open>os0\<close> are what \<open>spy_create_or_recover_files\<close> leaves.
\<close>

definition start_server ::
    "spy_config \<Rightarrow> mem_state \<Rightarrow> spy_store \<Rightarrow> os \<Rightarrow> nat \<Rightarrow> nat list \<Rightarrow> bool \<Rightarrow> nat \<Rightarrow> bool \<Rightarrow> int \<times> int \<Rightarrow> bool \<Rightarrow> nat \<Rightarrow> nat \<Rightarrow>
     nat \<Rightarrow> world option" where
  "start_server cfg m st os0 cmem rnds lis avail epoll time0 tmem listen_fd threads event_fd = do {
     w \<leftarrow> spy_setup_listen_events lis avail epoll time0 tmem listen_fd ((init_server cfg m os0 cmem rnds)\<lparr>store := st\<rparr>);
     w \<leftarrow> spy_setup_work_queue threads event_fd w;
     m \<leftarrow> spy_setup_mem_blocks (unat (mb_prealloc_count cfg)) (unat (mb_limit cfg)) (mem (srv w));
     s \<leftarrow> spy_init_io_jobs DEF_MAX_IO_JOBS ((srv w)\<lparr>mem := m\<rparr>);
     Some (w\<lparr>srv := s\<lparr>report_info := (report_info s)\<lparr>ri_lock := spy_atomic_set 0\<rparr>\<rparr>\<rparr>)
   }"

end
