(* ===== verification/Spy_Invariant.thy ===== *)
theory Spy_Invariant
  imports Spy_Server Spy_Pool
begin

text \<open>
  The invariant of the running server: which events each connection is registered for in each state of its
  request, who owns each io job, chunk and memory block, and what the counters count.
\<close>

section \<open>Event operations leave the server alone\<close>

lemma srv_events [simp]:
  "srv (aeDeleteFileEvent fd msk w) = srv w" "srv (sys_close fd w) = srv w"
  by (simp_all add: aeDeleteFileEvent_def aeApiDelEvent_def epoll_ctl_def sys_close_def Let_def)

lemma srv_create [simp]: "aeCreateFileEvent fd msk p data w = (n, w') \<Longrightarrow> srv w' = srv w"
  by (auto simp: aeCreateFileEvent_def aeApiAddEvent_def epoll_ctl_def Let_def split: if_splits list.splits bool.splits prod.splits)

lemma setsize_events [simp]:
  "setsize (aeDeleteFileEvent fd msk w) = setsize w" "setsize (sys_close fd w) = setsize w"
  by (simp_all add: aeDeleteFileEvent_def aeApiDelEvent_def epoll_ctl_def sys_close_def Let_def)

lemma events_close [simp]: "events (sys_close fd w) = events w"
  by (simp add: sys_close_def)

lemma del_event_none: "fe_mask fe = AE_NONE \<Longrightarrow> del_event msk fe = fe"
  by (simp add: del_event_def AE_NONE_def)

lemma events_delete:
  "events (aeDeleteFileEvent fd msk el) fd' = (if fd' = fd \<and> fd < setsize el then del_event msk (events el fd) else events el fd')"
  by (auto simp: aeDeleteFileEvent_def aeApiDelEvent_def epoll_ctl_def Let_def del_event_none)
    (simp_all add: del_event_def)

section \<open>Definition\<close>

definition io_of :: "work \<Rightarrow> nat list" where
  "io_of wk = (case wk of IoWork j \<Rightarrow> [j] | DumpWork d \<Rightarrow> [])"

definition work_conn :: "spy_server \<Rightarrow> work \<Rightarrow> nat" where
  "work_conn s wk = (case wk of IoWork j \<Rightarrow> job_conn (io_jobs s j)
     | DumpWork d \<Rightarrow> (case dump_jobs s d of None \<Rightarrow> 0 | Some dj \<Rightarrow> dj_conn dj))"

text \<open>
  The works of the queue, \<open>t\<close> those spliced off it and not yet completed; all works, with the pending writes; the
  connections and the io jobs they hold.
\<close>

definition qworks :: "work list \<Rightarrow> spy_server \<Rightarrow> work list" where
  "qworks t s = wq_queued s @ wq_finished s @ t"

definition works :: "work list \<Rightarrow> spy_server \<Rightarrow> work list" where
  "works t s = map IoWork (pending_writes s) @ qworks t s"

definition owners :: "work list \<Rightarrow> spy_server \<Rightarrow> nat list" where
  "owners t s = map (work_conn s) (works t s)"

definition busy :: "work list \<Rightarrow> spy_server \<Rightarrow> nat list" where
  "busy t s = concat (map io_of (works t s))"

text \<open>
  The events of a connection by the state of its request, when \<open>own\<close> are the connections held by works: while a
  request arrives it is read, while a response is sent it is written, and while a work holds it no event can touch
  it. \<open>cur\<close> are the connections that the running handler works on.
\<close>

definition phase_ok :: "nat set \<Rightarrow> nat list \<Rightarrow> u32 \<Rightarrow> nat \<Rightarrow> spy_conn_state \<Rightarrow> bool" where
  "phase_ok cur own msk c st \<longleftrightarrow>
     (if c \<in> cur then c \<notin> set own
      else case st of
          RECEIVE_HDR \<Rightarrow> msk = 1 \<and> c \<notin> set own
        | RECEIVE_BODY \<Rightarrow> msk = 1 \<and> c \<notin> set own
        | PROCESS_REQUEST \<Rightarrow> msk = 0 \<and> c \<in> set own
        | SEND_RSP \<Rightarrow> msk \<in> {2, 3} \<and> c \<notin> set own)"

text \<open>The registered handlers are those of the connection.\<close>

definition reg_ok :: "u32 \<Rightarrow> nat \<Rightarrow> (spy_proc, nat) aeFileEvent \<Rightarrow> bool" where
  "reg_ok msk c fe \<longleftrightarrow> (msk \<noteq> 0 \<longrightarrow> clientData fe = Some c) \<and>
     (msk AND AE_READABLE \<noteq> 0 \<longrightarrow> rfileProc fe = Some ReadHandler) \<and>
     (msk AND AE_WRITABLE \<noteq> 0 \<longrightarrow> wfileProc fe = Some WriteHandler)"

definition conn_ok :: "nat set \<Rightarrow> nat list \<Rightarrow> world \<Rightarrow> nat \<Rightarrow> spy_connection \<Rightarrow> bool" where
  "conn_ok cur own w c cn \<longleftrightarrow> c < next_conn (srv w) \<and> conn_fd cn \<noteq> 0 \<and>
     phase_ok cur own (aeGetFileEvents (conn_fd cn) w) c (conn_state cn) \<and>
     reg_ok (aeGetFileEvents (conn_fd cn) w) c (events w (conn_fd cn))"

text \<open>Live connections have different descriptors; the other registered descriptors are the listening socket and the event
  descriptor of the work queue.\<close>

definition fd_of :: "spy_server \<Rightarrow> nat \<Rightarrow> nat option" where
  "fd_of s c = map_option conn_fd (conns s c)"

definition fds_ok :: "world \<Rightarrow> bool" where
  "fds_ok w \<longleftrightarrow> inj_on (fd_of (srv w)) (dom (fd_of (srv w))) \<and>
     (\<forall>fd. aeGetFileEvents fd w \<noteq> 0 \<longrightarrow> Some fd \<in> range (fd_of (srv w)) \<or>
        aeGetFileEvents fd w = 1 \<and> (rfileProc (events w fd) = Some AcceptHandler \<or> rfileProc (events w fd) = Some WqThreadDone))"

definition conns_ok :: "nat set \<Rightarrow> work list \<Rightarrow> world \<Rightarrow> bool" where
  "conns_ok cur t w \<longleftrightarrow> fds_ok w \<and>
     (\<forall>c cn. conns (srv w) c = Some cn \<longrightarrow> conn_ok cur (owners t (srv w)) w c cn) \<and>
     distinct (owners t (srv w)) \<and> (\<forall>c\<in>set (owners t (srv w)). conns (srv w) c \<noteq> None) \<and>
     (\<forall>c\<in>cur. conns (srv w) c \<noteq> None)"

text \<open>Every io job is free, held by a work, or, for those in \<open>hand\<close>, used by the running handler.\<close>

definition work_ok :: "spy_server \<Rightarrow> work \<Rightarrow> bool" where
  "work_ok s wk \<longleftrightarrow>
     (case wk of
        IoWork j \<Rightarrow> job_chunk (io_jobs s j) \<noteq> None \<and> job_work (io_jobs s j) \<in> {WWrite, WRead, WCheck} \<and>
          (job_work (io_jobs s j) = WWrite \<longrightarrow> (\<exists>off. job_arg (io_jobs s j) = JobOffset off))
      | DumpWork d \<Rightarrow> dump_jobs s d \<noteq> None)"

definition jobs_ok :: "work list \<Rightarrow> nat list \<Rightarrow> spy_server \<Rightarrow> bool" where
  "jobs_ok t hand s \<longleftrightarrow>
     distinct (free_io_jobs s @ hand @ busy t s) \<and> set (free_io_jobs s @ hand @ busy t s) = {..<DEF_MAX_IO_JOBS} \<and>
     (\<forall>j\<in>set (pending_writes s). job_work (io_jobs s j) = WWrite \<and> job_chunk (io_jobs s j) = None) \<and>
     (\<forall>wk\<in>set (qworks t s). work_ok s wk) \<and>
     (\<forall>d. dump_jobs s d \<noteq> None \<longrightarrow> d < next_dump s) \<and>
     length (pending_writes s) \<le> 20 \<and> pending_writes_size s = of_nat (length (pending_writes s))"

text \<open>Each chunk that is being written has one writer, and is in the list of writing chunks.\<close>

definition writes :: "spy_server \<Rightarrow> work \<Rightarrow> bool" where
  "writes s wk \<longleftrightarrow> (case wk of IoWork j \<Rightarrow> job_work (io_jobs s j) = WWrite | DumpWork d \<Rightarrow> False)"

definition reads :: "spy_server \<Rightarrow> work \<Rightarrow> bool" where
  "reads s wk \<longleftrightarrow> (case wk of IoWork j \<Rightarrow> job_work (io_jobs s j) = WRead | DumpWork d \<Rightarrow> False)"

definition work_chunk :: "spy_server \<Rightarrow> work \<Rightarrow> nat option" where
  "work_chunk s wk = (case wk of IoWork j \<Rightarrow> job_chunk (io_jobs s j)
     | DumpWork d \<Rightarrow> (case dump_jobs s d of None \<Rightarrow> None | Some dj \<Rightarrow> dj_chunk dj))"

definition writers :: "work list \<Rightarrow> spy_server \<Rightarrow> nat option list" where
  "writers t s = map (work_chunk s) (filter (writes s) (qworks t s))"

definition store_ok :: "work list \<Rightarrow> spy_server \<Rightarrow> bool" where
  "store_ok t s \<longleftrightarrow> chunks_ok (store s) \<and> index_ok (file_index (store s)) \<and>
     distinct (writers t s) \<and> set (writers t s) \<subseteq> Some ` set (writing_chunks (store s))"

definition stats_ok :: "work list \<Rightarrow> spy_server \<Rightarrow> bool" where
  "stats_ok t s \<longleftrightarrow>
     reading_count (statistic s) = of_nat (length (filter (reads s) (qworks t s))) \<and>
     writing_count (statistic s) = of_nat (length (filter (writes s) (qworks t s))) \<and>
     finite (dom (conns s)) \<and> conn_count (statistic s) = of_nat (card (dom (conns s)))"

text \<open>The memory blocks in use are those of the buffers of live connections, each in one buffer.\<close>

definition conn_blocks :: "spy_connection \<Rightarrow> nat list" where
  "conn_blocks cn = mem_blocks (request cn) @ mem_blocks (rsp_body cn)"

definition owned :: "spy_server \<Rightarrow> nat list" where
  "owned s = concat (map (\<lambda>c. case conns s c of None \<Rightarrow> [] | Some cn \<Rightarrow> conn_blocks cn) [0..<next_conn s])"

definition bufs_ok :: "spy_server \<Rightarrow> bool" where
  "bufs_ok s \<longleftrightarrow> pool_ok (mem s) (owned s) \<and>
     (\<forall>c cn. conns s c = Some cn \<longrightarrow> rwb_ok (mem s) (request cn) \<and> rwb_ok (mem s) (rsp_body cn))"

definition srv_inv :: "nat set \<Rightarrow> work list \<Rightarrow> nat list \<Rightarrow> world \<Rightarrow> bool" where
  "srv_inv cur t hand w \<longleftrightarrow> loop_ok w \<and> conns_ok cur t w \<and> jobs_ok t hand (srv w) \<and> store_ok t (srv w) \<and>
     stats_ok t (srv w) \<and> bufs_ok (srv w)"

section \<open>What the parts depend on\<close>

lemma work_frame:
  assumes "io_jobs s' = io_jobs s" "dump_jobs s' = dump_jobs s"
  shows "work_conn s' = work_conn s" "work_ok s' = work_ok s" "writes s' = writes s" "reads s' = reads s" "work_chunk s' = work_chunk s"
  using assms by (auto simp: work_conn_def work_ok_def writes_def reads_def work_chunk_def split: work.splits)

lemma qworks_frame:
  assumes "wq_queued s' = wq_queued s" "wq_finished s' = wq_finished s"
  shows "qworks t s' = qworks t s"
  using assms by (simp add: qworks_def)

lemma owners_cong:
  assumes "io_jobs s' = io_jobs s" "dump_jobs s' = dump_jobs s" "pending_writes s' = pending_writes s" "wq_queued s' = wq_queued s"
    "wq_finished s' = wq_finished s"
  shows "owners t s' = owners t s" "works t s' = works t s" "busy t s' = busy t s"
  using work_frame [OF assms(1,2)] assms by (simp_all add: owners_def busy_def works_def qworks_def)

lemma jobs_ok_cong:
  assumes "io_jobs s' = io_jobs s" "dump_jobs s' = dump_jobs s" "pending_writes s' = pending_writes s" "wq_queued s' = wq_queued s"
    "wq_finished s' = wq_finished s" "free_io_jobs s' = free_io_jobs s" "next_dump s' = next_dump s" "pending_writes_size s' = pending_writes_size s"
  shows "jobs_ok t hand s' = jobs_ok t hand s"
  using work_frame [OF assms(1,2)] owners_cong(3) [OF assms(1-5)] qworks_frame [OF assms(4,5)] assms by (simp add: jobs_ok_def)

lemma store_ok_cong:
  assumes "io_jobs s' = io_jobs s" "dump_jobs s' = dump_jobs s" "wq_queued s' = wq_queued s" "wq_finished s' = wq_finished s" "store s' = store s"
  shows "store_ok t s' = store_ok t s"
  using work_frame [OF assms(1,2)] qworks_frame [OF assms(3,4)] assms by (simp add: store_ok_def writers_def)

lemma stats_ok_cong:
  assumes "io_jobs s' = io_jobs s" "dump_jobs s' = dump_jobs s" "wq_queued s' = wq_queued s" "wq_finished s' = wq_finished s"
    "dom (conns s') = dom (conns s)" "reading_count (statistic s') = reading_count (statistic s)"
    "writing_count (statistic s') = writing_count (statistic s)" "conn_count (statistic s') = conn_count (statistic s)"
  shows "stats_ok t s' = stats_ok t s"
  using work_frame [OF assms(1,2)] qworks_frame [OF assms(3,4)] assms by (simp add: stats_ok_def)

lemma bufs_ok_cong:
  assumes "mem s' = mem s" "conns s' = conns s" "next_conn s' = next_conn s"
  shows "bufs_ok s' = bufs_ok s"
  using assms by (simp add: bufs_ok_def owned_def)

text \<open>A step that changes none of this keeps the invariant.\<close>

lemma aeGetFileEvents_srv [simp]: "aeGetFileEvents fd (w\<lparr>srv := s\<rparr>) = aeGetFileEvents fd w"
  by (simp add: aeGetFileEvents_def)

lemma loop_ok_srv [simp]: "loop_ok (w\<lparr>srv := s\<rparr>) = loop_ok w"
  by (simp add: loop_ok_def)

lemma conns_ok_cong:
  assumes "owners t s = owners t (srv w)" "conns s = conns (srv w)" "next_conn s = next_conn (srv w)"
  shows "conns_ok cur t (w\<lparr>srv := s\<rparr>) = conns_ok cur t w"
proof -
  have "fd_of s = fd_of (srv w)" using assms(2) by (simp add: fd_of_def fun_eq_iff)
  then show ?thesis using assms by (simp add: conns_ok_def fds_ok_def conn_ok_def)
qed

lemma srv_inv_cong:
  assumes "io_jobs s = io_jobs (srv w)" "dump_jobs s = dump_jobs (srv w)" "pending_writes s = pending_writes (srv w)"
    "wq_queued s = wq_queued (srv w)" "wq_finished s = wq_finished (srv w)" "free_io_jobs s = free_io_jobs (srv w)"
    "next_dump s = next_dump (srv w)" "pending_writes_size s = pending_writes_size (srv w)" "store s = store (srv w)"
    "conns s = conns (srv w)" "next_conn s = next_conn (srv w)" "mem s = mem (srv w)"
    "reading_count (statistic s) = reading_count (statistic (srv w))"
    "writing_count (statistic s) = writing_count (statistic (srv w))" "conn_count (statistic s) = conn_count (statistic (srv w))"
  shows "srv_inv cur t hand (w\<lparr>srv := s\<rparr>) = srv_inv cur t hand w"
  using jobs_ok_cong [of s "srv w"] store_ok_cong [of s "srv w"] stats_ok_cong [of s "srv w"] bufs_ok_cong [of s "srv w"]
    conns_ok_cong [of t s w cur] owners_cong(1) [of s "srv w"] assms by (simp add: srv_inv_def)

section \<open>Buffers\<close>

lemma rwb_ok_bsize:
  assumes "\<forall>i\<in>set (mem_blocks b). bsize m' i = bsize m i"
  shows "rwb_ok m' b = rwb_ok m b"
proof -
  have bt: "btotal m' xs = btotal m xs" if "set xs \<subseteq> set (mem_blocks b)" for xs
    using that assms by (induction xs) auto
  have cur: "cursor_ok m' (mem_blocks b) k base pos = cursor_ok m (mem_blocks b) k base pos" for k base pos
  proof (cases k)
    case (Some x)
    have "set (takeWhile (\<lambda>y. y \<noteq> x) (mem_blocks b)) \<subseteq> set (mem_blocks b)" by (auto dest: set_takeWhileD)
    with Some show ?thesis using assms bt [of "takeWhile (\<lambda>y. y \<noteq> x) (mem_blocks b)"] by (auto simp: cursor_ok_def)
  qed (simp add: cursor_ok_def)
  have "(\<forall>i\<in>set (mem_blocks b). 0 < bsize m' i) = (\<forall>i\<in>set (mem_blocks b). 0 < bsize m i)" using assms by simp
  then show ?thesis unfolding rwb_ok_def cur using bt [of "mem_blocks b"] by simp
qed

text \<open>The blocks of one connection and of all others.\<close>

definition slot_blocks :: "spy_connection option \<Rightarrow> nat list" where
  "slot_blocks x = (case x of None \<Rightarrow> [] | Some cn \<Rightarrow> conn_blocks cn)"

lemma mset_owned: "mset (owned s) = tally (\<lambda>x. mset (slot_blocks x)) (map (conns s) [0..<next_conn s])"
  by (simp add: owned_def mset_concat tally_def comp_def slot_blocks_def)

lemma tally_mem: "x \<in> set xs \<Longrightarrow> (f x :: 'a multiset) \<subseteq># tally f xs"
  by (induction xs) (auto intro: subset_mset.order_trans)

lemma owned_split:
  assumes "c < next_conn s"
  obtains rest where "\<forall>x. mset (owned (s\<lparr>conns := (conns s)(c := x)\<rparr>)) = mset (slot_blocks x @ rest)"
    "\<forall>c' cn. conns s c' = Some cn \<longrightarrow> c' \<noteq> c \<longrightarrow> c' < next_conn s \<longrightarrow> set (conn_blocks cn) \<subseteq> set rest"
proof -
  let ?f = "\<lambda>x. mset (slot_blocks x)" and ?xs = "map (conns s) [0..<next_conn s]"
  obtain rest where rest: "mset rest = tally ?f (?xs[c := None])" using ex_mset by blast
  have upd: "map ((conns s)(c := x)) [0..<next_conn s] = ?xs[c := None, c := x]" for x
    using assms by (intro nth_equalityI) (auto simp: nth_list_update)
  show ?thesis
  proof (rule that [of rest])
    show "\<forall>x. mset (owned (s\<lparr>conns := (conns s)(c := x)\<rparr>)) = mset (slot_blocks x @ rest)"
      using tally_update [of c "?xs[c := None]" ?f] assms
      by (auto simp: mset_owned upd rest slot_blocks_def add.commute simp del: list_update_overwrite)
    show "\<forall>c' cn. conns s c' = Some cn \<longrightarrow> c' \<noteq> c \<longrightarrow> c' < next_conn s \<longrightarrow> set (conn_blocks cn) \<subseteq> set rest"
    proof (intro allI impI)
      fix c' cn assume a: "conns s c' = Some cn" "c' \<noteq> c" "c' < next_conn s"
      then have "?xs[c := None] ! c' = Some cn" by simp
      then have "Some cn \<in> set (?xs[c := None])" using a(3) by (metis length_list_update length_map length_upt minus_nat.diff_0 nth_mem)
      from tally_mem [OF this, of ?f] have "mset (conn_blocks cn) \<subseteq># mset rest" by (simp add: rest slot_blocks_def)
      then show "set (conn_blocks cn) \<subseteq> set rest" by (metis set_mset_mono set_mset_mset)
    qed
  qed
qed

text \<open>
  One connection's buffers change, together with the memory: what it had goes over into what it has, and the blocks of
  the others keep their sizes.
\<close>

definition mem_move :: "mem_state \<Rightarrow> nat list \<Rightarrow> mem_state \<Rightarrow> nat list \<Rightarrow> bool" where
  "mem_move m bs m' bs' \<longleftrightarrow> (\<forall>rest. pool_ok m (bs @ rest) \<longrightarrow> pool_ok m' (bs' @ rest) \<and> (\<forall>i\<in>set rest. bsize m' i = bsize m i))"

lemma mem_move_refl: "mset bs' = mset bs \<Longrightarrow> mem_move m bs m bs'"
  unfolding mem_move_def using pool_ok_perm by (metis mset_append)

lemma mem_move_trans: "mem_move m bs m' bs' \<Longrightarrow> mem_move m' bs' m'' bs'' \<Longrightarrow> mem_move m bs m'' bs''"
  unfolding mem_move_def by metis

lemma bufs_update:
  assumes "bufs_ok s" "conns s c = Some cn" "\<forall>c cn. conns s c = Some cn \<longrightarrow> c < next_conn s"
    and "mem_move (mem s) (conn_blocks cn) m' (slot_blocks x)"
    and "\<And>cn'. x = Some cn' \<Longrightarrow> rwb_ok m' (request cn') \<and> rwb_ok m' (rsp_body cn')"
  shows "bufs_ok (s\<lparr>mem := m', conns := (conns s)(c := x)\<rparr>)"
proof -
  have c: "c < next_conn s" using assms(2,3) by blast
  obtain rest where rest: "\<forall>x. mset (owned (s\<lparr>conns := (conns s)(c := x)\<rparr>)) = mset (slot_blocks x @ rest)"
    "\<forall>c' cn. conns s c' = Some cn \<longrightarrow> c' \<noteq> c \<longrightarrow> c' < next_conn s \<longrightarrow> set (conn_blocks cn) \<subseteq> set rest"
    by (rule owned_split [OF c])
  have "s\<lparr>conns := (conns s)(c := Some cn)\<rparr> = s" using assms(2) by (simp add: fun_upd_idem)
  with rest(1) have "mset (owned s) = mset (slot_blocks (Some cn) @ rest)" by metis
  then have "mset (conn_blocks cn @ rest) = mset (owned s)" by (simp add: slot_blocks_def)
  moreover have "pool_ok (mem s) (owned s)" using assms(1) by (simp add: bufs_ok_def)
  ultimately have p: "pool_ok (mem s) (conn_blocks cn @ rest)" using pool_ok_perm by blast
  have o: "owned (s\<lparr>mem := m', conns := (conns s)(c := x)\<rparr>) = owned (s\<lparr>conns := (conns s)(c := x)\<rparr>)" by (simp add: owned_def)
  have m: "pool_ok m' (slot_blocks x @ rest)" "\<forall>i\<in>set rest. bsize m' i = bsize (mem s) i"
    using assms(4) p by (auto simp: mem_move_def)
  have others: "rwb_ok m' (request cn') \<and> rwb_ok m' (rsp_body cn')" if "conns s c' = Some cn'" "c' \<noteq> c" for c' cn'
  proof -
    have "set (conn_blocks cn') \<subseteq> set rest" using rest(2) that assms(3) by blast
    then show ?thesis using m(2) that assms(1) rwb_ok_bsize [of "request cn'" m' "mem s"] rwb_ok_bsize [of "rsp_body cn'" m' "mem s"]
      by (auto simp: conn_blocks_def bufs_ok_def)
  qed
  have "pool_ok m' (owned (s\<lparr>mem := m', conns := (conns s)(c := x)\<rparr>))"
    unfolding o using pool_ok_perm [OF m(1)] rest(1) by blast
  then show ?thesis using others assms(5) by (auto simp: bufs_ok_def)
qed

section \<open>The connection in hand\<close>

lemma conns_ok_parts:
  assumes "conns_ok cur t w"
  shows "conns (srv w) c = Some cn \<Longrightarrow> conn_ok cur (owners t (srv w)) w c cn"
    and "conns (srv w) c = Some cn \<Longrightarrow> conns (srv w) c' = Some cn' \<Longrightarrow> conn_fd cn = conn_fd cn' \<Longrightarrow> c = c'"
    and "distinct (owners t (srv w))" "c \<in> set (owners t (srv w)) \<Longrightarrow> conns (srv w) c \<noteq> None"
    and "c \<in> cur \<Longrightarrow> conns (srv w) c \<noteq> None"
proof -
  have i: "inj_on (fd_of (srv w)) (dom (fd_of (srv w)))" using assms by (simp add: conns_ok_def fds_ok_def)
  show "conns (srv w) c = Some cn \<Longrightarrow> conns (srv w) c' = Some cn' \<Longrightarrow> conn_fd cn = conn_fd cn' \<Longrightarrow> c = c'"
    by (rule inj_onD [OF i]) (auto simp: fd_of_def)
qed (use assms in \<open>auto simp: conns_ok_def\<close>)

lemma inv_cur:
  assumes "srv_inv cur t hand w" "c \<in> cur"
  obtains cn where "conns (srv w) c = Some cn" "get_conn c w = Some cn"
    "conn_ok cur (owners t (srv w)) w c cn" "c \<notin> set (owners t (srv w))" "c < next_conn (srv w)" "conn_fd cn \<noteq> 0"
    "rwb_ok (mem (srv w)) (request cn)" "rwb_ok (mem (srv w)) (rsp_body cn)"
proof -
  have k: "conns_ok cur t w" and b: "bufs_ok (srv w)" using assms(1) by (auto simp: srv_inv_def)
  with assms(2) obtain cn where cn: "conns (srv w) c = Some cn" using conns_ok_parts(5) by blast
  from conns_ok_parts(1) [OF k cn] b cn show ?thesis
    using assms(2)
    by (intro that [of cn]) (auto simp: conn_ok_def phase_ok_def get_conn_def bufs_ok_def)
qed

text \<open>Taking a connection in hand, and letting it go in a state that fits its events.\<close>

lemma inv_grab:
  assumes "srv_inv cur t hand w" "conns (srv w) c = Some cn" "c \<notin> set (owners t (srv w))"
  shows "srv_inv (insert c cur) t hand w"
proof -
  have k: "conns_ok cur t w" using assms(1) by (simp add: srv_inv_def)
  then have "conn_ok (insert c cur) (owners t (srv w)) w c' cn'" if "conns (srv w) c' = Some cn'" for c' cn'
    using conns_ok_parts(1) [OF k that] assms(3) by (auto simp: conn_ok_def phase_ok_def)
  then have "conns_ok (insert c cur) t w" using k assms(2) by (simp add: conns_ok_def)
  then show ?thesis using assms(1) by (simp add: srv_inv_def)
qed

lemma inv_release:
  assumes "srv_inv cur t hand w" "conns (srv w) c = Some cn"
    and "phase_ok {} (owners t (srv w)) (aeGetFileEvents (conn_fd cn) w) c (conn_state cn)"
  shows "srv_inv (cur - {c}) t hand w"
proof -
  have k: "conns_ok cur t w" using assms(1) by (simp add: srv_inv_def)
  then have "conn_ok (cur - {c}) (owners t (srv w)) w c' cn'" if "conns (srv w) c' = Some cn'" for c' cn'
    using conns_ok_parts(1) [OF k that] assms(2,3) that by (cases "c' = c") (auto simp: conn_ok_def phase_ok_def)
  then have "conns_ok (cur - {c}) t w" using k by (simp add: conns_ok_def)
  then show ?thesis using assms(1) by (simp add: srv_inv_def)
qed

text \<open>Changing the connection in hand and its buffers.\<close>

lemma inv_put:
  assumes "srv_inv cur t hand w" "conns (srv w) c = Some cn" "c \<in> cur \<or> conn_state cn' = conn_state cn" "conn_fd cn' = conn_fd cn"
    and "mem_move (mem (srv w)) (conn_blocks cn) m' (conn_blocks cn')" "rwb_ok m' (request cn')" "rwb_ok m' (rsp_body cn')"
  shows "srv_inv cur t hand (put_conn c cn' (set_mem m' w))"
proof -
  let ?s = "(srv w)\<lparr>mem := m', conns := (conns (srv w))(c \<mapsto> cn')\<rparr>"
  have w: "put_conn c cn' (set_mem m' w) = w\<lparr>srv := ?s\<rparr>" by (simp add: put_conn_def set_mem_def)
  have i: "conns_ok cur t w" "jobs_ok t hand (srv w)" "store_ok t (srv w)" "stats_ok t (srv w)" "bufs_ok (srv w)" "loop_ok w"
    using assms(1) by (auto simp: srv_inv_def)
  have o: "owners t ?s = owners t (srv w)" by (rule owners_cong) simp_all
  have "conn_ok cur (owners t ?s) (w\<lparr>srv := ?s\<rparr>) c' cn2" if "conns ?s c' = Some cn2" for c' cn2
    using conns_ok_parts(1) [OF i(1), of c'] that assms(2-4) unfolding o
    by (cases "c' = c") (auto simp: conn_ok_def phase_ok_def)
  moreover have "fds_ok (w\<lparr>srv := ?s\<rparr>)"
  proof -
    have "fd_of ?s = fd_of (srv w)" using assms(2,4) by (auto simp: fd_of_def fun_eq_iff)
    then show ?thesis using i(1) by (simp add: conns_ok_def fds_ok_def)
  qed
  ultimately have "conns_ok cur t (w\<lparr>srv := ?s\<rparr>)" using i(1) assms(2) unfolding conns_ok_def by (auto simp: o)
  moreover have "\<forall>c cn. conns (srv w) c = Some cn \<longrightarrow> c < next_conn (srv w)"
    using conns_ok_parts(1) [OF i(1)] by (auto simp: conn_ok_def)
  then have "bufs_ok ?s" using bufs_update [OF i(5) assms(2), of m' "Some cn'"] assms(5-7) by (simp add: slot_blocks_def)
  moreover have "dom (conns ?s) = dom (conns (srv w))" using assms(2) by auto
  then have "stats_ok t ?s" using stats_ok_cong [of ?s "srv w" t] i(4) by simp
  moreover have "jobs_ok t hand ?s" using jobs_ok_cong [of ?s "srv w"] i(2) by simp
  moreover have "store_ok t ?s" using store_ok_cong [of ?s "srv w"] i(3) by simp
  ultimately show ?thesis unfolding w by (simp add: srv_inv_def i(6))
qed

lemma inv_put_same:
  assumes "srv_inv cur t hand w" "conns (srv w) c = Some cn" "c \<in> cur \<or> conn_state cn' = conn_state cn" "conn_fd cn' = conn_fd cn"
    and "mem_blocks (request cn') = mem_blocks (request cn)" "mem_blocks (rsp_body cn') = mem_blocks (rsp_body cn)"
    and "rwb_ok (mem (srv w)) (request cn')" "rwb_ok (mem (srv w)) (rsp_body cn')"
  shows "srv_inv cur t hand (put_conn c cn' w)"
proof -
  have "set_mem (mem (srv w)) w = w" by (simp add: set_mem_def)
  then show ?thesis using inv_put [OF assms(1-4), of "mem (srv w)"] assms(5-8)
    by (simp add: mem_move_refl conn_blocks_def)
qed

text \<open>Changing the events of the connection in hand.\<close>

lemma reg_ok_del: "reg_ok m c fe \<Longrightarrow> reg_ok (m AND NOT k) c (del_event k fe)"
  by (auto simp: reg_ok_def del_event_def and.assoc and.left_commute [of _ "NOT k"])

lemma inv_events:
  assumes "srv_inv cur t hand w" "conns (srv w) c = Some cn" "c \<in> cur" "loop_ok w'" "srv w' = srv w"
    and "\<forall>fd. fd \<noteq> conn_fd cn \<longrightarrow> events w' fd = events w fd \<and> aeGetFileEvents fd w' = aeGetFileEvents fd w"
    and "reg_ok (aeGetFileEvents (conn_fd cn) w') c (events w' (conn_fd cn))"
  shows "srv_inv cur t hand w'"
proof -
  have k: "conns_ok cur t w" using assms(1) by (simp add: srv_inv_def)
  have other: "conn_fd cn' \<noteq> conn_fd cn" if "conns (srv w) c' = Some cn'" "c' \<noteq> c" for c' cn'
    using conns_ok_parts(2) [OF k that(1) assms(2)] that(2) by blast
  have "conn_ok cur (owners t (srv w)) w' c' cn'" if "conns (srv w) c' = Some cn'" for c' cn'
    using conns_ok_parts(1) [OF k that] other [OF that] assms(2,3,5-7) that by (cases "c' = c") (auto simp: conn_ok_def phase_ok_def)
  moreover have "fds_ok w'" proof -
    have "Some (conn_fd cn) \<in> range (fd_of (srv w))" using assms(2) by (auto simp: fd_of_def intro: rev_image_eqI [of c])
    then have "aeGetFileEvents fd w' \<noteq> 0 \<Longrightarrow> Some fd \<in> range (fd_of (srv w)) \<or> aeGetFileEvents fd w' = 1 \<and>
        (rfileProc (events w' fd) = Some AcceptHandler \<or> rfileProc (events w' fd) = Some WqThreadDone)" for fd
      using k assms(6) by (cases "fd = conn_fd cn") (auto simp: conns_ok_def fds_ok_def)
    then show ?thesis using k assms(5) by (simp add: conns_ok_def fds_ok_def)
  qed
  ultimately have "conns_ok cur t w'" using k assms(5) by (simp add: conns_ok_def)
  then show ?thesis using assms(1,4,5) by (simp add: srv_inv_def)
qed

lemma inv_delete:
  assumes "srv_inv cur t hand w" "conns (srv w) c = Some cn" "c \<in> cur" "msk \<in> {1, 2, 3}"
  shows "srv_inv cur t hand (aeDeleteFileEvent (conn_fd cn) msk w)"
    and "aeGetFileEvents fd (aeDeleteFileEvent (conn_fd cn) msk w) =
      (if fd = conn_fd cn then aeGetFileEvents fd w AND NOT msk else aeGetFileEvents fd w)"
proof -
  have l: "loop_ok w" and k: "conns_ok cur t w" using assms(1) by (simp_all add: srv_inv_def)
  have r: "reg_ok (aeGetFileEvents (conn_fd cn) w) c (events w (conn_fd cn))"
    using conns_ok_parts(1) [OF k assms(2)] by (simp add: conn_ok_def)
  show m: "aeGetFileEvents fd (aeDeleteFileEvent (conn_fd cn) msk w) =
      (if fd = conn_fd cn then aeGetFileEvents fd w AND NOT msk else aeGetFileEvents fd w)" for fd
    using delete_file_event(2) [OF l assms(4)] by auto
  show "srv_inv cur t hand (aeDeleteFileEvent (conn_fd cn) msk w)"
  proof (rule inv_events [OF assms(1-3) delete_file_event(1) [OF l assms(4)]])
    show "reg_ok (aeGetFileEvents (conn_fd cn) (aeDeleteFileEvent (conn_fd cn) msk w)) c (events (aeDeleteFileEvent (conn_fd cn) msk w) (conn_fd cn))"
    proof (cases "conn_fd cn < setsize w")
      case True
      then show ?thesis using reg_ok_del [OF r, of msk] unfolding m events_delete by simp
    next
      case False
      then have "aeGetFileEvents (conn_fd cn) w = 0" by (simp add: aeGetFileEvents_def)
      then show ?thesis unfolding m by (simp add: reg_ok_def)
    qed
  qed (simp_all add: m events_delete)
qed

lemma inv_create:
  assumes "srv_inv cur t hand w" "conns (srv w) c = Some cn" "c \<in> cur" "msk = 1 \<and> p = ReadHandler \<or> msk = 2 \<and> p = WriteHandler"
    and "aeCreateFileEvent (conn_fd cn) msk p (Some c) w = (r, w')"
  shows "srv_inv cur t hand w'" "r = AE_OK \<or> r = AE_ERR"
    and "aeGetFileEvents (conn_fd cn) w' = (if r = AE_OK then aeGetFileEvents (conn_fd cn) w OR msk else aeGetFileEvents (conn_fd cn) w)"
proof -
  have l: "loop_ok w" and k: "conns_ok cur t w" using assms(1) by (simp_all add: srv_inv_def)
  have msk: "msk \<in> {1, 2, 3}" using assms(4) by auto
  have reg: "reg_ok (aeGetFileEvents (conn_fd cn) w) c (events w (conn_fd cn))"
    using conns_ok_parts(1) [OF k assms(2)] by (simp add: conn_ok_def)
  from create_file_event [OF l msk assms(5)] consider
    (ok) oks where "loop_ok w'" "r = AE_OK" "conn_fd cn < setsize w" "w' = w\<lparr>ctl_ok := oks,
        events := (events w)(conn_fd cn := add_event msk p (Some c) (events w (conn_fd cn))),
        epset := (epset w)(conn_fd cn := Some (ep_events (fe_mask (events w (conn_fd cn)) OR msk))), maxfd := max (int (conn_fd cn)) (maxfd w)\<rparr>"
    | (err) oks where "loop_ok w'" "r = AE_ERR" "w' = w\<lparr>ctl_ok := oks\<rparr>" by blast
  then have "srv_inv cur t hand w' \<and> (r = AE_OK \<or> r = AE_ERR) \<and>
    aeGetFileEvents (conn_fd cn) w' = (if r = AE_OK then aeGetFileEvents (conn_fd cn) w OR msk else aeGetFileEvents (conn_fd cn) w)"
  proof cases
    case ok
    have "fe_mask (events w (conn_fd cn)) \<in> {0, 1, 2, 3}" by (rule loop_okD [OF l])
    then have new: "reg_ok (fe_mask (events w (conn_fd cn)) OR msk) c (add_event msk p (Some c) (events w (conn_fd cn)))"
      using reg assms(4) ok(3) by (auto simp: reg_ok_def add_event_def aeGetFileEvents_def mask_defs)
    have m: "aeGetFileEvents (conn_fd cn) w' = aeGetFileEvents (conn_fd cn) w OR msk"
      using ok(3) by (simp add: ok(4) aeGetFileEvents_def add_event_def)
    have "srv_inv cur t hand w'"
      by (rule inv_events [OF assms(1-3) ok(1)]) (use ok(3) new in \<open>simp_all add: ok(4) aeGetFileEvents_def add_event_def\<close>)
    with m ok(2) show ?thesis by simp
  next
    case err
    have m: "aeGetFileEvents fd w' = aeGetFileEvents fd w" for fd by (simp add: err(3) aeGetFileEvents_def)
    have "srv_inv cur t hand w'"
      by (rule inv_events [OF assms(1-3) err(1)]) (use reg in \<open>simp_all add: m\<close>, simp_all add: err(3))
    with m err(2) show ?thesis by (simp add: AE_OK_def AE_ERR_def)
  qed
  then show "srv_inv cur t hand w'" "r = AE_OK \<or> r = AE_ERR"
    "aeGetFileEvents (conn_fd cn) w' = (if r = AE_OK then aeGetFileEvents (conn_fd cn) w OR msk else aeGetFileEvents (conn_fd cn) w)"
    by blast+
qed

end
