(* ===== verification/Spy_Connection.thy ===== *)
theory Spy_Connection
  imports Spy_Invariant
begin

text \<open>
  What the operations on one connection do to the invariant and what they leave alone: freeing it, resetting it,
  sending a response, and the common end of the handlers.
\<close>

section \<open>Frame\<close>

text \<open>Only connection \<open>c\<close> changes, with the memory blocks and the number of connections.\<close>

definition same_time :: "world \<Rightarrow> world \<Rightarrow> bool" where
  "same_time w w' \<longleftrightarrow> timeEvents w' = timeEvents w \<and> now w' = now w \<and> later w' = later w \<and> timeEventNextId w' = timeEventNextId w \<and>
     setsize w' = setsize w"

definition conn_fields :: "spy_server \<Rightarrow> spy_server \<Rightarrow> bool" where
  "conn_fields s s' \<longleftrightarrow> s'\<lparr>conns := conns s, mem := mem s, statistic := (statistic s')\<lparr>conn_count := conn_count (statistic s)\<rparr>\<rparr> = s"

definition conn_frame :: "nat \<Rightarrow> world \<Rightarrow> world \<Rightarrow> bool" where
  "conn_frame c w w' \<longleftrightarrow> same_time w w' \<and> (\<forall>c'. c' \<noteq> c \<longrightarrow> conns (srv w') c' = conns (srv w) c') \<and> conn_fields (srv w) (srv w')"

lemma conn_fieldsD:
  assumes "conn_fields s s'"
  shows "config s' = config s" "store s' = store s" "next_conn s' = next_conn s" "io_jobs s' = io_jobs s" "free_io_jobs s' = free_io_jobs s"
    "dump_jobs s' = dump_jobs s" "next_dump s' = next_dump s" "pending_writes s' = pending_writes s" "pending_writes_size s' = pending_writes_size s"
    "status s' = status s" "report_info s' = report_info s" "wq_queued s' = wq_queued s" "wq_finished s' = wq_finished s" "osys s' = osys s"
    "sock_in s' = sock_in s" "sock_eof s' = sock_eof s" "nonblock s' = nonblock s" "accept_queue s' = accept_queue s"
    "conn_mem s' = conn_mem s" "rands s' = rands s" "reading_count (statistic s') = reading_count (statistic s)"
    "writing_count (statistic s') = writing_count (statistic s)"
proof -
  obtain cs m k where "s = s'\<lparr>conns := cs, mem := m, statistic := (statistic s')\<lparr>conn_count := k\<rparr>\<rparr>"
    by (rule that [OF assms [unfolded conn_fields_def, symmetric]])
  then show "config s' = config s" "store s' = store s" "next_conn s' = next_conn s" "io_jobs s' = io_jobs s" "free_io_jobs s' = free_io_jobs s"
    "dump_jobs s' = dump_jobs s" "next_dump s' = next_dump s" "pending_writes s' = pending_writes s" "pending_writes_size s' = pending_writes_size s"
    "status s' = status s" "report_info s' = report_info s" "wq_queued s' = wq_queued s" "wq_finished s' = wq_finished s" "osys s' = osys s"
    "sock_in s' = sock_in s" "sock_eof s' = sock_eof s" "nonblock s' = nonblock s" "accept_queue s' = accept_queue s"
    "conn_mem s' = conn_mem s" "rands s' = rands s" "reading_count (statistic s') = reading_count (statistic s)"
    "writing_count (statistic s') = writing_count (statistic s)" by simp_all
qed

lemma same_time_refl [simp]: "same_time w w"
  by (simp add: same_time_def)

lemma same_time_trans: "same_time w w' \<Longrightarrow> same_time w' w'' \<Longrightarrow> same_time w w''"
  by (simp add: same_time_def)

lemma same_time_srv [simp]: "same_time w (w'\<lparr>srv := s\<rparr>) = same_time w w'" "same_time (w\<lparr>srv := s\<rparr>) w' = same_time w w'"
  by (simp_all add: same_time_def)

lemma same_time_events [simp]:
  "same_time w (aeDeleteFileEvent fd msk w') = same_time w w'" "same_time w (sys_close fd w') = same_time w w'"
  by (simp_all add: same_time_def aeDeleteFileEvent_def aeApiDelEvent_def epoll_ctl_def sys_close_def Let_def)

lemma same_time_create [simp]: "aeCreateFileEvent fd msk p data w = (n, w') \<Longrightarrow> same_time w w'"
  by (auto simp: same_time_def aeCreateFileEvent_def aeApiAddEvent_def epoll_ctl_def Let_def
      split: if_splits list.splits bool.splits prod.splits)

lemma conn_frame_refl [simp]: "conn_frame c w w"
  by (simp add: conn_frame_def conn_fields_def)

lemma conn_fields_trans:
  assumes "conn_fields s s'" "conn_fields s' s''"
  shows "conn_fields s s''"
proof -
  let ?f = "\<lambda>z. z\<lparr>conns := conns s, mem := mem s, statistic := (statistic z)\<lparr>conn_count := conn_count (statistic s)\<rparr>\<rparr>"
  have "?f s'' = ?f (s''\<lparr>conns := conns s', mem := mem s', statistic := (statistic s'')\<lparr>conn_count := conn_count (statistic s')\<rparr>\<rparr>)" by simp
  also have "\<dots> = s" using assms by (simp only: conn_fields_def)
  finally show ?thesis by (simp only: conn_fields_def)
qed

lemma conn_frame_trans: "conn_frame c w w' \<Longrightarrow> conn_frame c w' w'' \<Longrightarrow> conn_frame c w w''"
  unfolding conn_frame_def using same_time_trans conn_fields_trans by metis

lemma conn_frame_put: "conn_frame c w (put_conn c cn w)" "conn_frame c w (put_conn c cn (set_mem m w))"
  by (simp_all add: conn_frame_def conn_fields_def put_conn_def set_mem_def)

lemma conn_frame_srv: "same_time w w' \<Longrightarrow> srv w' = srv w \<Longrightarrow> conn_frame c w w'"
  by (simp add: conn_frame_def conn_fields_def)

section \<open>Freeing a connection\<close>

lemma reset_move:
  assumes "spy_rw_buffer_reset b m = (b', m')"
  shows "b' = spy_rw_buffer_init" "mem_move m (mem_blocks b @ xs) m' xs"
proof -
  show "b' = spy_rw_buffer_init" using assms by (auto simp: spy_rw_buffer_reset_def spy_rw_buffer_init_def)
  show "mem_move m (mem_blocks b @ xs) m' xs"
    unfolding mem_move_def using reset_ok(1,3) [OF _ assms] by simp
qed

lemma reset_both:
  assumes "spy_rw_buffer_reset (request cn) m = (req, m1)" "spy_rw_buffer_reset (rsp_body cn) m1 = (rsp, m2)"
  shows "mem_move m (conn_blocks cn) m2 []" "req = spy_rw_buffer_init" "rsp = spy_rw_buffer_init"
  using mem_move_trans [OF reset_move(2) [OF assms(1), of "mem_blocks (rsp_body cn)"] reset_move(2) [OF assms(2), of "[]", simplified]]
    reset_move(1) [OF assms(1)] reset_move(1) [OF assms(2)] by (simp_all add: conn_blocks_def)

lemma close_masks:
  assumes "loop_ok w"
  shows "aeGetFileEvents fd' (aeDeleteFileEvent fd (AE_READABLE OR AE_WRITABLE) (sys_close fd w)) =
    (if fd' = fd then 0 else aeGetFileEvents fd' w)"
proof -
  have "fe_mask (events w fd) \<in> {0, 1, 2, 3}" by (rule loop_okD [OF assms])
  then have "fe_mask (events w fd) AND NOT 3 = 0" by auto
  moreover have "AE_READABLE OR AE_WRITABLE = 3" by (simp add: mask_defs)
  ultimately show ?thesis by (simp add: aeGetFileEvents_def events_delete del_event_def)
qed

lemma range_remove: "f c = Some d \<Longrightarrow> Some fd \<in> range f \<Longrightarrow> fd \<noteq> d \<Longrightarrow> Some fd \<in> range (f(c := None))"
  by (metis fun_upd_other imageE option.inject rangeI)

lemma inj_remove: "inj_on f (dom f) \<Longrightarrow> inj_on (f(c := None)) (dom (f(c := None)))"
  by (auto simp: inj_on_def)

lemma inv_free:
  assumes "srv_inv cur t hand w" "c \<in> cur"
  obtains w' where "spy_free_client_connection c w = Some w'" "srv_inv (cur - {c}) t hand w'" "conn_frame c w w'" "conns (srv w') c = None"
proof -
  obtain cn where cn: "conns (srv w) c = Some cn" "get_conn c w = Some cn" "c \<notin> set (owners t (srv w))" "c < next_conn (srv w)" "conn_fd cn \<noteq> 0"
    by (rule inv_cur [OF assms]) blast
  obtain req m1 rsp m2 where r: "spy_rw_buffer_reset (request cn) (mem (srv w)) = (req, m1)" "spy_rw_buffer_reset (rsp_body cn) m1 = (rsp, m2)"
    by (metis surj_pair)
  have i: "conns_ok cur t w" "jobs_ok t hand (srv w)" "store_ok t (srv w)" "stats_ok t (srv w)" "bufs_ok (srv w)" "loop_ok w"
    using assms(1) by (auto simp: srv_inv_def)
  define s where "s = (srv w)\<lparr>mem := m2, statistic := (statistic (srv w))\<lparr>conn_count := conn_count (statistic (srv w)) - 1\<rparr>,
    conns := (conns (srv w))(c := None)\<rparr>"
  define w1 where "w1 = aeDeleteFileEvent (conn_fd cn) (AE_READABLE OR AE_WRITABLE) (sys_close (conn_fd cn) (set_mem m2 w))"
  have eq: "spy_free_client_connection c w = Some (w1\<lparr>srv := s\<rparr>)"
    using cn r by (simp add: spy_free_client_connection_def Let_def upd_stat_def w1_def set_mem_def s_def)
  have l1: "loop_ok w1" unfolding w1_def using i(6) by (intro close_file_event) (simp add: set_mem_def)
  have m1: "aeGetFileEvents fd w1 = (if fd = conn_fd cn then 0 else aeGetFileEvents fd w)" for fd
    unfolding w1_def using close_masks [of "set_mem m2 w" fd "conn_fd cn"] i(6) by (simp add: set_mem_def)
  have e1: "events w1 fd = events w fd" if "fd \<noteq> conn_fd cn" for fd using that by (simp add: w1_def events_delete set_mem_def)
  have o: "owners t s = owners t (srv w)" by (rule owners_cong) (simp_all add: s_def)
  have "conns_ok (cur - {c}) t (w1\<lparr>srv := s\<rparr>)"
  proof -
    have c': "conn_ok (cur - {c}) (owners t s) (w1\<lparr>srv := s\<rparr>) c' cn'" if "conns s c' = Some cn'" for c' cn'
    proof -
      have c': "c' \<noteq> c" "conns (srv w) c' = Some cn'" using that by (auto simp: s_def split: if_splits)
      then have "conn_fd cn' \<noteq> conn_fd cn" using conns_ok_parts(2) [OF i(1) _ cn(1), of c' cn'] by blast
      then show ?thesis using conns_ok_parts(1) [OF i(1) c'(2)] c' by (auto simp: conn_ok_def phase_ok_def o m1 e1) (simp_all add: s_def)
    qed
    have f: "fd_of s = (fd_of (srv w))(c := None)" by (auto simp: fd_of_def s_def fun_eq_iff)
    have old: "fds_ok w" using i(1) by (simp add: conns_ok_def)
    have "aeGetFileEvents fd w1 \<noteq> 0 \<Longrightarrow> Some fd \<in> range (fd_of s) \<or> aeGetFileEvents fd w1 = 1 \<and>
        (rfileProc (events w1 fd) = Some AcceptHandler \<or> rfileProc (events w1 fd) = Some WqThreadDone)" for fd
    proof -
      assume a: "aeGetFileEvents fd w1 \<noteq> 0"
      then have n: "fd \<noteq> conn_fd cn" "aeGetFileEvents fd w1 = aeGetFileEvents fd w" using m1 [of fd] by (auto split: if_splits)
      have "fd_of (srv w) c = Some (conn_fd cn)" using cn(1) by (simp add: fd_of_def)
      then show ?thesis using old n a range_remove [of "fd_of (srv w)" c "conn_fd cn" fd] unfolding f fds_ok_def e1 [OF n(1)] by metis
    qed
    moreover have "inj_on (fd_of s) (dom (fd_of s))" unfolding f
      by (rule inj_remove) (use old in \<open>simp add: fds_ok_def\<close>)
    ultimately have "fds_ok (w1\<lparr>srv := s\<rparr>)" unfolding fds_ok_def by (simp only: aeGetFileEvents_srv) auto
    moreover have "conns s c' \<noteq> None" if "c' \<in> set (owners t (srv w)) \<or> c' \<in> cur - {c}" for c'
      using that cn(3) conns_ok_parts(4,5) [OF i(1), of c'] by (auto simp: s_def)
    ultimately show ?thesis using c' conns_ok_parts(3) [OF i(1)] by (simp add: conns_ok_def o)
  qed
  moreover have "\<forall>c cn. conns (srv w) c = Some cn \<longrightarrow> c < next_conn (srv w)"
    using conns_ok_parts(1) [OF i(1)] by (auto simp: conn_ok_def)
  then have "bufs_ok ((srv w)\<lparr>mem := m2, conns := (conns (srv w))(c := None)\<rparr>)"
    using bufs_update [OF i(5) cn(1), of m2 None] reset_both(1) [OF r] by (simp add: slot_blocks_def)
  then have "bufs_ok s" using bufs_ok_cong [of s "(srv w)\<lparr>mem := m2, conns := (conns (srv w))(c := None)\<rparr>"] by (simp add: s_def)
  moreover have "stats_ok t s"
  proof -
    have "card (dom (conns (srv w))) = Suc (card (dom (conns (srv w)) - {c}))"
      using cn(1) i(4) by (intro card.remove) (auto simp: stats_ok_def)
    moreover have "dom (conns s) = dom (conns (srv w)) - {c}" by (auto simp: s_def)
    ultimately show ?thesis using i(4) work_frame [of s "srv w"] qworks_frame [of s "srv w"] by (simp add: stats_ok_def) (simp add: s_def)
  qed
  moreover have "jobs_ok t hand s" using jobs_ok_cong [of s "srv w"] i(2) by (simp add: s_def)
  moreover have "store_ok t s" using store_ok_cong [of s "srv w"] i(3) by (simp add: s_def)
  ultimately have "srv_inv (cur - {c}) t hand (w1\<lparr>srv := s\<rparr>)" using l1 by (simp add: srv_inv_def)
  moreover have "conn_frame c w (w1\<lparr>srv := s\<rparr>)"
    by (simp add: conn_frame_def w1_def set_mem_def) (simp add: s_def conn_fields_def)
  ultimately show ?thesis by (intro that [OF eq]) (simp_all add: s_def)
qed

section \<open>Sending a response\<close>

text \<open>The connection is gone, or it is \<open>cn\<close> and waits to be writable.\<close>

definition answered :: "nat \<Rightarrow> spy_connection \<Rightarrow> world \<Rightarrow> bool" where
  "answered c cn w \<longleftrightarrow> (case conns (srv w) c of None \<Rightarrow> True | Some cn' \<Rightarrow> cn' = cn \<and> aeGetFileEvents (conn_fd cn) w \<in> {2, 3})"

lemma get_conn_put [simp]: "get_conn c (put_conn c cn w) = Some cn" "conns (srv (put_conn c cn w)) c = Some cn"
  by (simp_all add: get_conn_def put_conn_def)

lemma inv_mask: "srv_inv cur t hand w \<Longrightarrow> aeGetFileEvents fd w \<in> {0, 1, 2, 3}"
  using loop_okD(1) [of w fd] by (auto simp: srv_inv_def aeGetFileEvents_def)

lemma inv_send:
  assumes "srv_inv cur t hand w" "conns (srv w) c = Some cn" "c \<in> cur" "conn_state cn = SEND_RSP"
  obtains w' where "spy_send_response_if_needed c w = Some w'" "srv_inv (cur - {c}) t hand w'" "conn_frame c w w'" "answered c cn w'"
proof -
  obtain n w1 where e: "aeCreateFileEvent (conn_fd cn) AE_WRITABLE WriteHandler (Some c) w = (n, w1)" by fastforce
  have s1: "srv w1 = srv w" by (rule srv_create [OF e])
  have i1: "srv_inv cur t hand w1" "n = AE_OK \<or> n = AE_ERR"
    "aeGetFileEvents (conn_fd cn) w1 = (if n = AE_OK then aeGetFileEvents (conn_fd cn) w OR 2 else aeGetFileEvents (conn_fd cn) w)"
    using inv_create [OF assms(1-3) _ e] by (simp_all add: AE_WRITABLE_def)
  have f1: "conn_frame c w w1" by (rule conn_frame_srv [OF same_time_create [OF e] s1])
  show ?thesis
  proof (cases "n = AE_OK")
    case True
    have m: "aeGetFileEvents (conn_fd cn) w1 \<in> {2, 3}" using inv_mask [OF assms(1), of "conn_fd cn"] i1(3) True by auto
    have "c \<notin> set (owners t (srv w1))" by (rule inv_cur [OF i1(1) assms(3)])
    with m have "srv_inv (cur - {c}) t hand w1" using assms(2-4) by (intro inv_release [OF i1(1), where cn = cn]) (auto simp: s1 phase_ok_def)
    moreover have "spy_send_response_if_needed c w = Some w1"
      using assms e True by (simp add: spy_send_response_if_needed_def get_conn_def AE_OK_def AE_ERR_def)
    ultimately show ?thesis using m f1 assms(2) by (intro that [of w1]) (simp_all add: answered_def s1)
  next
    case False
    obtain w' where w': "spy_free_client_connection c w1 = Some w'" "srv_inv (cur - {c}) t hand w'" "conn_frame c w1 w'" "conns (srv w') c = None"
      by (rule inv_free [OF i1(1) assms(3)])
    moreover have "spy_send_response_if_needed c w = Some w'"
      using assms e False w'(1) i1(2) by (simp add: spy_send_response_if_needed_def get_conn_def)
    ultimately show ?thesis using conn_frame_trans [OF f1] by (intro that [of w']) (simp_all add: answered_def)
  qed
qed

text \<open>The header of a response.\<close>

definition rsp_bytes :: "spy_connection \<Rightarrow> bytes" where
  "rsp_bytes cn = at_off 2 (\<lambda>p. spy_mach_write_to_4 p (body_len cn))
     (at_off 1 (\<lambda>p. spy_mach_write_to_1 p (conn_error cn)) (at_off 0 (\<lambda>p. spy_mach_write_to_1 p (opcode cn)) (rsp_header cn)))"

lemma reply_header_eq:
  "conns (srv w) c = Some cn \<Longrightarrow>
   spy_reply_header c w = spy_send_response_if_needed c (put_conn c (cn\<lparr>rsp_header := rsp_bytes cn\<rparr>) w)"
  by (simp add: spy_reply_header_def get_conn_def rsp_bytes_def)

lemma inv_rwb:
  assumes "srv_inv cur t hand w" "conns (srv w) c = Some cn"
  shows "rwb_ok (mem (srv w)) (request cn)" "rwb_ok (mem (srv w)) (rsp_body cn)"
  using assms by (auto simp: srv_inv_def bufs_ok_def)

text \<open>A handler may change every field of its connection but the descriptor and the buffers.\<close>

lemma inv_put_fields:
  assumes "srv_inv cur t hand w" "conns (srv w) c = Some cn" "c \<in> cur" "conn_fd cn' = conn_fd cn" "request cn' = request cn" "rsp_body cn' = rsp_body cn"
  shows "srv_inv cur t hand (put_conn c cn' w)"
  using inv_put_same [OF assms(1,2) _ assms(4)] inv_rwb [OF assms(1,2)] assms(3,5,6) by simp

lemma reply_error_ok:
  assumes "srv_inv cur t hand w" "conns (srv w) c = Some cn" "c \<in> cur"
  obtains w' where "reply_error c e w = Some w'" "srv_inv (cur - {c}) t hand w'" "conn_frame c w w'"
    "answered c ((cn\<lparr>conn_error := e, body_len := 0, conn_state := SEND_RSP\<rparr>)
       \<lparr>rsp_header := rsp_bytes (cn\<lparr>conn_error := e, body_len := 0, conn_state := SEND_RSP\<rparr>)\<rparr>) w'"
proof -
  let ?cn = "cn\<lparr>conn_error := e, body_len := 0, conn_state := SEND_RSP\<rparr>"
  let ?w1 = "put_conn c ?cn w"
  let ?w2 = "put_conn c (?cn\<lparr>rsp_header := rsp_bytes ?cn\<rparr>) ?w1"
  have i1: "srv_inv cur t hand ?w1" using assms by (intro inv_put_fields [OF assms]) simp_all
  have i2: "srv_inv cur t hand ?w2" by (intro inv_put_fields [OF i1 get_conn_put(2) assms(3)]) simp_all
  obtain w' where w': "spy_send_response_if_needed c ?w2 = Some w'" "srv_inv (cur - {c}) t hand w'" "conn_frame c ?w2 w'"
    "answered c (?cn\<lparr>rsp_header := rsp_bytes ?cn\<rparr>) w'"
    by (rule inv_send [OF i2 get_conn_put(2) assms(3)]) simp_all
  have "reply_error c e w = Some w'"
    using assms(2) w'(1) reply_header_eq [OF get_conn_put(2), of c ?cn w] by (simp add: reply_error_def get_conn_def)
  from that [OF this w'(2) conn_frame_trans [OF conn_frame_trans [OF conn_frame_put(1) conn_frame_put(1)] w'(3)] w'(4)] show ?thesis .
qed

section \<open>Resetting a connection\<close>

lemma reset_conn_ok:
  assumes "srv_inv cur t hand w" "conns (srv w) c = Some cn" "c \<in> cur"
    and "spy_reset_client_connection c w = Some w'"
  shows "srv_inv (cur - {c}) t hand w'" "conn_frame c w w'"
proof -
  let ?w1 = "aeDeleteFileEvent (conn_fd cn) AE_WRITABLE w"
  obtain req m1 rsp m2 where r: "spy_rw_buffer_reset (request cn) (mem (srv w)) = (req, m1)" "spy_rw_buffer_reset (rsp_body cn) m1 = (rsp, m2)"
    by (metis surj_pair)
  let ?cn = "cn\<lparr>request := req, rsp_body := rsp, sentlen := 0, conn_error := 0, body_len := 0, conn_state := RECEIVE_HDR\<rparr>"
  let ?w2 = "put_conn c ?cn (set_mem m2 ?w1)"
  obtain n w3 where e: "aeCreateFileEvent (conn_fd ?cn) AE_READABLE ReadHandler (Some c) ?w2 = (n, w3)" by fastforce
  have w': "w' = w3" "n \<noteq> AE_ERR"
    using assms(2,4) r e by (simp_all add: spy_reset_client_connection_def get_conn_def Let_def split: if_splits)
  have i1: "srv_inv cur t hand ?w1" "aeGetFileEvents (conn_fd cn) ?w1 \<in> {0, 1}"
    using inv_delete [OF assms(1-3), of AE_WRITABLE] inv_mask [OF assms(1), of "conn_fd cn"] by (auto simp: AE_WRITABLE_def)
  have "rwb_ok m2 spy_rw_buffer_init" by (simp add: rwb_ok_def cursor_ok_def spy_rw_buffer_init_def)
  then have i2: "srv_inv cur t hand ?w2"
    using assms(2,3) reset_both [OF r] by (intro inv_put [OF i1(1)]) (simp_all add: conn_blocks_def spy_rw_buffer_init_def)
  have i3: "srv_inv cur t hand w3" "n = AE_OK" "aeGetFileEvents (conn_fd cn) w3 = 1"
    using inv_create [OF i2 get_conn_put(2) assms(3) _ e] i1(2) w'(2) by (auto simp: AE_READABLE_def put_conn_def set_mem_def)
  have s3: "srv w3 = srv ?w2" by (rule srv_create [OF e])
  have "c \<notin> set (owners t (srv w3))" by (rule inv_cur [OF i3(1) assms(3)])
  then show "srv_inv (cur - {c}) t hand w'" unfolding w'
    by (intro inv_release [OF i3(1), where cn = "?cn"]) (simp_all add: s3 phase_ok_def i3(3))
  have "conn_frame c w ?w1" by (rule conn_frame_srv) simp_all
  then have "conn_frame c w ?w2" using conn_frame_put(2) conn_frame_trans by blast
  moreover have "conn_frame c ?w2 w3" by (rule conn_frame_srv [OF same_time_create [OF e] s3])
  ultimately show "conn_frame c w w'" unfolding w' by (rule conn_frame_trans)
qed

end
