(* ===== verification/Spy_Jobs.thy ===== *)
theory Spy_Jobs
  imports Spy_Connection
begin

text \<open>
  Io jobs and dump jobs move between the free list, the running handler, the list of pending writes and the work
  queue. A queued work is treated like a work at the head of the list \<open>t\<close> of works to be completed.
\<close>

section \<open>Works as multisets\<close>

lemma mset_concat_map: "mset (concat (map f xs)) = (\<Sum>x\<in>#mset xs. mset (f x))"
  by (induction xs) simp_all

lemma works_mset:
  assumes "io_jobs s' = io_jobs s" "dump_jobs s' = dump_jobs s" "pending_writes s' = pending_writes s"
    and "mset (qworks t' s') = mset (qworks t s)"
  shows "mset (owners t' s') = mset (owners t s)" "mset (busy t' s') = mset (busy t s)" "mset (writers t' s') = mset (writers t s)"
    "length (filter P (qworks t' s')) = length (filter P (qworks t s))"
proof -
  have w: "mset (works t' s') = mset (works t s)" using assms(3,4) by (simp add: works_def)
  note f = work_frame [OF assms(1,2)]
  show "mset (owners t' s') = mset (owners t s)" using w by (simp add: owners_def f)
  show "mset (busy t' s') = mset (busy t s)" by (simp only: busy_def mset_concat_map w)
  show "mset (writers t' s') = mset (writers t s)" using assms(4) by (simp add: writers_def f)
  show "length (filter P (qworks t' s')) = length (filter P (qworks t s))" using assms(4) by (metis mset_filter size_mset)
qed

lemma phase_ok_cong:
  assumes "c \<in> set own' \<longleftrightarrow> c \<in> set own" "c \<in> cur' \<longleftrightarrow> c \<in> cur"
  shows "phase_ok cur' own' msk c st = phase_ok cur own msk c st"
  using assms by (simp add: phase_ok_def split: spy_conn_state.split)

lemma phase_ok_set: "set own' = set own \<Longrightarrow> phase_ok cur own' = phase_ok cur own"
  by (intro ext phase_ok_cong) simp_all

lemma conns_ok_perm:
  assumes "mset (owners t' s) = mset (owners t (srv w))" "conns s = conns (srv w)" "next_conn s = next_conn (srv w)"
  shows "conns_ok cur t' (w\<lparr>srv := s\<rparr>) = conns_ok cur t w"
proof -
  have "set (owners t' s) = set (owners t (srv w))" "distinct (owners t' s) = distinct (owners t (srv w))"
    using assms(1) by (auto dest: mset_eq_setD mset_eq_imp_distinct_iff)
  moreover from this have "phase_ok cur (owners t' s) = phase_ok cur (owners t (srv w))" by (intro phase_ok_set)
  moreover have "fd_of s = fd_of (srv w)" using assms(2) by (simp add: fd_of_def fun_eq_iff)
  ultimately show ?thesis using assms(2,3) by (simp add: conns_ok_def fds_ok_def conn_ok_def)
qed

lemma inv_perm:
  assumes "io_jobs s = io_jobs (srv w)" "dump_jobs s = dump_jobs (srv w)" "pending_writes s = pending_writes (srv w)"
    "free_io_jobs s = free_io_jobs (srv w)"
    "next_dump s = next_dump (srv w)" "pending_writes_size s = pending_writes_size (srv w)" "store s = store (srv w)"
    "conns s = conns (srv w)" "next_conn s = next_conn (srv w)" "mem s = mem (srv w)" "statistic s = statistic (srv w)"
    and "mset (qworks t' s) = mset (qworks t (srv w))"
    and "srv_inv cur t hand w"
  shows "srv_inv cur t' hand (w\<lparr>srv := s\<rparr>)"
proof -
  note f = work_frame [OF assms(1,2)] and m = works_mset [OF assms(1-3,12)]
  have i: "conns_ok cur t w" "jobs_ok t hand (srv w)" "store_ok t (srv w)" "stats_ok t (srv w)" "bufs_ok (srv w)" "loop_ok w"
    using assms(13) by (auto simp: srv_inv_def)
  have sets: "set (owners t' s) = set (owners t (srv w))" "set (busy t' s) = set (busy t (srv w))"
    "set (writers t' s) = set (writers t (srv w))" "set (qworks t' s) = set (qworks t (srv w))"
    using m assms(12) by (auto dest!: mset_eq_setD)
  have "distinct (owners t' s) = distinct (owners t (srv w))" "distinct (busy t' s) = distinct (busy t (srv w))"
    "distinct (writers t' s) = distinct (writers t (srv w))" using m by (auto dest!: mset_eq_imp_distinct_iff)
  note eqs = f sets this m(4)
  have "conns_ok cur t' (w\<lparr>srv := s\<rparr>)" using i(1) conns_ok_perm [OF m(1) assms(8,9)] by simp
  moreover have "jobs_ok t' hand s" using i(2) assms(1-6) by (simp add: jobs_ok_def eqs)
  moreover have "store_ok t' s" using i(3) assms(7) by (simp add: store_ok_def eqs)
  moreover have "stats_ok t' s" using i(4) assms(8,11) by (simp add: stats_ok_def eqs)
  moreover have "bufs_ok s" using i(5) bufs_ok_cong [of s "srv w"] assms(8-10) by simp
  ultimately show ?thesis using i(6) by (simp add: srv_inv_def)
qed

lemma inv_queue_work: "srv_inv cur (wk # t) hand w \<Longrightarrow> srv_inv cur t hand (spy_queue_work wk w)"
  unfolding spy_queue_work_def by (rule inv_perm [where t = "wk # t"]) (simp_all add: qworks_def)

lemma inv_splice: "srv_inv cur [] hand w \<Longrightarrow> srv_inv cur (wq_finished (srv w)) hand (w\<lparr>srv := (srv w)\<lparr>wq_finished := []\<rparr>\<rparr>)"
  by (rule inv_perm [where t = "[]"]) (simp_all add: qworks_def)

lemma inv_finish:
  "wk \<in> set (wq_queued (srv w)) \<Longrightarrow> srv_inv cur t hand w \<Longrightarrow>
   srv_inv cur t hand (w\<lparr>srv := (srv w)\<lparr>wq_queued := remove1 wk (wq_queued (srv w)), wq_finished := wq_finished (srv w) @ [wk]\<rparr>\<rparr>)"
  by (rule inv_perm [where t = t]) (simp_all add: qworks_def)

section \<open>One work more or less\<close>

lemma works_Cons:
  "mset (owners (wk # t) s) = add_mset (work_conn s wk) (mset (owners t s))"
  "mset (busy (wk # t) s) = mset (io_of wk) + mset (busy t s)"
  "mset (writers (wk # t) s) = (if writes s wk then add_mset (work_chunk s wk) (mset (writers t s)) else mset (writers t s))"
  "mset (qworks (wk # t) s) = add_mset wk (mset (qworks t s))"
  by (simp_all add: owners_def busy_def writers_def works_def qworks_def)

lemma works_Cons_sets:
  "set (owners (wk # t) s) = insert (work_conn s wk) (set (owners t s))"
  "set (busy (wk # t) s) = set (io_of wk) \<union> set (busy t s)"
  "set (writers (wk # t) s) = (if writes s wk then insert (work_chunk s wk) (set (writers t s)) else set (writers t s))"
  "set (qworks (wk # t) s) = insert wk (set (qworks t s))"
  "length (filter P (qworks (wk # t) s)) = (if P wk then 1 else 0) + length (filter P (qworks t s))"
  by (auto simp: owners_def busy_def writers_def works_def qworks_def)

lemma works_Cons_distinct:
  "distinct (owners (wk # t) s) \<longleftrightarrow> work_conn s wk \<notin> set (owners t s) \<and> distinct (owners t s)"
  "distinct (busy (wk # t) s) \<longleftrightarrow> set (io_of wk) \<inter> set (busy t s) = {} \<and> distinct (busy t s)"
  "distinct (writers (wk # t) s) \<longleftrightarrow> (writes s wk \<longrightarrow> work_chunk s wk \<notin> set (writers t s)) \<and> distinct (writers t s)"
proof -
  have "distinct (owners (wk # t) s) = distinct (work_conn s wk # owners t s)"
    by (rule mset_eq_imp_distinct_iff) (simp add: works_Cons)
  then show "distinct (owners (wk # t) s) \<longleftrightarrow> work_conn s wk \<notin> set (owners t s) \<and> distinct (owners t s)" by simp
  have "distinct (busy (wk # t) s) = distinct (io_of wk @ busy t s)"
    by (rule mset_eq_imp_distinct_iff) (simp add: works_Cons)
  moreover have "distinct (io_of wk)" by (cases wk) (simp_all add: io_of_def)
  ultimately show "distinct (busy (wk # t) s) \<longleftrightarrow> set (io_of wk) \<inter> set (busy t s) = {} \<and> distinct (busy t s)" by auto
  have "distinct (writers (wk # t) s) = distinct ((if writes s wk then [work_chunk s wk] else []) @ writers t s)"
    by (rule mset_eq_imp_distinct_iff) (simp add: works_Cons)
  then show "distinct (writers (wk # t) s) \<longleftrightarrow> (writes s wk \<longrightarrow> work_chunk s wk \<notin> set (writers t s)) \<and> distinct (writers t s)" by auto
qed

lemmas Cons_simps = works_Cons_sets works_Cons_distinct

text \<open>The connection of a work that is taken off: no work holds it, its request is in progress and it has no events.\<close>

lemma conns_detach:
  assumes "conns_ok cur (wk # t) w"
  obtains cn where "conns (srv w) (work_conn (srv w) wk) = Some cn" "conn_state cn = PROCESS_REQUEST" "aeGetFileEvents (conn_fd cn) w = 0"
    "conns_ok (insert (work_conn (srv w) wk) cur) t w" "work_conn (srv w) wk \<notin> cur" "work_conn (srv w) wk \<notin> set (owners t (srv w))"
proof -
  let ?c = "work_conn (srv w) wk"
  have "conns (srv w) ?c \<noteq> None" by (rule conns_ok_parts(4) [OF assms]) (simp add: Cons_simps)
  then obtain cn where cn: "conns (srv w) ?c = Some cn" by blast
  have own: "?c \<notin> set (owners t (srv w))" "distinct (owners t (srv w))" using conns_ok_parts(3) [OF assms] by (simp_all add: Cons_simps)
  note k = conns_ok_parts(1) [OF assms]
  have "?c \<in> set (owners (wk # t) (srv w))" by (simp add: Cons_simps)
  then have st: "conn_state cn = PROCESS_REQUEST" "aeGetFileEvents (conn_fd cn) w = 0" "?c \<notin> cur"
    using k [OF cn] by (auto simp: conn_ok_def phase_ok_def split: if_splits spy_conn_state.splits)
  have "conn_ok (insert ?c cur) (owners t (srv w)) w c' cn'" if "conns (srv w) c' = Some cn'" for c' cn'
    using k [OF that] own phase_ok_cong [of c' "owners (wk # t) (srv w)" "owners t (srv w)" cur "insert ?c cur"]
    by (cases "c' = ?c") (simp_all add: conn_ok_def Cons_simps, simp_all add: phase_ok_def)
  then have "conns_ok (insert ?c cur) t w" using assms own cn by (simp add: conns_ok_def Cons_simps)
  from that [OF cn st(1,2) this st(3) own(1)] show ?thesis .
qed

lemma conns_attach:
  assumes "conns_ok cur t w" "c \<in> cur" "work_conn (srv w) wk = c" "conns (srv w) c = Some cn" "conn_state cn = PROCESS_REQUEST"
    and "aeGetFileEvents (conn_fd cn) w = 0"
  shows "conns_ok (cur - {c}) (wk # t) w"
proof -
  note k = conns_ok_parts(1) [OF assms(1)]
  have own: "c \<notin> set (owners t (srv w))" "distinct (owners t (srv w))"
    using k [OF assms(4)] conns_ok_parts(3) [OF assms(1)] assms(2) by (simp_all add: conn_ok_def phase_ok_def)
  have "conn_ok (cur - {c}) (owners (wk # t) (srv w)) w c' cn'" if "conns (srv w) c' = Some cn'" for c' cn'
    using k [OF that] assms(3-6) that phase_ok_cong [of c' "owners (wk # t) (srv w)" "owners t (srv w)" "cur - {c}" cur]
    by (cases "c' = c") (simp_all add: conn_ok_def Cons_simps, simp_all add: phase_ok_def Cons_simps)
  then show ?thesis using assms(1,3,4) own by (auto simp: conns_ok_def Cons_simps)
qed

section \<open>Jobs in hand\<close>

lemma busy_mem: "wk \<in> set (works t s) \<Longrightarrow> j \<in> set (io_of wk) \<Longrightarrow> j \<in> set (busy t s)"
  by (auto simp: busy_def)

text \<open>A job that no work holds can be changed.\<close>

lemma work_upd:
  assumes "\<forall>j'. j' \<noteq> j \<longrightarrow> io_jobs s' j' = io_jobs s j'" "dump_jobs s' = dump_jobs s" "j \<notin> set (io_of wk)"
  shows "work_conn s' wk = work_conn s wk" "work_ok s' wk = work_ok s wk" "writes s' wk = writes s wk" "reads s' wk = reads s wk"
    "work_chunk s' wk = work_chunk s wk"
  using assms by (auto simp: work_conn_def work_ok_def writes_def reads_def work_chunk_def io_of_def split: work.splits)

lemma works_upd:
  assumes "\<forall>j'. j' \<noteq> j \<longrightarrow> io_jobs s' j' = io_jobs s j'" "dump_jobs s' = dump_jobs s" "pending_writes s' = pending_writes s"
    "wq_queued s' = wq_queued s" "wq_finished s' = wq_finished s" "j \<notin> set (busy t s)"
  shows "owners t s' = owners t s" "busy t s' = busy t s" "writers t s' = writers t s" "qworks t s' = qworks t s"
    "length (filter (reads s') (qworks t s)) = length (filter (reads s) (qworks t s))"
    "length (filter (writes s') (qworks t s)) = length (filter (writes s) (qworks t s))"
    "\<forall>wk\<in>set (qworks t s). work_ok s' wk = work_ok s wk"
    "\<forall>j'\<in>set (pending_writes s). io_jobs s' j' = io_jobs s j'"
proof -
  have w: "works t s' = works t s" and q: "qworks t s' = qworks t s" using assms by (simp_all add: works_def qworks_def)
  have sub: "set (qworks t s) \<subseteq> set (works t s)" by (auto simp: works_def)
  have n: "j \<notin> set (io_of wk)" if "wk \<in> set (works t s)" for wk using busy_mem [OF that] assms(6) by blast
  note u = work_upd [OF assms(1,2) n]
  show "owners t s' = owners t s" using u(1) by (simp add: owners_def w)
  show "busy t s' = busy t s" by (simp add: busy_def w)
  have f: "filter (writes s') (qworks t s) = filter (writes s) (qworks t s)" "filter (reads s') (qworks t s) = filter (reads s) (qworks t s)"
    using u(3,4) sub by (auto intro!: filter_cong)
  have "map (work_chunk s') (filter (writes s) (qworks t s)) = map (work_chunk s) (filter (writes s) (qworks t s))"
    using u(5) sub by (intro map_cong) auto
  then show "writers t s' = writers t s" by (simp add: writers_def q f)
  show "length (filter (reads s') (qworks t s)) = length (filter (reads s) (qworks t s))"
    "length (filter (writes s') (qworks t s)) = length (filter (writes s) (qworks t s))" by (simp_all add: f)
  show "\<forall>wk\<in>set (qworks t s). work_ok s' wk = work_ok s wk" using u(2) sub by blast
  show "\<forall>j'\<in>set (pending_writes s). io_jobs s' j' = io_jobs s j'"
    using assms(1,6) by (auto simp: busy_def works_def io_of_def)
qed (use assms in \<open>simp add: qworks_def\<close>)

text \<open>Counters go up by one for a work of their kind.\<close>

definition stat_add :: "int \<Rightarrow> work_fn \<Rightarrow> spy_statistic \<Rightarrow> spy_statistic \<Rightarrow> bool" where
  "stat_add k fn x x' \<longleftrightarrow> conn_count x' = conn_count x \<and>
     reading_count x' = reading_count x + (if fn = WRead then of_int k else 0) \<and>
     writing_count x' = writing_count x + (if fn = WWrite then of_int k else 0)"

lemma detach_io:
  assumes "srv_inv cur (IoWork j # t) hand w" "stat_add (- 1) (job_work (io_jobs (srv w) j)) (statistic (srv w)) (f (statistic (srv w)))"
  obtains cn a where "conns (srv w) (job_conn (io_jobs (srv w) j)) = Some cn" "conn_state cn = PROCESS_REQUEST"
    "aeGetFileEvents (conn_fd cn) w = 0" "job_conn (io_jobs (srv w) j) \<notin> cur"
    "srv_inv (insert (job_conn (io_jobs (srv w) j)) cur) t (j # hand) (upd_stat f w)"
    "job_chunk (io_jobs (srv w) j) = Some a"
    "job_work (io_jobs (srv w) j) = WWrite \<Longrightarrow> a \<in> set (writing_chunks (store (srv w))) \<and> Some a \<notin> set (writers t (srv w)) \<and>
       (\<exists>off. job_arg (io_jobs (srv w) j) = JobOffset off)"
proof -
  let ?s = "srv w" and ?wk = "IoWork j"
  have i: "conns_ok cur (?wk # t) w" "jobs_ok (?wk # t) hand ?s" "store_ok (?wk # t) ?s" "stats_ok (?wk # t) ?s" "bufs_ok ?s" "loop_ok w"
    using assms(1) by (auto simp: srv_inv_def)
  have c: "work_conn ?s ?wk = job_conn (io_jobs ?s j)" by (simp add: work_conn_def)
  obtain cn where cn: "conns ?s (job_conn (io_jobs ?s j)) = Some cn" "conn_state cn = PROCESS_REQUEST" "aeGetFileEvents (conn_fd cn) w = 0"
    "conns_ok (insert (job_conn (io_jobs ?s j)) cur) t w" "job_conn (io_jobs ?s j) \<notin> cur"
    by (rule conns_detach [OF i(1), unfolded c])
  have jk: "jobs_ok t (j # hand) ?s"
    using i(2) by (auto simp: jobs_ok_def Cons_simps io_of_def)
  have st: "store_ok t ?s" using i(3) by (auto simp: store_ok_def Cons_simps split: if_splits)
  have sk: "stats_ok t (?s\<lparr>statistic := f (statistic ?s)\<rparr>)"
    using i(4) assms(2) work_frame [of "?s\<lparr>statistic := f (statistic ?s)\<rparr>" ?s] qworks_frame [of "?s\<lparr>statistic := f (statistic ?s)\<rparr>" ?s]
    by (simp add: stats_ok_def Cons_simps stat_add_def reads_def writes_def)
  have "srv_inv (insert (job_conn (io_jobs ?s j)) cur) t (j # hand) (upd_stat f w)"
    using cn(4) jk st sk i(5,6) jobs_ok_cong [of "?s\<lparr>statistic := f (statistic ?s)\<rparr>" ?s] store_ok_cong [of "?s\<lparr>statistic := f (statistic ?s)\<rparr>" ?s]
      bufs_ok_cong [of "?s\<lparr>statistic := f (statistic ?s)\<rparr>" ?s] conns_ok_cong [of t "?s\<lparr>statistic := f (statistic ?s)\<rparr>" w]
      owners_cong(1) [of "?s\<lparr>statistic := f (statistic ?s)\<rparr>" ?s t]
    by (simp add: srv_inv_def upd_stat_def)
  moreover have ok: "work_ok ?s ?wk" using i(2) by (simp add: jobs_ok_def Cons_simps)
  then obtain a where a: "job_chunk (io_jobs ?s j) = Some a" by (auto simp: work_ok_def)
  moreover have "a \<in> set (writing_chunks (store ?s)) \<and> Some a \<notin> set (writers t ?s) \<and> (\<exists>off. job_arg (io_jobs ?s j) = JobOffset off)"
    if "job_work (io_jobs ?s j) = WWrite"
    using that ok i(3) a by (auto simp: store_ok_def Cons_simps writes_def work_chunk_def work_ok_def)
  ultimately show ?thesis using cn by (intro that [of cn a])
qed

lemma detach_pending:
  assumes "srv_inv cur t hand w" "j \<in> set (pending_writes (srv w))"
  obtains cn where "conns (srv w) (job_conn (io_jobs (srv w) j)) = Some cn" "conn_state cn = PROCESS_REQUEST"
    "aeGetFileEvents (conn_fd cn) w = 0" "job_conn (io_jobs (srv w) j) \<notin> cur" "job_work (io_jobs (srv w) j) = WWrite"
    "srv_inv (insert (job_conn (io_jobs (srv w) j)) cur) t (j # hand)
       (w\<lparr>srv := (srv w)\<lparr>pending_writes := remove1 j (pending_writes (srv w)), pending_writes_size := pending_writes_size (srv w) - 1\<rparr>\<rparr>)"
proof -
  let ?s = "srv w" and ?wk = "IoWork j"
  let ?s' = "?s\<lparr>pending_writes := remove1 j (pending_writes ?s), pending_writes_size := pending_writes_size ?s - 1\<rparr>"
  have i: "conns_ok cur t w" "jobs_ok t hand ?s" "store_ok t ?s" "stats_ok t ?s" "bufs_ok ?s" "loop_ok w"
    using assms(1) by (auto simp: srv_inv_def)
  note f = work_frame [of ?s' ?s, simplified]
  have w: "mset (works t ?s) = mset (works (?wk # t) ?s')"
    using assms(2) by (simp add: works_def qworks_def image_mset_Diff)
  then have "mset (owners (?wk # t) ?s') = mset (owners t ?s)" by (simp add: owners_def f)
  then have k: "conns_ok cur (?wk # t) (w\<lparr>srv := ?s'\<rparr>)" using i(1) by (simp add: conns_ok_perm)
  have c: "work_conn (srv (w\<lparr>srv := ?s'\<rparr>)) ?wk = job_conn (io_jobs ?s j)" by (simp add: work_conn_def)
  obtain cn where cn: "conns ?s (job_conn (io_jobs ?s j)) = Some cn" "conn_state cn = PROCESS_REQUEST" "aeGetFileEvents (conn_fd cn) w = 0"
    "conns_ok (insert (job_conn (io_jobs ?s j)) cur) t (w\<lparr>srv := ?s'\<rparr>)" "job_conn (io_jobs ?s j) \<notin> cur"
    by (rule conns_detach [OF k, unfolded c]) simp
  have e: "mset (busy (?wk # t) ?s') = mset (busy t ?s)" by (simp only: busy_def mset_concat_map w)
  have b: "set (busy t ?s) = insert j (set (busy t ?s'))" "distinct (busy t ?s) \<longleftrightarrow> j \<notin> set (busy t ?s') \<and> distinct (busy t ?s')"
    unfolding mset_eq_setD [OF e, symmetric] mset_eq_imp_distinct_iff [OF e, symmetric] by (simp_all add: Cons_simps io_of_def)
  have q: "qworks t ?s' = qworks t ?s" by (simp add: qworks_def)
  have len: "length (pending_writes ?s) = Suc (length (remove1 j (pending_writes ?s)))"
    using assms(2) length_pos_if_in_set [OF assms(2)] by (simp add: length_remove1)
  have "distinct (free_io_jobs ?s @ (j # hand) @ busy t ?s') \<and> set (free_io_jobs ?s @ (j # hand) @ busy t ?s') = {..<DEF_MAX_IO_JOBS}"
  proof -
    have "distinct (free_io_jobs ?s @ hand @ busy t ?s)" "set (free_io_jobs ?s @ hand @ busy t ?s) = {..<DEF_MAX_IO_JOBS}"
      using i(2) unfolding jobs_ok_def by blast+
    then show ?thesis using b by simp
  qed
  moreover have "pending_writes_size ?s - 1 = of_nat (length (remove1 j (pending_writes ?s)))"
    using i(2) len by (simp add: jobs_ok_def)
  moreover have "set (remove1 j (pending_writes ?s)) \<subseteq> set (pending_writes ?s)" by (rule set_remove1_subset)
  ultimately have "jobs_ok t (j # hand) ?s'"
    using i(2) len unfolding jobs_ok_def f q by (simp add: subset_iff)
  moreover have "job_work (io_jobs ?s j) = WWrite" using i(2) assms(2) by (simp add: jobs_ok_def)
  moreover have "store_ok t ?s'" using i(3) store_ok_cong [of ?s' ?s] by simp
  moreover have "stats_ok t ?s'" using i(4) stats_ok_cong [of ?s' ?s] by simp
  moreover have "bufs_ok ?s'" using i(5) bufs_ok_cong [of ?s' ?s] by simp
  ultimately show ?thesis using cn i(6) by (intro that [of cn]) (simp_all add: srv_inv_def)
qed

lemma free_job:
  assumes "srv_inv cur t (j # hand) w"
  shows "srv_inv cur t hand (spy_free_io_job j w)"
proof -
  let ?s = "srv w" and ?s' = "(srv w)\<lparr>io_jobs := (io_jobs (srv w))(j := zero_job), free_io_jobs := j # free_io_jobs (srv w)\<rparr>"
  have i: "conns_ok cur t w" "jobs_ok t (j # hand) ?s" "store_ok t ?s" "stats_ok t ?s" "bufs_ok ?s" "loop_ok w"
    using assms by (auto simp: srv_inv_def)
  have "j \<notin> set (busy t ?s)" using i(2) by (simp add: jobs_ok_def)
  then have u: "owners t ?s' = owners t ?s" "busy t ?s' = busy t ?s" "writers t ?s' = writers t ?s" "qworks t ?s' = qworks t ?s"
    "length (filter (reads ?s') (qworks t ?s)) = length (filter (reads ?s) (qworks t ?s))"
    "length (filter (writes ?s') (qworks t ?s)) = length (filter (writes ?s) (qworks t ?s))"
    "\<forall>wk\<in>set (qworks t ?s). work_ok ?s' wk = work_ok ?s wk"
    "\<forall>j'\<in>set (pending_writes ?s). io_jobs ?s' j' = io_jobs ?s j'"
    using works_upd [of j ?s' ?s t] by simp_all
  have "conns_ok cur t (w\<lparr>srv := ?s'\<rparr>)" using i(1) u(1) by (simp add: conns_ok_cong)
  moreover have "jobs_ok t hand ?s'"
    using i(2) u(2,4,7,8) unfolding jobs_ok_def by (simp only: u(2,4)) auto
  moreover have "store_ok t ?s'" using i(3) u(3) by (simp add: store_ok_def)
  moreover have "stats_ok t ?s'" using i(4) u(4-6) by (simp add: stats_ok_def)
  moreover have "bufs_ok ?s'" using i(5) bufs_ok_cong [of ?s' ?s] by simp
  ultimately show ?thesis using i(6) by (simp add: spy_free_io_job_def srv_inv_def)
qed

lemma gen_job:
  assumes "srv_inv cur t hand w" "spy_gen_io_job w = (Some j, w')"
  shows "srv_inv cur t (j # hand) w'" "srv w' = (srv w)\<lparr>free_io_jobs := free_io_jobs (srv w')\<rparr>" "w' = w\<lparr>srv := srv w'\<rparr>"
proof -
  obtain js where js: "free_io_jobs (srv w) = j # js" "w' = w\<lparr>srv := (srv w)\<lparr>free_io_jobs := js\<rparr>\<rparr>"
    using assms(2) by (auto simp: spy_gen_io_job_def split: list.splits)
  let ?s = "srv w" and ?s' = "(srv w)\<lparr>free_io_jobs := js\<rparr>"
  have i: "conns_ok cur t w" "jobs_ok t hand ?s" "store_ok t ?s" "stats_ok t ?s" "bufs_ok ?s" "loop_ok w"
    using assms(1) by (auto simp: srv_inv_def)
  have "jobs_ok t (j # hand) ?s'"
    using i(2) js(1) owners_cong(3) [of ?s' ?s] work_frame [of ?s' ?s] qworks_frame [of ?s' ?s] by (auto simp: jobs_ok_def)
  then show "srv_inv cur t (j # hand) w'"
    using i js(2) conns_ok_cong [of t ?s' w] owners_cong(1) [of ?s' ?s t] store_ok_cong [of ?s' ?s] stats_ok_cong [of ?s' ?s] bufs_ok_cong [of ?s' ?s]
    by (simp add: srv_inv_def)
qed (use assms(2) in \<open>auto simp: spy_gen_io_job_def split: list.splits\<close>)

lemma upd_facts:
  assumes "\<forall>j'. j' \<noteq> j \<longrightarrow> io_jobs s' j' = io_jobs s j'" "dump_jobs s' = dump_jobs s" "pending_writes s' = pending_writes s"
    "wq_queued s' = wq_queued s" "wq_finished s' = wq_finished s" "next_dump s' = next_dump s" "pending_writes_size s' = pending_writes_size s"
    "free_io_jobs s' = free_io_jobs s" and "jobs_ok t (j # hand) s"
  shows "jobs_ok t (j # hand) s'" "owners t s' = owners t s" "writers t s' = writers t s"
    "store s' = store s \<Longrightarrow> store_ok t s' = store_ok t s"
    "dom (conns s') = dom (conns s) \<Longrightarrow> statistic s' = statistic s \<Longrightarrow> stats_ok t s' = stats_ok t s"
proof -
  have "j \<notin> set (busy t s)" using assms(9) by (simp add: jobs_ok_def)
  note u = works_upd [OF assms(1-5) this]
  show "jobs_ok t (j # hand) s'"
    using assms(9) unfolding jobs_ok_def u(2,4) assms(2,3,6-8) by (simp add: u(7,8))
  show "owners t s' = owners t s" "writers t s' = writers t s" by (fact u)+
  show "store s' = store s \<Longrightarrow> store_ok t s' = store_ok t s" by (simp add: store_ok_def u(3))
  show "dom (conns s') = dom (conns s) \<Longrightarrow> statistic s' = statistic s \<Longrightarrow> stats_ok t s' = stats_ok t s"
    by (simp add: stats_ok_def u)
qed

text \<open>Writing to a job in hand.\<close>

lemma set_job_hand:
  assumes "srv_inv cur t (j # hand) w"
  shows "srv_inv cur t (j # hand) (set_job j job w)"
proof -
  let ?s = "srv w" and ?s' = "(srv w)\<lparr>io_jobs := (io_jobs (srv w))(j := job)\<rparr>"
  have i: "conns_ok cur t w" "jobs_ok t (j # hand) ?s" "store_ok t ?s" "stats_ok t ?s" "bufs_ok ?s" "loop_ok w"
    using assms by (auto simp: srv_inv_def)
  have u: "jobs_ok t (j # hand) ?s'" "owners t ?s' = owners t ?s" "store_ok t ?s' = store_ok t ?s" "stats_ok t ?s' = stats_ok t ?s"
    using upd_facts [of j ?s' ?s t hand] i(2) by simp_all
  moreover have "bufs_ok ?s'" using i(5) bufs_ok_cong [of ?s' ?s] by simp
  moreover have "conns_ok cur t (w\<lparr>srv := ?s'\<rparr>)" using i(1) u(2) by (simp add: conns_ok_cong)
  ultimately show ?thesis using i by (simp add: srv_inv_def set_job_def)
qed

text \<open>The job in hand becomes a work, or a pending write.\<close>

lemma attach_hand:
  assumes "srv_inv cur t (j # hand) w" "c \<in> cur" "job_conn (io_jobs (srv w) j) = c" "conns (srv w) c = Some cn"
    and "conn_state cn = PROCESS_REQUEST" "aeGetFileEvents (conn_fd cn) w = 0"
    and "work_ok (srv w) (IoWork j)"
    and "job_work (io_jobs (srv w) j) = WWrite \<Longrightarrow> job_chunk (io_jobs (srv w) j) \<in> Some ` set (writing_chunks (store (srv w))) - set (writers t (srv w))"
    and "stat_add 1 (job_work (io_jobs (srv w) j)) (statistic (srv w)) (f (statistic (srv w)))"
  shows "srv_inv (cur - {c}) (IoWork j # t) hand (upd_stat f w)"
proof -
  let ?s = "srv w" and ?s' = "(srv w)\<lparr>statistic := f (statistic (srv w))\<rparr>" and ?wk = "IoWork j"
  have i: "conns_ok cur t w" "jobs_ok t (j # hand) ?s" "store_ok t ?s" "stats_ok t ?s" "bufs_ok ?s" "loop_ok w"
    using assms(1) by (auto simp: srv_inv_def)
  have "conns_ok (cur - {c}) (?wk # t) w"
    using assms by (intro conns_attach [OF i(1)]) (simp_all add: work_conn_def)
  then have "conns_ok (cur - {c}) (?wk # t) (w\<lparr>srv := ?s'\<rparr>)" using conns_ok_cong [of "?wk # t" ?s' w] owners_cong(1) [of ?s' ?s "?wk # t"] by simp
  moreover have "jobs_ok (?wk # t) hand ?s"
    using i(2) assms(7) by (auto simp: jobs_ok_def Cons_simps io_of_def)
  then have "jobs_ok (?wk # t) hand ?s'" using jobs_ok_cong [of ?s' ?s] by simp
  moreover have "store_ok (?wk # t) ?s"
    using i(3) assms(8) by (auto simp: store_ok_def Cons_simps writes_def work_chunk_def)
  then have "store_ok (?wk # t) ?s'" using store_ok_cong [of ?s' ?s] by simp
  moreover have "stats_ok (?wk # t) ?s'"
    using i(4) assms(9) work_frame [of ?s' ?s] qworks_frame [of ?s' ?s "?wk # t"]
    by (simp add: stats_ok_def Cons_simps stat_add_def reads_def writes_def)
  moreover have "bufs_ok ?s'" using i(5) bufs_ok_cong [of ?s' ?s] by simp
  ultimately show ?thesis using i(6) by (simp add: srv_inv_def upd_stat_def)
qed

lemma attach_pending:
  assumes "srv_inv cur t (j # hand) w" "c \<in> cur" "job_conn (io_jobs (srv w) j) = c" "conns (srv w) c = Some cn"
    and "conn_state cn = PROCESS_REQUEST" "aeGetFileEvents (conn_fd cn) w = 0"
    and "job_work (io_jobs (srv w) j) = WWrite" "job_chunk (io_jobs (srv w) j) = None" "length (pending_writes (srv w)) < 20"
  shows "srv_inv (cur - {c}) t hand (w\<lparr>srv := (srv w)\<lparr>pending_writes := pending_writes (srv w) @ [j],
    pending_writes_size := pending_writes_size (srv w) + 1\<rparr>\<rparr>)"
proof -
  let ?s = "srv w" and ?wk = "IoWork j"
  let ?s' = "?s\<lparr>pending_writes := pending_writes ?s @ [j], pending_writes_size := pending_writes_size ?s + 1\<rparr>"
  have i: "conns_ok cur t w" "jobs_ok t (j # hand) ?s" "store_ok t ?s" "stats_ok t ?s" "bufs_ok ?s" "loop_ok w"
    using assms(1) by (auto simp: srv_inv_def)
  note f = work_frame [of ?s' ?s, simplified]
  have w: "mset (works t ?s') = mset (works (?wk # t) ?s)" by (simp add: works_def qworks_def)
  have "conns_ok (cur - {c}) (?wk # t) w"
    using assms by (intro conns_attach [OF i(1)]) (simp_all add: work_conn_def)
  moreover have "mset (owners t ?s') = mset (owners (?wk # t) ?s)" using w by (simp add: owners_def f)
  ultimately have "conns_ok (cur - {c}) t (w\<lparr>srv := ?s'\<rparr>)" by (simp add: conns_ok_perm)
  moreover have e: "mset (busy t ?s') = mset (busy (?wk # t) ?s)" by (simp only: busy_def mset_concat_map w)
  have b: "set (busy t ?s') = insert j (set (busy t ?s))" "distinct (busy t ?s') \<longleftrightarrow> j \<notin> set (busy t ?s) \<and> distinct (busy t ?s)"
    unfolding mset_eq_setD [OF e] mset_eq_imp_distinct_iff [OF e] by (simp_all add: Cons_simps io_of_def)
  have "distinct (free_io_jobs ?s @ (j # hand) @ busy t ?s)" "set (free_io_jobs ?s @ (j # hand) @ busy t ?s) = {..<DEF_MAX_IO_JOBS}"
    using i(2) unfolding jobs_ok_def by blast+
  then have d: "distinct (free_io_jobs ?s @ hand @ busy t ?s')" "set (free_io_jobs ?s @ hand @ busy t ?s') = {..<DEF_MAX_IO_JOBS}"
    using b by auto
  have q: "qworks t ?s' = qworks t ?s" by (simp add: qworks_def)
  have "jobs_ok t hand ?s'" using i(2) d assms(7-9) unfolding jobs_ok_def f q by simp
  moreover have "store_ok t ?s'" using i(3) store_ok_cong [of ?s' ?s] by simp
  moreover have "stats_ok t ?s'" using i(4) stats_ok_cong [of ?s' ?s] by simp
  moreover have "bufs_ok ?s'" using i(5) bufs_ok_cong [of ?s' ?s] by simp
  ultimately show ?thesis using i(6) by (simp add: srv_inv_def)
qed

section \<open>Works seen from the invariant\<close>

text \<open>What the invariant knows of a work.\<close>

definition work_view :: "spy_server \<Rightarrow> work \<Rightarrow> nat \<times> bool \<times> bool \<times> bool \<times> nat option" where
  "work_view s wk = (work_conn s wk, work_ok s wk, writes s wk, reads s wk, work_chunk s wk)"

lemma inv_view:
  assumes "srv_inv cur t hand w" "\<forall>wk\<in>set (works t (srv w)). work_view s wk = work_view (srv w) wk"
    and "pending_writes s = pending_writes (srv w)" "wq_queued s = wq_queued (srv w)" "wq_finished s = wq_finished (srv w)"
    "free_io_jobs s = free_io_jobs (srv w)" "pending_writes_size s = pending_writes_size (srv w)" "store s = store (srv w)"
    "conns s = conns (srv w)" "next_conn s = next_conn (srv w)" "mem s = mem (srv w)" "statistic s = statistic (srv w)"
    and "\<forall>d. dump_jobs s d \<noteq> None \<longrightarrow> d < next_dump s"
  shows "srv_inv cur t hand (w\<lparr>srv := s\<rparr>)"
proof -
  let ?s = "srv w"
  have i: "conns_ok cur t w" "jobs_ok t hand ?s" "store_ok t ?s" "stats_ok t ?s" "bufs_ok ?s" "loop_ok w"
    using assms(1) by (auto simp: srv_inv_def)
  have w: "works t s = works t ?s" "qworks t s = qworks t ?s" using assms(3-5) by (simp_all add: works_def qworks_def)
  have sub: "set (qworks t ?s) \<subseteq> set (works t ?s)" by (auto simp: works_def)
  have v: "work_conn s wk = work_conn ?s wk" "work_ok s wk = work_ok ?s wk" "writes s wk = writes ?s wk" "reads s wk = reads ?s wk"
    "work_chunk s wk = work_chunk ?s wk" if "wk \<in> set (works t ?s)" for wk using assms(2) that by (auto simp: work_view_def)
  have f: "filter (writes s) (qworks t ?s) = filter (writes ?s) (qworks t ?s)" "filter (reads s) (qworks t ?s) = filter (reads ?s) (qworks t ?s)"
    using v(3,4) sub by (auto intro!: filter_cong)
  have "map (work_chunk s) (filter (writes ?s) (qworks t ?s)) = map (work_chunk ?s) (filter (writes ?s) (qworks t ?s))"
    using v(5) sub by (intro map_cong) auto
  then have wr: "writers t s = writers t ?s" by (simp add: writers_def w f)
  have o: "owners t s = owners t ?s" using v(1) by (simp add: owners_def w)
  have b: "busy t s = busy t ?s" by (simp add: busy_def w)
  have p: "writes s (IoWork j) = writes ?s (IoWork j) \<and> work_chunk s (IoWork j) = work_chunk ?s (IoWork j)" if "j \<in> set (pending_writes ?s)" for j
    using v [of "IoWork j"] that by (simp add: works_def)
  have "conns_ok cur t (w\<lparr>srv := s\<rparr>)" using i(1) o assms(9,10) by (simp add: conns_ok_cong)
  moreover have "jobs_ok t hand s"
    using i(2) p v(2) sub assms(13) unfolding jobs_ok_def b w assms(3,6,7) by (auto simp: writes_def work_chunk_def)
  moreover have "store_ok t s" using i(3) wr assms(8) by (simp add: store_ok_def)
  moreover have "stats_ok t s" using i(4) assms(9,12) by (simp add: stats_ok_def w f)
  moreover have "bufs_ok s" using i(5) assms(9-11) by (simp add: bufs_ok_cong [of s ?s])
  ultimately show ?thesis using i(6) by (simp add: srv_inv_def)
qed

section \<open>Dump jobs\<close>

lemma fresh_dump:
  assumes "srv_inv cur t hand w" "next_dump (srv w) \<le> d"
  shows "DumpWork d \<notin> set (works t (srv w))"
proof
  assume "DumpWork d \<in> set (works t (srv w))"
  then have "DumpWork d \<in> set (qworks t (srv w))" by (auto simp: works_def)
  moreover have j: "jobs_ok t hand (srv w)" using assms(1) by (simp add: srv_inv_def)
  ultimately have "work_ok (srv w) (DumpWork d)" by (simp add: jobs_ok_def)
  then have "dump_jobs (srv w) d \<noteq> None" by (simp add: work_ok_def)
  then have "d < next_dump (srv w)" using j unfolding jobs_ok_def by blast
  then show False using assms(2) by simp
qed

lemma set_dump:
  assumes "srv_inv cur t hand w" "DumpWork d \<notin> set (works t (srv w))" "next_dump (srv w) \<le> n" "d < n"
  shows "srv_inv cur t hand (w\<lparr>srv := (srv w)\<lparr>next_dump := n, dump_jobs := (dump_jobs (srv w))(d := x)\<rparr>\<rparr>)"
proof (rule inv_view [OF assms(1)])
  let ?s = "(srv w)\<lparr>next_dump := n, dump_jobs := (dump_jobs (srv w))(d := x)\<rparr>"
  have "work_view ?s wk = work_view (srv w) wk" if "wk \<noteq> DumpWork d" for wk
    using that by (cases wk) (auto simp: work_view_def work_conn_def work_ok_def writes_def reads_def work_chunk_def)
  then show "\<forall>wk\<in>set (works t (srv w)). work_view ?s wk = work_view (srv w) wk" using assms(2) by metis
  have "d' < next_dump (srv w)" if "dump_jobs (srv w) d' \<noteq> None" for d' using assms(1) that by (simp add: srv_inv_def jobs_ok_def)
  then show "\<forall>d'. dump_jobs ?s d' \<noteq> None \<longrightarrow> d' < next_dump ?s" using assms(3,4) by (auto intro: less_le_trans)
qed simp_all

lemma attach_dump:
  assumes "srv_inv cur t hand w" "c \<in> cur" "dump_jobs (srv w) d = Some dj" "dj_conn dj = c" "conns (srv w) c = Some cn"
    and "conn_state cn = PROCESS_REQUEST" "aeGetFileEvents (conn_fd cn) w = 0"
  shows "srv_inv (cur - {c}) (DumpWork d # t) hand w"
proof -
  let ?s = "srv w" and ?wk = "DumpWork d"
  have i: "conns_ok cur t w" "jobs_ok t hand ?s" "store_ok t ?s" "stats_ok t ?s" "bufs_ok ?s" "loop_ok w"
    using assms(1) by (auto simp: srv_inv_def)
  have "conns_ok (cur - {c}) (?wk # t) w" using assms by (intro conns_attach [OF i(1)]) (simp_all add: work_conn_def)
  moreover have "jobs_ok (?wk # t) hand ?s" using i(2) assms(3) by (simp add: jobs_ok_def Cons_simps io_of_def work_ok_def)
  moreover have "store_ok (?wk # t) ?s" using i(3) by (simp add: store_ok_def Cons_simps writes_def)
  moreover have "stats_ok (?wk # t) ?s" using i(4) by (simp add: stats_ok_def Cons_simps reads_def writes_def)
  ultimately show ?thesis using i(5,6) by (simp add: srv_inv_def)
qed

lemma detach_dump:
  assumes "srv_inv cur (DumpWork d # t) hand w"
  obtains dj cn where "dump_jobs (srv w) d = Some dj" "conns (srv w) (dj_conn dj) = Some cn" "conn_state cn = PROCESS_REQUEST"
    "aeGetFileEvents (conn_fd cn) w = 0" "dj_conn dj \<notin> cur"
    "srv_inv (insert (dj_conn dj) cur) t hand (w\<lparr>srv := (srv w)\<lparr>dump_jobs := (dump_jobs (srv w))(d := None)\<rparr>\<rparr>)"
proof -
  let ?s = "srv w" and ?wk = "DumpWork d"
  have i: "conns_ok cur (?wk # t) w" "jobs_ok (?wk # t) hand ?s" "store_ok (?wk # t) ?s" "stats_ok (?wk # t) ?s" "bufs_ok ?s" "loop_ok w"
    using assms(1) by (auto simp: srv_inv_def)
  have "work_ok ?s ?wk" using i(2) by (simp add: jobs_ok_def Cons_simps)
  then obtain dj where dj: "dump_jobs ?s d = Some dj" by (auto simp: work_ok_def)
  have c: "work_conn ?s ?wk = dj_conn dj" by (simp add: work_conn_def dj)
  obtain cn where cn: "conns ?s (dj_conn dj) = Some cn" "conn_state cn = PROCESS_REQUEST" "aeGetFileEvents (conn_fd cn) w = 0"
    "conns_ok (insert (dj_conn dj) cur) t w" "dj_conn dj \<notin> cur" "dj_conn dj \<notin> set (owners t ?s)"
    by (rule conns_detach [OF i(1), unfolded c])
  have "jobs_ok t hand ?s" using i(2) by (simp add: jobs_ok_def Cons_simps io_of_def)
  moreover have "store_ok t ?s" using i(3) by (simp add: store_ok_def Cons_simps writes_def)
  moreover have "stats_ok t ?s" using i(4) by (simp add: stats_ok_def Cons_simps reads_def writes_def)
  ultimately have inv: "srv_inv (insert (dj_conn dj) cur) t hand w" using cn(4) i(5,6) by (simp add: srv_inv_def)
  have "DumpWork d \<notin> set (works t ?s)" using cn(6) c [symmetric] by (auto simp: owners_def)
  moreover have "d < next_dump ?s" using i(2) dj by (simp add: jobs_ok_def)
  ultimately have "srv_inv (insert (dj_conn dj) cur) t hand
      (w\<lparr>srv := ?s\<lparr>next_dump := next_dump ?s, dump_jobs := (dump_jobs ?s)(d := None)\<rparr>\<rparr>)"
    by (intro set_dump [OF inv]) simp_all
  with cn dj show ?thesis by (intro that [of dj cn]) simp_all
qed

section \<open>Chunks\<close>

lemma inv_store:
  assumes "srv_inv cur t hand w" "chunks_ok (f (store (srv w)))" "index_ok (file_index (f (store (srv w))))"
    and "set (writers t (srv w)) \<subseteq> Some ` set (writing_chunks (f (store (srv w))))"
  shows "srv_inv cur t hand (upd_store f w)"
proof -
  let ?s = "srv w" and ?s' = "(srv w)\<lparr>store := f (store (srv w))\<rparr>"
  have i: "conns_ok cur t w" "jobs_ok t hand ?s" "store_ok t ?s" "stats_ok t ?s" "bufs_ok ?s" "loop_ok w"
    using assms(1) by (auto simp: srv_inv_def)
  have "writers t ?s' = writers t ?s" using work_frame [of ?s' ?s] qworks_frame [of ?s' ?s t] by (simp add: writers_def)
  then have "store_ok t ?s'" using i(3) assms(2-4) by (simp add: store_ok_def)
  then show ?thesis
    using i conns_ok_cong [of t ?s' w] owners_cong(1) [of ?s' ?s t] jobs_ok_cong [of ?s' ?s] stats_ok_cong [of ?s' ?s] bufs_ok_cong [of ?s' ?s]
    by (simp add: srv_inv_def upd_store_def)
qed

lemma inv_store_parts:
  assumes "srv_inv cur t hand w"
  shows "chunks_ok (store (srv w))" "index_ok (file_index (store (srv w)))" "set (writers t (srv w)) \<subseteq> Some ` set (writing_chunks (store (srv w)))"
  using assms by (auto simp: srv_inv_def store_ok_def)

lemma chunks_ok_perm:
  assumes "chunks_ok st" "mset (cs @ ws) = mset (chunks st @ writing_chunks st)"
  shows "chunks_ok (st\<lparr>chunks := cs, writing_chunks := ws\<rparr>)"
proof -
  have e: "set (cs @ ws) = set (chunks st @ writing_chunks st)" "distinct (cs @ ws) = distinct (chunks st @ writing_chunks st)"
    "length (cs @ ws) = length (chunks st @ writing_chunks st)"
    using assms(2) mset_eq_setD mset_eq_imp_distinct_iff mset_eq_length by metis+
  then have "int (length cs + length ws) = int (length (chunks st) + length (writing_chunks st))" by simp
  with assms(1) show ?thesis unfolding chunks_ok_def by (simp add: e del: set_append distinct_append)
qed

lemma take_chunk_ok:
  assumes "chunks_ok st" "a \<in> set (chunks st)"
  shows "chunks_ok (take_chunk a st)"
proof -
  have "a \<notin> set (writing_chunks st)" using assms by (auto simp: chunks_ok_def)
  then show ?thesis using assms chunks_ok_perm [OF assms(1), of "remove1 a (chunks st)" "a # writing_chunks st"]
    by (simp add: take_chunk_def remove1_idem)
qed

lemma return_chunk_ok:
  assumes "chunks_ok st" "a \<in> set (writing_chunks st)"
  shows "chunks_ok (return_chunk a st)"
proof -
  have "a \<notin> set (chunks st)" using assms by (auto simp: chunks_ok_def)
  then have "return_chunk a st = st\<lparr>chunks := chunks st @ [a], writing_chunks := remove1 a (writing_chunks st)\<rparr>"
    by (simp add: return_chunk_def remove1_idem)
  then show ?thesis using assms chunks_ok_perm [OF assms(1), of "chunks st @ [a]" "remove1 a (writing_chunks st)"] by simp
qed

end
