(* ===== verification/Spy_Done.thy ===== *)
theory Spy_Done
  imports Spy_Jobs
begin

text \<open>
  The completion callbacks of the work queue and the timer: in a state of the invariant they always return, and the
  invariant holds again.
\<close>

section \<open>Moving a chunk on\<close>

lemma inv_stat:
  assumes "srv_inv cur t hand w" "\<And>x. conn_count (f x) = conn_count x" "\<And>x. reading_count (f x) = reading_count x"
    "\<And>x. writing_count (f x) = writing_count x"
  shows "srv_inv cur t hand (upd_stat f w)"
  using assms by (simp add: upd_stat_def srv_inv_cong)

lemma set_job_writers:
  assumes "srv_inv cur t (j # hand) w"
  shows "writers t (srv (set_job j job w)) = writers t (srv w)"
  using assms upd_facts(3) [of j "(srv w)\<lparr>io_jobs := (io_jobs (srv w))(j := job)\<rparr>" "srv w" t hand]
  by (simp add: set_job_def srv_inv_def)

text \<open>Works keep their writers when only pending writes change.\<close>

lemma writers_pending: "writers t (s\<lparr>pending_writes := p, pending_writes_size := n\<rparr>) = writers t s"
  using work_frame [of "s\<lparr>pending_writes := p, pending_writes_size := n\<rparr>" s]
    qworks_frame [of "s\<lparr>pending_writes := p, pending_writes_size := n\<rparr>" s t] by (simp add: writers_def)

text \<open>What \<open>next_pending_write\<close> leaves alone.\<close>

lemma next_pending_frame:
  "conns (srv (next_pending_write a w)) = conns (srv w)" "file_index (store (srv (next_pending_write a w))) = file_index (store (srv w))"
  "chunk_tab (store (srv (next_pending_write a w))) = chunk_tab (store (srv w))"
  "same_time w (next_pending_write a w)" "mem (srv (next_pending_write a w)) = mem (srv w)"
  by (simp_all add: next_pending_write_def Let_def spy_queue_work_def upd_stat_def set_job_def upd_store_def return_chunk_def
      same_time_def split: option.splits)

lemma next_pending_ok:
  assumes "srv_inv cur t hand w" "a \<in> set (writing_chunks (store (srv w)))" "Some a \<notin> set (writers t (srv w))"
  shows "srv_inv cur t hand (next_pending_write a w)"
proof (cases "if pending_writes_size (srv w) > 0
    then find (\<lambda>tmp. has_room (store (srv w)) (f_size (job_file (io_jobs (srv w) tmp))) a) (pending_writes (srv w)) else None")
  case None
  then have e: "next_pending_write a w = upd_store (return_chunk a) w" by (simp add: next_pending_write_def Let_def)
  note p = inv_store_parts [OF assms(1)]
  have "chunks_ok (return_chunk a (store (srv w)))" by (rule return_chunk_ok [OF p(1) assms(2)])
  moreover have "distinct (writing_chunks (store (srv w)))" using p(1) by (simp add: chunks_ok_def)
  then have "set (writers t (srv w)) \<subseteq> Some ` set (writing_chunks (return_chunk a (store (srv w))))"
    using p(3) assms(3) by (auto simp: return_chunk_def)
  ultimately show ?thesis unfolding e using p(2) by (intro inv_store [OF assms(1)]) (simp_all add: return_chunk_def)
next
  case (Some j)
  let ?s = "srv w"
  let ?c = "job_conn (io_jobs ?s j)"
  let ?w1 = "w\<lparr>srv := ?s\<lparr>pending_writes := remove1 j (pending_writes ?s), pending_writes_size := pending_writes_size ?s - 1\<rparr>\<rparr>"
  let ?job = "(io_jobs ?s j)\<lparr>job_chunk := Some a, job_arg := JobOffset (current_offset (chunk_tab (store ?s) a))\<rparr>"
  let ?w2 = "set_job j ?job ?w1"
  let ?f = "\<lambda>st :: spy_statistic. st\<lparr>write_count := write_count st + 1, writing_count := writing_count st + 1\<rparr>"
  have e: "next_pending_write a w = spy_queue_work (IoWork j) (upd_stat ?f ?w2)"
    using Some by (simp add: next_pending_write_def Let_def)
  have "j \<in> set (pending_writes ?s)" using Some by (auto simp: find_Some_iff split: if_splits)
  then obtain cn where cn: "conns ?s ?c = Some cn" "conn_state cn = PROCESS_REQUEST" "aeGetFileEvents (conn_fd cn) w = 0" "?c \<notin> cur"
    "job_work (io_jobs ?s j) = WWrite" "srv_inv (insert ?c cur) t (j # hand) ?w1"
    by (rule detach_pending [OF assms(1)])
  have wr: "writers t (srv ?w2) = writers t ?s" using set_job_writers [OF cn(6), of ?job] by (simp add: writers_pending)
  have "srv_inv (insert ?c cur - {?c}) (IoWork j # t) hand (upd_stat ?f ?w2)"
  proof (rule attach_hand [OF set_job_hand [OF cn(6)]])
    show "job_work (io_jobs (srv ?w2) j) = WWrite \<Longrightarrow>
      job_chunk (io_jobs (srv ?w2) j) \<in> Some ` set (writing_chunks (store (srv ?w2))) - set (writers t (srv ?w2))"
      unfolding wr using assms(2,3) by (simp add: set_job_def)
  qed (use cn in \<open>simp_all add: set_job_def work_ok_def stat_add_def\<close>)
  then show ?thesis unfolding e using cn(4) by (intro inv_queue_work) simp
qed

section \<open>Callbacks\<close>

lemma same_time_upd [simp]:
  "same_time w (upd_stat f w') = same_time w w'" "same_time w (put_conn c cn w') = same_time w w'" "same_time w (set_mem m w') = same_time w w'"
  "same_time w (set_job j job w') = same_time w w'" "same_time w (upd_store g w') = same_time w w'" "same_time w (spy_free_io_job j w') = same_time w w'"
  "same_time w (spy_queue_work wk w') = same_time w w'"
  by (simp_all add: upd_stat_def put_conn_def set_mem_def set_job_def upd_store_def spy_free_io_job_def spy_queue_work_def)

lemma conns_upd [simp]:
  "conns (srv (upd_stat f w)) = conns (srv w)" "conns (srv (upd_store g w)) = conns (srv w)" "conns (srv (set_job j job w)) = conns (srv w)"
  "conns (srv (spy_free_io_job j w)) = conns (srv w)"
  by (simp_all add: upd_stat_def upd_store_def set_job_def spy_free_io_job_def)

lemma upd_stat_put: "upd_stat f (put_conn c cn w) = put_conn c cn (upd_stat f w)"
  by (simp add: upd_stat_def put_conn_def)

text \<open>An answer without a body ends the work of a job in hand.\<close>

lemma reply_free:
  assumes "srv_inv (insert c cur) t (j # hand) w" "conns (srv w) c = Some cn" "c \<notin> cur"
  obtains w' where "reply_error c e w = Some w'" "srv_inv cur t hand (spy_free_io_job j w')" "srv_inv cur t (j # hand) w'" "conn_frame c w w'"
proof -
  obtain w' where w': "reply_error c e w = Some w'" "srv_inv (insert c cur - {c}) t (j # hand) w'" "conn_frame c w w'"
    by (rule reply_error_ok [OF assms(1,2) insertI1])
  moreover have "insert c cur - {c} = cur" using assms(3) by simp
  ultimately show ?thesis using free_job [of cur t j hand w'] by (intro that [of w']) simp_all
qed

lemma conn_frame_time: "conn_frame c w w' \<Longrightarrow> same_time w w'"
  by (simp add: conn_frame_def)

lemma check_done_ok:
  assumes "srv_inv cur (IoWork j # t) hand w" "job_work (io_jobs (srv w) j) = WCheck"
  obtains w' where "spy_check_chunk_done j w = Some w'" "srv_inv cur t hand w'" "same_time w w'"
proof -
  let ?c = "job_conn (io_jobs (srv w) j)"
  obtain cn where cn: "conns (srv w) ?c = Some cn" "?c \<notin> cur" "srv_inv (insert ?c cur) t (j # hand) (upd_stat (\<lambda>x. x) w)"
    by (rule detach_io [OF assms(1), of "\<lambda>x. x"]) (simp_all add: stat_add_def assms(2))
  have u: "upd_stat (\<lambda>x. x) w = w" by (simp add: upd_stat_def)
  obtain w' where "reply_error ?c (error_code (if retcode (io_jobs (srv w) j) = 0 then SUCCESS else CHUNK_CHECK_ERROR)) w = Some w'"
    "srv_inv cur t hand (spy_free_io_job j w')" "conn_frame ?c w w'"
    by (rule reply_free [OF cn(3) [unfolded u] cn(1,2)])
  then show ?thesis by (intro that [of "spy_free_io_job j w'"]) (simp_all add: spy_check_chunk_done_def Let_def conn_frame_time)
qed

lemma write_error_ok:
  assumes "srv_inv (insert c cur) t (j # hand) w" "conns (srv w) c = Some cn" "c \<notin> cur"
  obtains w' where "write_done_error j c err w = Some w'" "srv_inv cur t hand w'" "same_time w w'"
proof -
  let ?f = "\<lambda>st :: spy_statistic. st\<lparr>write_error := write_error st + 1\<rparr>"
  have "srv_inv (insert c cur) t (j # hand) (upd_stat ?f w)" by (rule inv_stat [OF assms(1)]) simp_all
  then obtain w' where "reply_error c (error_code err) (upd_stat ?f w) = Some w'" "srv_inv cur t hand (spy_free_io_job j w')"
    "conn_frame c (upd_stat ?f w) w'"
    by (rule reply_free [OF _ _ assms(3)]) (simp_all add: assms(2))
  then show ?thesis using conn_frame_time [of c "upd_stat ?f w" w']
    by (intro that [of "spy_free_io_job j w'"]) (simp_all add: write_done_error_def Let_def, simp add: upd_stat_def)
qed

lemma read_done_ok:
  assumes "srv_inv cur (IoWork j # t) hand w" "job_work (io_jobs (srv w) j) = WRead"
  obtains w' where "spy_read_file_done j w = Some w'" "srv_inv cur t hand w'" "same_time w w'"
proof -
  let ?job = "io_jobs (srv w) j"
  let ?c = "job_conn ?job"
  let ?f = "\<lambda>st :: spy_statistic. st\<lparr>reading_count := reading_count st - 1\<rparr>"
  let ?w1 = "upd_stat ?f w"
  obtain cn where cn: "conns (srv w) ?c = Some cn" "conn_state cn = PROCESS_REQUEST" "?c \<notin> cur" "srv_inv (insert ?c cur) t (j # hand) ?w1"
    by (rule detach_io [OF assms(1), of ?f]) (simp_all add: stat_add_def assms(2))
  show ?thesis
  proof (cases "retcode ?job = 0")
    case False
    let ?g = "\<lambda>st :: spy_statistic. st\<lparr>read_error := read_error st + 1\<rparr>"
    obtain w2 where w2: "reply_error ?c (error_code READ_ERROR) ?w1 = Some w2" "srv_inv cur t (j # hand) w2" "conn_frame ?c ?w1 w2"
      by (rule reply_free [OF cn(4) _ cn(3)]) (simp_all add: cn(1))
    have "srv_inv cur t hand (spy_free_io_job j (upd_stat ?g w2))" by (intro free_job inv_stat [OF w2(2)]) simp_all
    then show ?thesis using w2(1) conn_frame_time [OF w2(3)] False
      by (intro that [of "spy_free_io_job j (upd_stat ?g w2)"]) (simp_all add: spy_read_file_done_def Let_def upd_stat_def)
  next
    case True
    let ?cn1 = "cn\<lparr>conn_error := error_code SUCCESS, body_len := f_size (job_file ?job)\<rparr>"
    let ?cn2 = "?cn1\<lparr>rsp_header := rsp_bytes ?cn1\<rparr>"
    let ?w2 = "put_conn ?c ?cn1 ?w1"
    let ?w3 = "put_conn ?c ?cn2 ?w2"
    let ?w4 = "put_conn ?c (?cn2\<lparr>conn_state := SEND_RSP\<rparr>) ?w3"
    let ?g = "\<lambda>st :: spy_statistic. st\<lparr>read_bytes := read_bytes st + ucast (f_size (job_file ?job))\<rparr>"
    have i2: "srv_inv (insert ?c cur) t (j # hand) ?w2" by (rule inv_put_fields [OF cn(4), of _ cn]) (simp_all add: cn(1))
    have i3: "srv_inv (insert ?c cur) t (j # hand) ?w3" by (rule inv_put_fields [OF i2 get_conn_put(2)]) simp_all
    have i4: "srv_inv (insert ?c cur) t (j # hand) ?w4" by (rule inv_put_fields [OF i3 get_conn_put(2)]) simp_all
    have h: "spy_reply_header ?c ?w2 = Some ?w3"
      using reply_header_eq [OF get_conn_put(2), of ?c ?cn1 ?w1] cn(2) by (simp add: spy_send_response_if_needed_def)
    obtain w5 where w5: "spy_send_response_if_needed ?c ?w4 = Some w5" "srv_inv (insert ?c cur - {?c}) t (j # hand) w5" "conn_frame ?c ?w4 w5"
      by (rule inv_send [OF i4 get_conn_put(2) insertI1]) simp_all
    have "srv_inv cur t hand (spy_free_io_job j (upd_stat ?g w5))"
      using w5(2) cn(3) by (intro free_job inv_stat [of cur t "j # hand" w5]) simp_all
    moreover have "spy_read_file_done j w = Some (spy_free_io_job j (upd_stat ?g w5))"
      using True w5(1) h cn(1) by (simp add: spy_read_file_done_def Let_def get_conn_def spy_reply_body_def)
    moreover have "same_time w w5" using conn_frame_time [OF w5(3)] by (simp add: upd_stat_def put_conn_def)
    ultimately show ?thesis by (intro that [of "spy_free_io_job j (upd_stat ?g w5)"]) simp_all
  qed
qed

lemma index_insert_ok:
  assumes "index_ok t" "index_lookup t (e_fid e) = None"
  shows "index_ok (t(file_bucket (e_fid e) := e # t (file_bucket (e_fid e))))"
  using fi.add_fresh [OF assms] by (auto simp: index_add_def Let_def split: if_splits)

lemma chunks_ok_index_upd [simp]: "chunks_ok (st\<lparr>file_index := t\<rparr>) = chunks_ok st"
  by (simp add: chunks_ok_def)

lemma write_success_ok:
  assumes "srv_inv (insert c cur) t (j # hand) w" "conns (srv w) c = Some cn" "c \<notin> cur"
    and "index_lookup (file_index (store (srv w))) (e_fid e) = None"
  obtains w' where "reply_error c err (upd_store (\<lambda>st. st\<lparr>file_index := (file_index st)(file_bucket (e_fid e) := e # file_index st (file_bucket (e_fid e)))\<rparr>) w) = Some w'"
    "srv_inv cur t hand (spy_free_io_job j w')" "same_time w w'"
proof -
  let ?g = "\<lambda>st. st\<lparr>file_index := (file_index st)(file_bucket (e_fid e) := e # file_index st (file_bucket (e_fid e)))\<rparr>"
  note p = inv_store_parts [OF assms(1)]
  have "srv_inv (insert c cur) t (j # hand) (upd_store ?g w)"
    using p index_insert_ok [OF p(2) assms(4)] by (intro inv_store [OF assms(1)]) simp_all
  then obtain w' where w': "reply_error c err (upd_store ?g w) = Some w'" "srv_inv cur t hand (spy_free_io_job j w')" "conn_frame c (upd_store ?g w) w'"
    by (rule reply_free [OF _ _ assms(3)]) (simp_all add: assms(2))
  then show ?thesis using conn_frame_time [OF w'(3)] by (intro that [of w']) (simp_all, simp add: upd_store_def)
qed

lemma write_done_ok:
  assumes "srv_inv cur (IoWork j # t) hand w" "job_work (io_jobs (srv w) j) = WWrite"
  obtains w' where "spy_write_file_done j w = Some w'" "srv_inv cur t hand w'" "same_time w w'"
proof -
  let ?job = "io_jobs (srv w) j"
  let ?c = "job_conn ?job" and ?fid = "f_fid (job_file ?job)"
  let ?f = "\<lambda>st :: spy_statistic. st\<lparr>writing_count := writing_count st - 1\<rparr>"
  obtain cn a where cn: "conns (srv w) ?c = Some cn" "?c \<notin> cur" "srv_inv (insert ?c cur) t (j # hand) (upd_stat ?f w)"
    "job_chunk ?job = Some a" "a \<in> set (writing_chunks (store (srv w)))" "Some a \<notin> set (writers t (srv w))"
    "\<exists>off. job_arg ?job = JobOffset off"
    by (rule detach_io [OF assms(1), of ?f]) (auto simp: stat_add_def assms(2))
  obtain off where off: "job_arg ?job = JobOffset off" using cn(7) by blast
  let ?w1 = "put_conn ?c (cn\<lparr>body_len := 0\<rparr>) (upd_stat ?f w)"
  have i1: "srv_inv (insert ?c cur) t (j # hand) ?w1" by (rule inv_put_fields [OF cn(3), of _ cn]) (simp_all add: cn(1))
  have s1: "store (srv ?w1) = store (srv w)" "writers t (srv ?w1) = writers t (srv w)" "same_time w ?w1"
    using work_frame [of "srv ?w1" "srv w"] qworks_frame [of "srv ?w1" "srv w" t] by (simp_all add: put_conn_def upd_stat_def writers_def)
  note step = spy_write_file_done_def Let_def get_conn_def cn(1,4) spy_lookup_file_index_def upd_stat_put s1(1)
  show ?thesis
  proof (cases "index_lookup (file_index (store (srv w))) ?fid")
    case (Some x)
    obtain w' where "write_done_error j ?c INTERNAL_ERROR ?w1 = Some w'" "srv_inv cur t hand w'" "same_time ?w1 w'"
      by (rule write_error_ok [OF i1 get_conn_put(2) cn(2)])
    then show ?thesis using Some same_time_trans [OF s1(3)] by (intro that [of w']) (simp_all add: step)
  next
    case None
    let ?w2 = "next_pending_write a ?w1"
    have i2: "srv_inv (insert ?c cur) t (j # hand) ?w2" using cn(5,6) s1 by (intro next_pending_ok [OF i1]) simp_all
    have c2: "conns (srv ?w2) ?c = Some (cn\<lparr>body_len := 0\<rparr>)" "same_time w ?w2"
      using next_pending_frame(4) [of ?w1 a] same_time_trans [OF s1(3)] by (simp_all add: next_pending_frame)
    show ?thesis
    proof (cases "retcode ?job = 0")
      case False
      obtain w' where "write_done_error j ?c WRITE_ERROR ?w2 = Some w'" "srv_inv cur t hand w'" "same_time ?w2 w'"
        by (rule write_error_ok [OF i2 c2(1) cn(2)])
      then show ?thesis using None False same_time_trans [OF c2(2)] by (intro that [of w']) (simp_all add: step)
    next
      case True
      let ?g = "\<lambda>st :: spy_statistic. st\<lparr>write_bytes := write_bytes st + ucast (f_size (job_file ?job))\<rparr>"
      let ?w3 = "upd_stat ?g ?w2"
      let ?e = "\<lparr>e_chunk_id = c_chunk_id (chunk_tab (store (srv ?w3)) a), e_fid = ?fid, e_offset = off,
           e_size = f_size (job_file ?job) + of_nat FILE_META_SIZE\<rparr>"
      have i3: "srv_inv (insert ?c cur) t (j # hand) ?w3" by (rule inv_stat [OF i2]) simp_all
      have s3: "file_index (store (srv ?w3)) = file_index (store (srv w))" "same_time w ?w3"
        using c2(2) by (simp_all add: upd_stat_def next_pending_frame) (simp add: put_conn_def)
      obtain w' where "reply_error ?c (error_code SUCCESS) (upd_store (\<lambda>st. st\<lparr>file_index := (file_index st)(file_bucket (e_fid ?e) :=
          ?e # file_index st (file_bucket (e_fid ?e)))\<rparr>) ?w3) = Some w'"
        "srv_inv cur t hand (spy_free_io_job j w')" "same_time ?w3 w'"
        by (rule write_success_ok [OF i3, of "cn\<lparr>body_len := 0\<rparr>" ?e]) (simp_all add: c2(1) cn(2) s3(1) None)
      then show ?thesis using None True off same_time_trans [OF s3(2)]
        by (intro that [of "spy_free_io_job j w'"]) (simp_all add: step)
    qed
  qed
qed

text \<open>System calls that set the blocking mode change the operating system only.\<close>

lemma set_blocking_frame:
  assumes "spy_set_blocking fd b w = (r, w')"
  obtains os nb where "w' = w\<lparr>srv := (srv w)\<lparr>osys := os, nonblock := nb\<rparr>\<rparr>"
proof (cases "r = 0")
  case True
  then show ?thesis using assms
    by (auto simp: spy_set_blocking_def split: prod.splits option.splits sysresp.splits intro!: that)
next
  case False
  then have "\<exists>os. w' = w\<lparr>srv := (srv w)\<lparr>osys := os\<rparr>\<rparr>" using assms
    by (auto simp: spy_set_blocking_def split: prod.splits option.splits sysresp.splits)
  then obtain os where "w' = w\<lparr>srv := (srv w)\<lparr>osys := os\<rparr>\<rparr>" by blast
  then show ?thesis by (intro that [of "nonblock (srv w)" os]) simp
qed

lemma inv_blocking:
  assumes "srv_inv cur t hand w" "spy_set_blocking fd b w = (r, w')"
  shows "srv_inv cur t hand w'" "conns (srv w') = conns (srv w)" "same_time w w'" "aeGetFileEvents fd' w' = aeGetFileEvents fd' w"
    "store (srv w') = store (srv w)" "dump_jobs (srv w') = dump_jobs (srv w)" "next_dump (srv w') = next_dump (srv w)"
    "works t (srv w') = works t (srv w)"
proof -
  obtain os nb where "w' = w\<lparr>srv := (srv w)\<lparr>osys := os, nonblock := nb\<rparr>\<rparr>" by (rule set_blocking_frame [OF assms(2)])
  then show "srv_inv cur t hand w'" "conns (srv w') = conns (srv w)" "same_time w w'" "aeGetFileEvents fd' w' = aeGetFileEvents fd' w"
    "store (srv w') = store (srv w)" "dump_jobs (srv w') = dump_jobs (srv w)" "next_dump (srv w') = next_dump (srv w)"
    "works t (srv w') = works t (srv w)"
    using assms(1) by (simp_all add: srv_inv_cong works_def qworks_def)
qed

lemma dump_done_ok:
  assumes "srv_inv cur (DumpWork d # t) hand w" "spy_dump_chunkfile_done d w = Some w'"
  shows "srv_inv cur t hand w' \<and> same_time w w'"
proof -
  obtain dj cn where cn: "dump_jobs (srv w) d = Some dj" "conns (srv w) (dj_conn dj) = Some cn" "dj_conn dj \<notin> cur"
    "srv_inv (insert (dj_conn dj) cur) t hand (w\<lparr>srv := (srv w)\<lparr>dump_jobs := (dump_jobs (srv w))(d := None)\<rparr>\<rparr>)"
    by (rule detach_dump [OF assms(1)])
  let ?c = "dj_conn dj" and ?w1 = "w\<lparr>srv := (srv w)\<lparr>dump_jobs := (dump_jobs (srv w))(d := None)\<rparr>\<rparr>"
  have del: "insert ?c cur - {?c} = cur" using cn(3) by simp
  have free: "srv_inv cur t hand w'' \<and> same_time w2 w''"
    if "srv_inv (insert ?c cur) t hand w2" "spy_free_client_connection ?c w2 = Some w''" for w2 w''
    by (rule inv_free [OF that(1) insertI1]) (use that(2) del conn_frame_time in auto)
  show ?thesis
  proof (cases "dj_retcode dj = 0")
    case False
    then have "spy_free_client_connection ?c ?w1 = Some w'" using assms(2) cn(1) by (simp add: spy_dump_chunkfile_done_def Let_def)
    with free [OF cn(4)] show ?thesis by simp
  next
    case True
    obtain r w2 where b: "spy_set_blocking (conn_fd cn) False ?w1 = (r, w2)" by fastforce
    note i2 = inv_blocking [OF cn(4) b]
    have t2: "same_time w w2" using i2(3) by simp
    have e: "(if r \<noteq> 0 then spy_free_client_connection ?c w2 else spy_reset_client_connection ?c w2) = Some w'"
      using assms(2) cn(1,2) True b by (simp add: spy_dump_chunkfile_done_def Let_def get_conn_def)
    show ?thesis
    proof (cases "r = 0")
      case True
      have c2: "conns (srv w2) ?c = Some cn" using cn(2) i2(2) by simp
      have "spy_reset_client_connection ?c w2 = Some w'" using e True by simp
      from reset_conn_ok [OF i2(1) c2 insertI1 this] show ?thesis using del same_time_trans [OF t2 conn_frame_time] by simp
    next
      case False
      then show ?thesis using free [OF i2(1)] e same_time_trans [OF t2] by simp
    qed
  qed
qed

text \<open>The completion of one work, and of all finished works.\<close>

lemma inv_head_ok: "srv_inv cur (wk # t) hand w \<Longrightarrow> work_ok (srv w) wk"
  by (simp add: srv_inv_def jobs_ok_def Cons_simps)

lemma io_done_ok:
  assumes "srv_inv cur (IoWork j # t) hand w"
  obtains w' where "work_done (IoWork j) w = Some w'" "srv_inv cur t hand w'" "same_time w w'"
proof -
  have "job_work (io_jobs (srv w) j) \<in> {WWrite, WRead, WCheck}" using inv_head_ok [OF assms] by (simp add: work_ok_def)
  then consider "job_work (io_jobs (srv w) j) = WWrite" | "job_work (io_jobs (srv w) j) = WRead" | "job_work (io_jobs (srv w) j) = WCheck" by auto
  then show ?thesis
  proof cases
    case 1
    then show ?thesis using that by (simp add: work_done_def) (rule write_done_ok [OF assms 1])
  next
    case 2
    then show ?thesis using that by (simp add: work_done_def) (rule read_done_ok [OF assms 2])
  next
    case 3
    then show ?thesis using that by (simp add: work_done_def) (rule check_done_ok [OF assms 3])
  qed
qed

lemma work_done_inv:
  assumes "srv_inv cur (wk # t) hand w" "work_done wk w = Some w'"
  shows "srv_inv cur t hand w' \<and> same_time w w'"
proof (cases wk)
  case (IoWork j)
  show ?thesis by (rule io_done_ok [OF assms(1) [unfolded IoWork]]) (use assms(2) IoWork in auto)
next
  case (DumpWork d)
  then show ?thesis using dump_done_ok [of cur d t hand w w'] assms by (simp add: work_done_def)
qed

lemma done_loop_ok:
  "srv_inv cur t hand w \<Longrightarrow> done_loop t w = Some w' \<Longrightarrow> srv_inv cur [] hand w' \<and> same_time w w'"
proof (induction t arbitrary: w)
  case (Cons wk t)
  then obtain w1 where w1: "work_done wk w = Some w1" "done_loop t w1 = Some w'" by (auto split: bind_splits)
  from work_done_inv [OF Cons.prems(1) w1(1)] Cons.IH [OF _ w1(2)] show ?case by (auto intro: same_time_trans)
qed simp

lemma wq_done_ok:
  assumes "srv_inv cur [] hand w" "spy_wq_thread_done w = Some w'"
  shows "srv_inv cur [] hand w' \<and> same_time w w'"
  using done_loop_ok [OF inv_splice [OF assms(1)]] assms(2) by (simp add: spy_wq_thread_done_def)

text \<open>Without dump jobs among them, the callbacks return.\<close>

lemma done_loop_returns:
  "srv_inv cur t hand w \<Longrightarrow> \<forall>wk\<in>set t. \<exists>j. wk = IoWork j \<Longrightarrow> \<exists>w'. done_loop t w = Some w'"
proof (induction t arbitrary: w)
  case (Cons wk t)
  then obtain j where j: "wk = IoWork j" by auto
  obtain w1 where "work_done (IoWork j) w = Some w1" "srv_inv cur t hand w1" by (rule io_done_ok [OF Cons.prems(1) [unfolded j]])
  with Cons j show ?case by auto
qed simp

section \<open>Pending writes and the timer\<close>

lemma drop_pending_ok:
  assumes "srv_inv cur t hand w" "pending_writes (srv w) = j # js"
  obtains w' where "reply_error (job_conn (io_jobs (srv w) j)) e
      (w\<lparr>srv := (srv w)\<lparr>pending_writes := js, pending_writes_size := pending_writes_size (srv w) - 1\<rparr>\<rparr>) = Some w'"
    "srv_inv cur t hand (spy_free_io_job j w')" "same_time w w'" "\<forall>c\<in>cur. conns (srv w') c = conns (srv w) c"
    "pending_writes (srv w') = js" "io_jobs (srv w') = io_jobs (srv w)" "osys (srv w') = osys (srv w)"
proof -
  let ?c = "job_conn (io_jobs (srv w) j)"
  let ?w1 = "w\<lparr>srv := (srv w)\<lparr>pending_writes := js, pending_writes_size := pending_writes_size (srv w) - 1\<rparr>\<rparr>"
  have r: "remove1 j (pending_writes (srv w)) = js" using assms(2) by simp
  obtain cn where cn: "conns (srv w) ?c = Some cn" "?c \<notin> cur" "srv_inv (insert ?c cur) t (j # hand) ?w1"
    by (rule detach_pending [OF assms(1), of j, unfolded r]) (simp_all add: assms(2))
  obtain w' where w': "reply_error ?c e ?w1 = Some w'" "srv_inv cur t hand (spy_free_io_job j w')" "conn_frame ?c ?w1 w'"
    by (rule reply_free [OF cn(3) _ cn(2)]) (simp_all add: cn(1))
  then have f: "conn_fields (srv ?w1) (srv w')" and "\<forall>c. c \<noteq> ?c \<longrightarrow> conns (srv w') c = conns (srv w) c" by (simp_all add: conn_frame_def)
  then have o: "\<forall>c\<in>cur. conns (srv w') c = conns (srv w) c" using cn(2) by metis
  show ?thesis using w'(1,2) o conn_frame_time [OF w'(3)] conn_fieldsD [OF f] by (intro that [of w']) simp_all
qed

lemma kill_loop_ok:
  "srv_inv cur t hand w \<Longrightarrow> pending_writes (srv w) = js \<Longrightarrow>
   \<exists>w'. kill_loop js w = Some w' \<and> srv_inv cur t hand w' \<and> same_time w w' \<and> (\<forall>c\<in>cur. conns (srv w') c = conns (srv w) c) \<and> pending_writes (srv w') = []"
proof (induction js arbitrary: w)
  case (Cons j js)
  obtain w1 where w1: "reply_error (job_conn (io_jobs (srv w) j)) (error_code KILLED)
      (w\<lparr>srv := (srv w)\<lparr>pending_writes := js, pending_writes_size := pending_writes_size (srv w) - 1\<rparr>\<rparr>) = Some w1"
    "srv_inv cur t hand (spy_free_io_job j w1)" "same_time w w1" "\<forall>c\<in>cur. conns (srv w1) c = conns (srv w) c" "pending_writes (srv w1) = js"
    by (rule drop_pending_ok [OF Cons.prems])
  have "pending_writes (srv (spy_free_io_job j w1)) = js" using w1(5) by (simp add: spy_free_io_job_def)
  from Cons.IH [OF w1(2) this] obtain w' where w': "kill_loop js (spy_free_io_job j w1) = Some w'" "srv_inv cur t hand w'"
    "same_time (spy_free_io_job j w1) w'" "\<forall>c\<in>cur. conns (srv w') c = conns (srv (spy_free_io_job j w1)) c" "pending_writes (srv w') = []" by blast
  have "same_time w w'" using w1(3) w'(3) by (simp add: same_time_def spy_free_io_job_def)
  with w1 w' show ?case by (intro exI [of _ w']) (simp add: Let_def)
qed simp

lemma timeout_loop_ok:
  "srv_inv cur t hand w \<Longrightarrow> pending_writes (srv w) = js \<Longrightarrow>
   \<exists>w'. timeout_loop n js w = Some w' \<and> srv_inv cur t hand w' \<and> same_time w w'"
proof (induction js arbitrary: w)
  case (Cons j js)
  show ?case
  proof (cases "req_time (io_jobs (srv w) j) + DEF_PENDING_WRITE_TIMEOUT > n")
    case False
    obtain w1 where w1: "reply_error (job_conn (io_jobs (srv w) j)) (error_code CHUNK_UNAVAILABLE)
        (w\<lparr>srv := (srv w)\<lparr>pending_writes := js, pending_writes_size := pending_writes_size (srv w) - 1\<rparr>\<rparr>) = Some w1"
      "srv_inv cur t hand (spy_free_io_job j w1)" "same_time w w1" "pending_writes (srv w1) = js"
      by (rule drop_pending_ok [OF Cons.prems])
    have "pending_writes (srv (spy_free_io_job j w1)) = js" using w1(4) by (simp add: spy_free_io_job_def)
    from Cons.IH [OF w1(2) this] obtain w' where w': "timeout_loop n js (spy_free_io_job j w1) = Some w'" "srv_inv cur t hand w'"
      "same_time (spy_free_io_job j w1) w'" by blast
    have "same_time w w'" using w1(3) w'(3) by (simp add: same_time_def spy_free_io_job_def)
    with w1 w' False show ?thesis by (intro exI [of _ w']) (simp add: Let_def)
  qed (use Cons.prems in simp)
qed simp

lemma cron_ok:
  assumes "srv_inv cur t hand w"
  obtains w' where "spy_server_cron w = Some (1000, w')" "srv_inv cur t hand w'" "same_time w w'"
proof -
  let ?w1 = "spy_report_server_infos w"
  have i1: "srv_inv cur t hand ?w1" "same_time w ?w1"
    using assms by (auto simp: spy_report_server_infos_def Let_def srv_inv_cong split: prod.splits bool.splits)
  have len: "pending_writes_size (srv ?w1) = of_nat (length (pending_writes (srv ?w1)))" "length (pending_writes (srv ?w1)) \<le> 20"
    using i1(1) by (simp_all add: srv_inv_def jobs_ok_def)
  have "\<exists>w'. spy_remove_timeout_pending_writes ?w1 = Some w' \<and> srv_inv cur t hand w' \<and> same_time ?w1 w'"
  proof (cases "pending_writes_size (srv ?w1) = 0")
    case False
    then have "pending_writes (srv ?w1) \<noteq> []" using len(1) by auto
    then show ?thesis using timeout_loop_ok [OF i1(1) refl, of "uint (clock (osys (srv ?w1)))"] False
      by (simp add: spy_remove_timeout_pending_writes_def)
  qed (use i1 in \<open>simp add: spy_remove_timeout_pending_writes_def\<close>)
  then obtain w' where "spy_remove_timeout_pending_writes ?w1 = Some w'" "srv_inv cur t hand w'" "same_time ?w1 w'" by blast
  then show ?thesis using same_time_trans [OF i1(2)] by (intro that [of w']) (simp_all add: spy_server_cron_def)
qed

section \<open>The round of the timers\<close>

lemma srv_inv_time [simp]: "srv_inv cur t hand (w\<lparr>timeEvents := tes, now := x, later := xs, lastTime := l\<rparr>) = srv_inv cur t hand w"
  by (simp add: srv_inv_def loop_ok_def conns_ok_def fds_ok_def conn_ok_def aeGetFileEvents_def)

definition cron_timer :: "(spy_proc, nat) aeTimeEvent \<Rightarrow> bool" where
  "cron_timer te \<longleftrightarrow> timeProc te = ServerCron \<and> finalizerProc te = None"

interpretation cron: timers spy_code "srv_inv {} [] []" cron_timer
proof (unfold_locales, goal_cases)
  case (3 el te)
  obtain w' where w': "spy_server_cron el = Some (1000, w')" "srv_inv {} [] [] w'" "same_time el w'" by (rule cron_ok [OF 3(1)])
  then show ?case using 3(2)
    by (intro exI [of _ 1000] exI [of _ w'] exI [of _ "[]"]) (simp add: spy_code_def cron_timer_def new_events_def same_time_def)
qed (simp_all add: cron_timer_def)

end
