(* ===== verification/Spy_Request.thy ===== *)
theory Spy_Request
  imports Spy_Done
begin

text \<open>
  The handlers of file events: whatever arrives on a connection, a handler that returns leaves the server in a state
  of the invariant.
\<close>

section \<open>Buffers of a connection\<close>

lemma mem_move_frame: "mem_move m bs m' bs' \<Longrightarrow> mem_move m (bs @ xs) m' (bs' @ xs)"
  unfolding mem_move_def by (metis append.assoc Un_iff set_append)

lemma mem_move_perm:
  assumes "mem_move m bs m' bs'" "mset cs = mset bs" "mset cs' = mset bs'"
  shows "mem_move m cs m' cs'"
  unfolding mem_move_def
proof (intro allI impI)
  fix rest assume "pool_ok m (cs @ rest)"
  then have "pool_ok m (bs @ rest)" by (rule pool_ok_perm) (simp add: assms(2))
  then have "pool_ok m' (bs' @ rest)" "\<forall>i\<in>set rest. bsize m' i = bsize m i" using assms(1) by (auto simp: mem_move_def)
  then show "pool_ok m' (cs' @ rest) \<and> (\<forall>i\<in>set rest. bsize m' i = bsize m i)" using pool_ok_perm [of m' "bs' @ rest" "cs' @ rest"] assms(3) by simp
qed

lemma inv_pool:
  assumes "srv_inv cur t hand w" "conns (srv w) c = Some cn"
  obtains rest where "pool_ok (mem (srv w)) (conn_blocks cn @ rest)"
proof -
  have i: "conns_ok cur t w" "bufs_ok (srv w)" using assms(1) by (auto simp: srv_inv_def)
  have c: "c < next_conn (srv w)" using conns_ok_parts(1) [OF i(1) assms(2)] by (simp add: conn_ok_def)
  obtain rest where rest: "\<forall>x. mset (owned ((srv w)\<lparr>conns := (conns (srv w))(c := x)\<rparr>)) = mset (slot_blocks x @ rest)"
    by (rule owned_split [OF c])
  have "(srv w)\<lparr>conns := (conns (srv w))(c := Some cn)\<rparr> = srv w" using assms(2) by (simp add: fun_upd_idem)
  with rest have "mset (conn_blocks cn @ rest) = mset (owned (srv w))" by (metis slot_blocks_def option.simps(5))
  moreover have "pool_ok (mem (srv w)) (owned (srv w))" using i(2) by (simp add: bufs_ok_def)
  ultimately show ?thesis using pool_ok_perm that by blast
qed

text \<open>A buffer changes and takes memory from the pool.\<close>

definition buf_step :: "mem_state \<Rightarrow> rw_buffer \<Rightarrow> mem_state \<Rightarrow> rw_buffer \<Rightarrow> bool" where
  "buf_step m b m' b' \<longleftrightarrow> rwb_ok m' b' \<and> mem_move m (mem_blocks b) m' (mem_blocks b')"

lemma buf_step_trans: "buf_step m b m' b' \<Longrightarrow> buf_step m' b' m'' b'' \<Longrightarrow> buf_step m b m'' b''"
  by (auto simp: buf_step_def intro: mem_move_trans)

lemma buf_step_cursor: "rwb_ok m b' \<Longrightarrow> mem_blocks b' = mem_blocks b \<Longrightarrow> buf_step m b m b'"
  by (simp add: buf_step_def mem_move_refl)

lemma buf_step_touched: "touched b m m' \<Longrightarrow> rwb_ok m' b' \<Longrightarrow> mem_blocks b' = mem_blocks b \<Longrightarrow> buf_step m b m' b'"
  by (auto simp: buf_step_def mem_move_def touched_def pool_ok_same same_blocks_size)

lemma expand_step:
  assumes "rwb_ok m b" "pool_ok m (mem_blocks b @ rest)" "spy_rw_buffer_expand b m = Some (r, b', m')"
  shows "buf_step m b m' b'" "r < 0 \<or> cap b' > write_pos b'" "write_pos b' = write_pos b"
proof -
  have step: "rwb_ok m' b' \<and> pool_ok m' (mem_blocks b' @ xs) \<and> (\<forall>i\<in>set xs. bsize m' i = bsize m i) \<and> written m' b' = written m b \<and>
    (r < 0 \<or> cap b' > write_pos b')"
    if "pool_ok m (mem_blocks b @ xs)" for xs
  proof (rule expand_ok [OF assms(1) that])
    fix r1 b1 m1
    assume e: "spy_rw_buffer_expand b m = Some (r1, b1, m1)" "rwb_ok m1 b1" "pool_ok m1 (mem_blocks b1 @ xs)" "written m1 b1 = written m b"
      "\<forall>i<next_block m. blocks m1 i = blocks m i"
      "r1 = 0 \<and> room b1 = room b + (MEM_BLOCK_SIZE - MEM_BLOCK_HDR) \<or>
       r1 = - 1 \<and> b1 = b \<and> m1 = m \<and> free_mem_blocks m = [] \<and> (mem_blocks_alloc_limit m \<le> mem_blocks_alloc m \<or> calloc_left m = 0)"
    then have eq: "r1 = r" "b1 = b'" "m1 = m'" using assms(3) by auto
    have "\<forall>i\<in>set xs. i < next_block m" using that by (simp add: pool_ok_def)
    moreover have "r < 0 \<or> cap b' > write_pos b'" using e(6) block_size_pos unfolding eq by (auto simp: room_def)
    ultimately show ?thesis using e(2-5) unfolding eq by auto
  qed
  from step [OF assms(2)] step show "buf_step m b m' b'" "r < 0 \<or> cap b' > write_pos b'" by (auto simp: buf_step_def mem_move_def)
  show "write_pos b' = write_pos b" using step [OF assms(2)] length_written [of m' b'] length_written [OF assms(1)] by simp
qed

lemma buf_step_pool: "buf_step m b m' b' \<Longrightarrow> pool_ok m (mem_blocks b @ rest) \<Longrightarrow> pool_ok m' (mem_blocks b' @ rest)"
  by (simp add: buf_step_def mem_move_def)

lemma expand_to_step:
  "rwb_ok m b \<Longrightarrow> pool_ok m (mem_blocks b @ rest) \<Longrightarrow> expand_to n b m = Some (ok, b', m') \<Longrightarrow> buf_step m b m' b'"
proof (induction n b m rule: expand_to.induct)
  case (1 n b m)
  show ?case
  proof (cases "cap b < n")
    case True
    then obtain r b1 m1 where e: "spy_rw_buffer_expand b m = Some (r, b1, m1)"
      using 1(4) by (auto simp: expand_to.simps [of n b m] split: option.splits)
    have s: "buf_step m b m1 b1" by (rule expand_step [OF 1(2,3) e])
    show ?thesis
    proof (cases "r < 0")
      case True
      then show ?thesis using s e 1(4) \<open>cap b < n\<close> by (simp add: expand_to.simps [of n b m])
    next
      case False
      then have c: "\<not> cap b1 \<le> cap b" "expand_to n b1 m1 = Some (ok, b', m')"
        using e 1(4) \<open>cap b < n\<close> by (simp_all add: expand_to.simps [of n b m] split: if_splits)
      have "rwb_ok m1 b1" using s by (simp add: buf_step_def)
      then have "buf_step m1 b1 m' b'"
        using 1(1) [OF \<open>cap b < n\<close> e refl refl False c(1)] buf_step_pool [OF s 1(3)] c(2) by simp
      then show ?thesis by (rule buf_step_trans [OF s])
    qed
  next
    case False
    then show ?thesis using 1(2,4) by (simp add: expand_to.simps [of n b m] buf_step_cursor)
  qed
qed

text \<open>The buffer of the connection in hand takes such a step.\<close>

lemma other_rwb:
  assumes "mem_move m bs m' bs'" "pool_ok m (bs @ rest)" "set (mem_blocks b) \<subseteq> set rest" "rwb_ok m b"
  shows "rwb_ok m' b"
  using assms rwb_ok_bsize [of b m' m] by (auto simp: mem_move_def)

lemma inv_put_request:
  assumes "srv_inv cur t hand w" "conns (srv w) c = Some cn" "c \<in> cur \<or> conn_state cn' = conn_state cn" "conn_fd cn' = conn_fd cn"
    and "buf_step (mem (srv w)) (request cn) m' (request cn')" "rsp_body cn' = rsp_body cn"
  shows "srv_inv cur t hand (put_conn c cn' (set_mem m' w))"
proof -
  obtain rest where p: "pool_ok (mem (srv w)) (conn_blocks cn @ rest)" by (rule inv_pool [OF assms(1,2)])
  have m: "mem_move (mem (srv w)) (mem_blocks (request cn)) m' (mem_blocks (request cn'))" using assms(5) by (simp add: buf_step_def)
  have "rwb_ok m' (rsp_body cn)"
    using other_rwb [OF m, of "mem_blocks (rsp_body cn) @ rest"] p inv_rwb [OF assms(1,2)] by (simp add: conn_blocks_def)
  then show ?thesis using assms mem_move_frame [OF m, of "mem_blocks (rsp_body cn)"]
    by (intro inv_put [OF assms(1-4)]) (simp_all add: conn_blocks_def buf_step_def)
qed

lemma inv_put_rsp:
  assumes "srv_inv cur t hand w" "conns (srv w) c = Some cn" "c \<in> cur \<or> conn_state cn' = conn_state cn" "conn_fd cn' = conn_fd cn"
    and "buf_step (mem (srv w)) (rsp_body cn) m' (rsp_body cn')" "request cn' = request cn"
  shows "srv_inv cur t hand (put_conn c cn' (set_mem m' w))"
proof -
  obtain rest where p: "pool_ok (mem (srv w)) (conn_blocks cn @ rest)" by (rule inv_pool [OF assms(1,2)])
  have m: "mem_move (mem (srv w)) (mem_blocks (rsp_body cn)) m' (mem_blocks (rsp_body cn'))" using assms(5) by (simp add: buf_step_def)
  have "pool_ok (mem (srv w)) (mem_blocks (rsp_body cn) @ mem_blocks (request cn) @ rest)"
    by (rule pool_ok_perm [OF p]) (simp add: conn_blocks_def)
  then have "rwb_ok m' (request cn)" using other_rwb [OF m, of "mem_blocks (request cn) @ rest"] inv_rwb [OF assms(1,2)] by simp
  moreover have "mem_move (mem (srv w)) (conn_blocks cn) m' (conn_blocks cn')"
    by (rule mem_move_perm [OF mem_move_frame [OF m, of "mem_blocks (request cn)"]]) (simp_all add: conn_blocks_def assms(6))
  ultimately show ?thesis using assms by (intro inv_put [OF assms(1-4)]) (simp_all add: buf_step_def)
qed

section \<open>Handlers that may return\<close>

definition fin :: "world \<Rightarrow> nat set \<Rightarrow> work list \<Rightarrow> nat list \<Rightarrow> world option \<Rightarrow> bool" where
  "fin w cur t hand r \<longleftrightarrow> (\<forall>w'. r = Some w' \<longrightarrow> srv_inv cur t hand w' \<and> same_time w w')"

lemma fin_None [simp]: "fin w cur t hand None"
  by (simp add: fin_def)

lemma fin_Some: "srv_inv cur t hand w' \<Longrightarrow> same_time w w' \<Longrightarrow> fin w cur t hand (Some w')"
  by (simp add: fin_def)

lemma fin_bind: "(\<And>x. r = Some x \<Longrightarrow> fin w cur t hand (f x)) \<Longrightarrow> fin w cur t hand (Option.bind r f)"
  by (cases r) simp_all

lemma fin_if: "(b \<Longrightarrow> fin w cur t hand r) \<Longrightarrow> (\<not> b \<Longrightarrow> fin w cur t hand r') \<Longrightarrow> fin w cur t hand (if b then r else r')"
  by simp

lemma fin_start: "same_time w w1 \<Longrightarrow> fin w1 cur t hand r \<Longrightarrow> fin w cur t hand r"
  by (auto simp: fin_def intro: same_time_trans)

text \<open>The connection in hand, with its request in progress.\<close>

definition in_hand :: "nat \<Rightarrow> work list \<Rightarrow> nat list \<Rightarrow> world \<Rightarrow> bool" where
  "in_hand c t hand w \<longleftrightarrow> srv_inv {c} t hand w \<and>
     (\<exists>cn. conns (srv w) c = Some cn \<and> conn_state cn = PROCESS_REQUEST \<and> aeGetFileEvents (conn_fd cn) w \<in> {0, 1})"

lemma in_handE:
  assumes "in_hand c t hand w"
  obtains cn where "srv_inv {c} t hand w" "conns (srv w) c = Some cn" "get_conn c w = Some cn" "conn_state cn = PROCESS_REQUEST"
    "aeGetFileEvents (conn_fd cn) w \<in> {0, 1}"
  using assms by (auto simp: in_hand_def get_conn_def)

lemma mask_upd [simp]:
  "aeGetFileEvents fd (upd_stat f w) = aeGetFileEvents fd w" "aeGetFileEvents fd (put_conn c cn w) = aeGetFileEvents fd w"
  "aeGetFileEvents fd (set_mem m w) = aeGetFileEvents fd w" "aeGetFileEvents fd (set_job j job w) = aeGetFileEvents fd w"
  "aeGetFileEvents fd (upd_store g w) = aeGetFileEvents fd w" "aeGetFileEvents fd (set_os x w) = aeGetFileEvents fd w"
  by (simp_all add: upd_stat_def put_conn_def set_mem_def set_job_def upd_store_def set_os_def)

lemma fin_reply: "srv_inv {c} t hand w \<Longrightarrow> fin w {} t hand (reply_error c e w)"
proof -
  assume i: "srv_inv {c} t hand w"
  then obtain cn where cn: "conns (srv w) c = Some cn" by (rule inv_cur [of _ _ _ _ c]) simp_all
  show ?thesis by (rule reply_error_ok [OF i cn, where e = e]) (auto simp: fin_def conn_frame_time)
qed

lemma fin_free: "srv_inv {c} t hand w \<Longrightarrow> fin w {} t hand (spy_free_client_connection c w)"
  by (rule inv_free [of "{c}" t hand w c]) (auto simp: fin_def conn_frame_time)

lemma fin_send:
  assumes "srv_inv {c} t hand w" "conns (srv w) c = Some cn" "conn_state cn = SEND_RSP"
  shows "fin w {} t hand (spy_send_response_if_needed c w)"
  by (rule inv_send [OF assms(1,2) singletonI assms(3)]) (auto simp: fin_def conn_frame_time)

lemma in_hand_stat:
  assumes "in_hand c t hand w" "\<And>x. conn_count (f x) = conn_count x" "\<And>x. reading_count (f x) = reading_count x"
    "\<And>x. writing_count (f x) = writing_count x"
  shows "in_hand c t hand (upd_stat f w)"
  using assms(1) inv_stat [of "{c}" t hand w f] assms(2-4) by (auto simp: in_hand_def)

lemma in_hand_inv: "in_hand c t hand w \<Longrightarrow> srv_inv {c} t hand w"
  by (simp add: in_hand_def)

text \<open>Stopping to read.\<close>

lemma no_more_reads_ok:
  assumes "in_hand c t hand w" "conns (srv w) c = Some cn"
  shows "no_more_reads c w = Some (aeDeleteFileEvent (conn_fd cn) AE_READABLE w)"
    and "in_hand c t hand (aeDeleteFileEvent (conn_fd cn) AE_READABLE w)"
    and "aeGetFileEvents (conn_fd cn) (aeDeleteFileEvent (conn_fd cn) AE_READABLE w) = 0"
proof -
  show "no_more_reads c w = Some (aeDeleteFileEvent (conn_fd cn) AE_READABLE w)" using assms(2) by (simp add: no_more_reads_def get_conn_def)
  note d = inv_delete [OF in_hand_inv [OF assms(1)] assms(2) singletonI, of AE_READABLE]
  show m: "aeGetFileEvents (conn_fd cn) (aeDeleteFileEvent (conn_fd cn) AE_READABLE w) = 0"
    using assms d(2) [of "conn_fd cn"] by (auto simp: in_hand_def AE_READABLE_def)
  show "in_hand c t hand (aeDeleteFileEvent (conn_fd cn) AE_READABLE w)"
    using assms d(1) m by (auto simp: in_hand_def AE_READABLE_def)
qed

lemma ping_fin:
  assumes "in_hand c t hand w"
  shows "fin w {} t hand (spy_handle_ping c w)"
proof -
  obtain cn where cn: "conns (srv w) c = Some cn" by (rule in_handE [OF assms])
  note n = no_more_reads_ok [OF assms cn]
  show ?thesis unfolding spy_handle_ping_def n(1) Option.bind.simps
    by (rule fin_start [OF _ fin_reply [OF in_hand_inv [OF n(2)]]]) simp
qed

section \<open>Responses with a body\<close>

lemma in_hand_put:
  assumes "in_hand c t hand w" "srv_inv {c} t hand (put_conn c cn' (set_mem m w))" "conns (srv w) c = Some cn" "conn_fd cn' = conn_fd cn"
    "conn_state cn' = PROCESS_REQUEST"
  shows "in_hand c t hand (put_conn c cn' (set_mem m w))"
  using assms by (auto simp: in_hand_def)

lemma expand_rsp_ok:
  assumes "in_hand c t hand w" "expand_rsp_body n c w = Some (ok, w')"
  shows "in_hand c t hand w'" "same_time w w'"
proof -
  obtain cn where cn: "srv_inv {c} t hand w" "conns (srv w) c = Some cn" "get_conn c w = Some cn" "conn_state cn = PROCESS_REQUEST" by (rule in_handE [OF assms(1)])
  obtain rsp m where e: "expand_to n (rsp_body cn) (mem (srv w)) = Some (ok, rsp, m)" "w' = put_conn c (cn\<lparr>rsp_body := rsp\<rparr>) (set_mem m w)"
    using assms(2) cn(3) by (auto simp: expand_rsp_body_def split: bind_splits)
  obtain rest where "pool_ok (mem (srv w)) (conn_blocks cn @ rest)" by (rule inv_pool [OF cn(1,2)])
  then have p: "pool_ok (mem (srv w)) (mem_blocks (rsp_body cn) @ mem_blocks (request cn) @ rest)"
    by (rule pool_ok_perm) (simp add: conn_blocks_def)
  have "buf_step (mem (srv w)) (rsp_body cn) m rsp" by (rule expand_to_step [OF inv_rwb(2) [OF cn(1,2)] p e(1)])
  then have "srv_inv {c} t hand (put_conn c (cn\<lparr>rsp_body := rsp\<rparr>) (set_mem m w))" by (intro inv_put_rsp [OF cn(1,2)]) simp_all
  then show "in_hand c t hand w'" unfolding e(2) using cn by (intro in_hand_put [OF assms(1) _ cn(2)]) simp_all
  show "same_time w w'" by (simp add: e(2))
qed

lemma reply_with_fin:
  assumes "in_hand c t hand w"
  shows "fin w {} t hand (reply_with c body w)"
proof -
  obtain cn where cn: "srv_inv {c} t hand w" "conns (srv w) c = Some cn" "get_conn c w = Some cn" "conn_state cn = PROCESS_REQUEST"
    by (rule in_handE [OF assms])
  let ?cn1 = "cn\<lparr>conn_error := 0, body_len := of_nat (length body)\<rparr>"
  let ?cn2 = "?cn1\<lparr>rsp_header := rsp_bytes ?cn1\<rparr>"
  let ?w1 = "put_conn c ?cn1 w" and ?w2 = "put_conn c ?cn2 (put_conn c ?cn1 w)"
  have i1: "srv_inv {c} t hand ?w1" by (rule inv_put_fields [OF cn(1,2)]) simp_all
  have i2: "srv_inv {c} t hand ?w2" by (rule inv_put_fields [OF i1 get_conn_put(2)]) simp_all
  have h: "spy_reply_header c ?w1 = Some ?w2"
    using reply_header_eq [OF get_conn_put(2), of c ?cn1 w] cn(4) by (simp add: spy_send_response_if_needed_def)
  obtain k rsp m where e: "spy_rw_buffer_write_n (rsp_body cn) (mem (srv ?w2)) body = Some (k, rsp, m)"
    "rwb_ok m rsp" "read_side rsp = read_side (rsp_body cn)" "touched (rsp_body cn) (mem (srv ?w2)) m"
    using write_n_ok [OF inv_rwb(2) [OF i2 get_conn_put(2)], of body] by auto
  have s: "buf_step (mem (srv ?w2)) (rsp_body ?cn2) m rsp" using e by (intro buf_step_touched) (simp_all add: read_side_def)
  let ?cn3 = "?cn2\<lparr>rsp_body := rsp, conn_state := SEND_RSP\<rparr>"
  have i3: "srv_inv {c} t hand (put_conn c ?cn3 (set_mem m ?w2))" using s by (intro inv_put_rsp [OF i2 get_conn_put(2)]) simp_all
  have "fin (put_conn c ?cn3 (set_mem m ?w2)) {} t hand (spy_send_response_if_needed c (put_conn c ?cn3 (set_mem m ?w2)))"
    by (rule fin_send [OF i3 get_conn_put(2)]) simp
  then have "fin w {} t hand (spy_send_response_if_needed c (put_conn c ?cn3 (set_mem m ?w2)))" by (rule fin_start [rotated]) simp
  moreover have "reply_with c body w = (if k = length body then spy_send_response_if_needed c (put_conn c ?cn3 (set_mem m ?w2)) else None)"
    unfolding reply_with_def cn(3) Option.bind.simps h get_conn_put(1) using e(1) by (simp add: spy_reply_body_def)
  ultimately show ?thesis by simp
qed

lemma query_fin:
  assumes "in_hand c t hand w"
  shows "fin w {} t hand (spy_query_io_status c w)" "fin w {} t hand (spy_query_detail_infos c w)"
proof -
  have *: "fin w {} t hand (Option.bind (expand_rsp_body n c w) (\<lambda>(ok, w). if \<not> ok then reply_error c err w else reply_with c (f w) w))" for n err f
  proof (rule fin_bind)
    fix x assume "expand_rsp_body n c w = Some x"
    then obtain ok w1 where x: "x = (ok, w1)" "expand_rsp_body n c w = Some (ok, w1)" by (cases x) simp
    note e = expand_rsp_ok [OF assms x(2)]
    show "fin w {} t hand (case x of (ok, w) \<Rightarrow> if \<not> ok then reply_error c err w else reply_with c (f w) w)"
      using fin_start [OF e(2) fin_reply [OF in_hand_inv [OF e(1)]]] fin_start [OF e(2) reply_with_fin [OF e(1)]] by (simp add: x(1))
  qed
  show "fin w {} t hand (spy_query_io_status c w)" unfolding spy_query_io_status_def by (rule *)
  show "fin w {} t hand (spy_query_detail_infos c w)" unfolding spy_query_detail_infos_def Let_def by (intro fin_if * fin_None)
qed

section \<open>Requests that become works\<close>

lemma kill_fin:
  assumes "in_hand c t hand w"
  shows "fin w {} t hand (spy_kill_pending_writes c w)"
proof -
  obtain w1 where "kill_loop (pending_writes (srv w)) w = Some w1" "srv_inv {c} t hand w1" "same_time w w1"
    using kill_loop_ok [OF in_hand_inv [OF assms] refl] by blast
  then show ?thesis using fin_start [OF _ fin_reply] by (simp add: spy_kill_pending_writes_def)
qed

lemma inner_header_ok:
  assumes "in_hand c t hand w" "read_inner_header c w = Some (sid, fid, w')"
  shows "in_hand c t hand w'" "same_time w w'"
proof -
  obtain cn where cn: "srv_inv {c} t hand w" "conns (srv w) c = Some cn" "get_conn c w = Some cn" "conn_state cn = PROCESS_REQUEST"
    "aeGetFileEvents (conn_fd cn) w \<in> {0, 1}" by (rule in_handE [OF assms(1)])
  obtain req where r: "spy_rw_buffer_read_n (mem (srv w)) (request cn) REQ_INNER_HDR_SIZE = Some (take REQ_INNER_HDR_SIZE (unread (mem (srv w)) (request cn)), req)"
    "rwb_ok (mem (srv w)) req" "write_side req = write_side (request cn)"
    using read_n_ok [OF inv_rwb(1) [OF cn(1,2)]] by blast
  have w': "w' = put_conn c (cn\<lparr>request := req\<rparr>) w"
    using assms(2) cn(3) r(1) by (auto simp: read_inner_header_def split: if_splits)
  have "srv_inv {c} t hand w'" unfolding w'
    using r inv_rwb(2) [OF cn(1,2)] by (intro inv_put_same [OF cn(1,2)]) (simp_all add: write_side_def)
  then show "in_hand c t hand w'" using cn by (auto simp: in_hand_def w')
  show "same_time w w'" by (simp add: w')
qed

lemma in_hand_gen:
  assumes "in_hand c t hand w" "spy_gen_io_job w = (Some j, w')"
  shows "in_hand c t (j # hand) w'" "same_time w w'" "store (srv w') = store (srv w)" "writers t (srv w') = writers t (srv w)"
    "pending_writes (srv w') = pending_writes (srv w)"
proof -
  obtain js where w': "w' = w\<lparr>srv := (srv w)\<lparr>free_io_jobs := js\<rparr>\<rparr>" using assms(2) by (auto simp: spy_gen_io_job_def split: list.splits)
  have "srv_inv {c} t (j # hand) w'" using gen_job(1) assms by (auto simp: in_hand_def)
  then show "in_hand c t (j # hand) w'" using assms(1) by (auto simp: in_hand_def w')
  show "same_time w w'" "store (srv w') = store (srv w)" "pending_writes (srv w') = pending_writes (srv w)" by (simp_all add: w')
  show "writers t (srv w') = writers t (srv w)"
    using work_frame [of "srv w'" "srv w"] qworks_frame [of "srv w'" "srv w" t] by (simp add: w' writers_def)
qed

lemma gen_None: "spy_gen_io_job w = (None, w') \<Longrightarrow> w' = w"
  by (simp add: spy_gen_io_job_def split: list.splits)

text \<open>The job in hand is filled in for the connection and queued.\<close>

lemma queue_job_ok:
  assumes "in_hand c t (j # hand) w" "conns (srv w) c = Some cn" "aeGetFileEvents (conn_fd cn) w = 0" "job_conn job = c"
    and "job_chunk job = Some a" "job_work job \<in> {WWrite, WRead, WCheck}"
    and "job_work job = WWrite \<Longrightarrow> (\<exists>off. job_arg job = JobOffset off) \<and> a \<in> set (writing_chunks (store (srv w))) \<and> Some a \<notin> set (writers t (srv w))"
    and "stat_add 1 (job_work job) (statistic (srv w)) (f (statistic (srv w)))"
  shows "srv_inv {} t hand (spy_queue_work (IoWork j) (upd_stat f (set_job j job w)))"
proof -
  have i: "srv_inv {c} t (j # hand) w" "conn_state cn = PROCESS_REQUEST" using assms(1,2) by (auto simp: in_hand_def)
  have wr: "writers t (srv (set_job j job w)) = writers t (srv w)" by (rule set_job_writers [OF i(1)])
  have "srv_inv ({c} - {c}) (IoWork j # t) hand (upd_stat f (set_job j job w))"
  proof (rule attach_hand [OF set_job_hand [OF i(1)]])
    show "job_work (io_jobs (srv (set_job j job w)) j) = WWrite \<Longrightarrow>
      job_chunk (io_jobs (srv (set_job j job w)) j) \<in> Some ` set (writing_chunks (store (srv (set_job j job w)))) - set (writers t (srv (set_job j job w)))"
      unfolding wr using assms(5,7) by (simp add: set_job_def)
    show "work_ok (srv (set_job j job w)) (IoWork j)" using assms(5-7) by (auto simp: work_ok_def set_job_def)
  qed (use assms i in \<open>simp_all add: set_job_def\<close>)
  then show ?thesis by (intro inv_queue_work) simp
qed

text \<open>Events and the state of the server are independent.\<close>

lemma srv_last:
  "(w :: world)\<lparr>srv := s, events := e\<rparr> = w\<lparr>events := e, srv := s\<rparr>" "w\<lparr>srv := s, maxfd := n\<rparr> = w\<lparr>maxfd := n, srv := s\<rparr>"
  "w\<lparr>srv := s, epset := p\<rparr> = w\<lparr>epset := p, srv := s\<rparr>"
  by simp_all

lemma api_del_srv: "aeApiDelEvent fd msk ((w :: world)\<lparr>srv := s\<rparr>) = (aeApiDelEvent fd msk w)\<lparr>srv := s\<rparr>"
  by (simp add: aeApiDelEvent_def Let_def epoll_ctl_def srv_last)

lemma delete_srv: "aeDeleteFileEvent fd msk ((w :: world)\<lparr>srv := s\<rparr>) = (aeDeleteFileEvent fd msk w)\<lparr>srv := s\<rparr>"
  by (auto simp: aeDeleteFileEvent_def Let_def srv_last api_del_srv)

lemma queue_job_fin:
  assumes "in_hand c t (j # hand) w" "job_conn job = c" "job_chunk job = Some a" "job_work job \<in> {WRead, WCheck}"
    and "stat_add 1 (job_work job) (statistic (srv w)) (f (statistic (srv w)))"
  shows "fin w {} t hand (Option.bind (no_more_reads c (upd_stat f (set_job j job w))) (\<lambda>w. Some (spy_queue_work (IoWork j) w)))"
proof -
  obtain cn where cn: "conns (srv w) c = Some cn" by (rule in_handE [OF assms(1)])
  let ?w1 = "aeDeleteFileEvent (conn_fd cn) AE_READABLE w"
  note n = no_more_reads_ok [OF assms(1) cn]
  have "no_more_reads c (upd_stat f (set_job j job w)) = Some (upd_stat f (set_job j job ?w1))"
    using cn by (simp add: no_more_reads_def get_conn_def upd_stat_def set_job_def delete_srv)
  moreover have "srv_inv {} t hand (spy_queue_work (IoWork j) (upd_stat f (set_job j job ?w1)))"
    using cn n(3) assms by (intro queue_job_ok [OF n(2), of cn]) auto
  ultimately show ?thesis by (simp add: fin_Some)
qed

lemma check_fin:
  assumes "in_hand c t hand w"
  shows "fin w {} t hand (spy_handle_check_disk c w)"
proof -
  obtain r w0 where r: "next_rand w = (r, w0)" by fastforce
  then obtain rs where w0: "w0 = w\<lparr>srv := (srv w)\<lparr>rands := rs\<rparr>\<rparr>"
    by (auto simp: next_rand_def split: list.splits intro: that [of "rands (srv w)"])
  have h0: "in_hand c t hand w0" "same_time w w0" using assms by (auto simp: in_hand_def w0 srv_inv_cong)
  have u: "upd_stat (\<lambda>x. x) w = w" for w by (simp add: upd_stat_def)
  have job: "fin w0 {} t hand (Option.bind (no_more_reads c (set_job j ((io_jobs (srv w1) j)\<lparr>job_conn := c, job_chunk := Some a, job_work := WCheck\<rparr>) w1))
      (\<lambda>w. Some (spy_queue_work (IoWork j) w)))"
    if g: "spy_gen_io_job w0 = (Some j, w1)" for j w1 a
    using fin_start [OF in_hand_gen(2) [OF h0(1) g] queue_job_fin [OF in_hand_gen(1) [OF h0(1) g], of _ a "\<lambda>x. x"]] by (simp add: stat_add_def u)
  have "fin w0 {} t hand (spy_handle_check_disk c w)"
    using job fin_reply [OF in_hand_inv [OF h0(1)]] gen_None [of w0] unfolding spy_handle_check_disk_def r Let_def prod.case
    by (auto intro!: fin_bind split: prod.splits option.splits)
  then show ?thesis by (rule fin_start [OF h0(2)])
qed

lemma read_error_fin: "srv_inv {c} t hand w \<Longrightarrow> fin w {} t hand (read_request_error c err w)"
  unfolding read_request_error_def
  by (rule fin_start [OF _ fin_reply [OF inv_stat]]) simp_all

lemma write_error_fin: "srv_inv {c} t hand w \<Longrightarrow> fin w {} t hand (write_request_error c err w)"
  unfolding write_request_error_def
  by (rule fin_start [OF _ fin_reply [OF inv_stat]]) simp_all

lemma read_job_fin:
  assumes "in_hand c t hand w" "expand_rsp_body n c w = Some (ok, w1)"
  shows "fin w {} t hand (if \<not> ok then read_request_error c REACH_MEMORY_LIMIT w1
    else (case spy_gen_io_job w1 of
                 (None, w) \<Rightarrow> read_request_error c IO_JOB_UNAVAILABLE w
               | (Some j, w) \<Rightarrow> do {
                   let job = (io_jobs (srv w) j)\<lparr>job_arg := JobEntry x, job_conn := c, job_chunk := Some a, job_work := WRead\<rparr>;
                   let w = upd_stat (\<lambda>st. st\<lparr>read_count := read_count st + 1, reading_count := reading_count st + 1\<rparr>) (set_job j job w);
                   w \<leftarrow> no_more_reads c w;
                   Some (spy_queue_work (IoWork j) w)
                 }))"
proof -
  note e = expand_rsp_ok [OF assms]
  have "fin w1 {} t hand (Option.bind (no_more_reads c (upd_stat (\<lambda>st. st\<lparr>read_count := read_count st + 1, reading_count := reading_count st + 1\<rparr>)
      (set_job j ((io_jobs (srv w2) j)\<lparr>job_arg := JobEntry x, job_conn := c, job_chunk := Some a, job_work := WRead\<rparr>) w2)))
      (\<lambda>w. Some (spy_queue_work (IoWork j) w)))" if g: "spy_gen_io_job w1 = (Some j, w2)" for j w2
    by (rule fin_start [OF in_hand_gen(2) [OF e(1) g] queue_job_fin [OF in_hand_gen(1) [OF e(1) g], of _ a]]) (simp_all add: stat_add_def)
  then show ?thesis using read_error_fin [OF in_hand_inv [OF e(1)]] gen_None [of w1]
    by (intro fin_start [OF e(2)]) (auto simp: Let_def split: prod.splits option.splits)
qed

lemma read_fin:
  assumes "in_hand c t hand w"
  shows "fin w {} t hand (spy_handle_read c w)"
  unfolding spy_handle_read_def
proof (rule fin_bind)
  fix x assume "read_inner_header c w = Some x"
  then obtain sid fid w1 where x: "x = (sid, fid, w1)" "read_inner_header c w = Some (sid, fid, w1)" by (cases x) auto
  note h = inner_header_ok [OF assms x(2)]
  show "fin w {} t hand (case x of (sid, fid, w) \<Rightarrow>
     if uint sid \<noteq> server_id (config (srv w)) then read_request_error c SERVER_ID_MISMATCH w
     else
       (case fst (spy_lookup_file_index fid (store (srv w))) of
          None \<Rightarrow> read_request_error c FILE_NOT_FOUND w
        | Some index_entry \<Rightarrow> do {
            chunk \<leftarrow> lookup_chunk (e_chunk_id index_entry) (store (srv w));
            (ok, w) \<leftarrow> expand_rsp_body (unat (e_size index_entry)) c w;
            if \<not> ok then read_request_error c REACH_MEMORY_LIMIT w
            else
              (case spy_gen_io_job w of
                 (None, w) \<Rightarrow> read_request_error c IO_JOB_UNAVAILABLE w
               | (Some j, w) \<Rightarrow> do {
                   let job = (io_jobs (srv w) j)\<lparr>job_arg := JobEntry index_entry, job_conn := c, job_chunk := Some chunk, job_work := WRead\<rparr>;
                   let w = upd_stat (\<lambda>st. st\<lparr>read_count := read_count st + 1, reading_count := reading_count st + 1\<rparr>) (set_job j job w);
                   w \<leftarrow> no_more_reads c w;
                   Some (spy_queue_work (IoWork j) w)
                 })
          }))"
    unfolding x(1) prod.case
    by (intro fin_start [OF h(2)] fin_if read_error_fin in_hand_inv h(1))
      (auto split: option.splits intro!: fin_bind read_error_fin in_hand_inv h(1) read_job_fin [OF h(1)])
qed

section \<open>Write requests\<close>

lemma take_chunk_hand:
  assumes "in_hand c t hand w" "a \<in> set (chunks (store (srv w)))"
  shows "in_hand c t hand (upd_store (take_chunk a) w)" "a \<in> set (writing_chunks (store (srv (upd_store (take_chunk a) w))))"
    "Some a \<notin> set (writers t (srv (upd_store (take_chunk a) w)))"
proof -
  let ?w1 = "upd_store (take_chunk a) w"
  note p = inv_store_parts [OF in_hand_inv [OF assms(1)]]
  have wr: "writers t (srv ?w1) = writers t (srv w)"
    using work_frame [of "srv ?w1" "srv w"] qworks_frame [of "srv ?w1" "srv w" t] by (simp add: upd_store_def writers_def)
  have a: "a \<notin> set (writing_chunks (store (srv w)))" using p(1) assms(2) by (auto simp: chunks_ok_def)
  then show "Some a \<notin> set (writers t (srv ?w1))" using p(3) unfolding wr by auto
  have "set (writers t (srv w)) \<subseteq> Some ` set (writing_chunks (take_chunk a (store (srv w))))"
    using p(3) a by (auto simp: take_chunk_def remove1_idem)
  then have "srv_inv {c} t hand ?w1"
    using take_chunk_ok [OF p(1) assms(2)] p(2) by (intro inv_store [OF in_hand_inv [OF assms(1)]]) (simp_all add: take_chunk_def)
  then show "in_hand c t hand ?w1" using assms(1) by (auto simp: in_hand_def)
  show "a \<in> set (writing_chunks (store (srv ?w1)))" by (simp add: upd_store_def take_chunk_def)
qed

lemma write_queue_fin:
  assumes "in_hand c t hand w" "spy_gen_io_job w = (Some j, w1)" "a \<in> set (writing_chunks (store (srv w)))" "Some a \<notin> set (writers t (srv w))"
    and "\<And>w2. job_conn (job w2) = c \<and> job_work (job w2) = WWrite \<and> job_chunk (job w2) = Some a \<and> (\<exists>off. job_arg (job w2) = JobOffset off)"
  shows "fin w {} t hand (Option.bind (no_more_reads c w1) (\<lambda>w. Some (spy_queue_work (IoWork j)
    (set_job j (job (upd_stat (\<lambda>st. st\<lparr>write_count := write_count st + 1, writing_count := writing_count st + 1\<rparr>) w))
      (upd_stat (\<lambda>st. st\<lparr>write_count := write_count st + 1, writing_count := writing_count st + 1\<rparr>) w)))))"
proof -
  let ?f = "\<lambda>st :: spy_statistic. st\<lparr>write_count := write_count st + 1, writing_count := writing_count st + 1\<rparr>"
  note h1 = in_hand_gen [OF assms(1,2)]
  obtain cn where cn: "conns (srv w1) c = Some cn" by (rule in_handE [OF h1(1)])
  let ?w2 = "aeDeleteFileEvent (conn_fd cn) AE_READABLE w1"
  note n = no_more_reads_ok [OF h1(1) cn]
  let ?job = "job (upd_stat ?f ?w2)"
  have "srv_inv {} t hand (spy_queue_work (IoWork j) (upd_stat ?f (set_job j ?job ?w2)))"
    using cn n(3) assms(3-5) h1(3,4) by (intro queue_job_ok [OF n(2), of cn]) (simp_all add: stat_add_def)
  moreover have "upd_stat ?f (set_job j ?job ?w2) = set_job j ?job (upd_stat ?f ?w2)" by (simp add: upd_stat_def set_job_def)
  ultimately have "fin w1 {} t hand (Option.bind (no_more_reads c w1) (\<lambda>w. Some (spy_queue_work (IoWork j) (set_job j (job (upd_stat ?f w)) (upd_stat ?f w)))))"
    unfolding n(1) by (simp add: fin_Some)
  then show ?thesis by (rule fin_start [OF h1(2)])
qed

lemma write_pend_fin:
  assumes "in_hand c t hand w" "spy_gen_io_job w = (Some j, w1)" "length (pending_writes (srv w)) < 20"
    and "\<And>w2. job_conn (job w2) = c \<and> job_work (job w2) = WWrite \<and> job_chunk (job w2) = None"
  shows "fin w {} t hand (Option.bind (no_more_reads c w1) (\<lambda>w. Some
    ((set_job j (job w) w)\<lparr>srv := (srv (set_job j (job w) w))\<lparr>pending_writes := pending_writes (srv (set_job j (job w) w)) @ [j],
       pending_writes_size := pending_writes_size (srv (set_job j (job w) w)) + 1\<rparr>\<rparr>)))"
proof -
  note h1 = in_hand_gen [OF assms(1,2)]
  obtain cn where cn: "conns (srv w1) c = Some cn" by (rule in_handE [OF h1(1)])
  let ?w2 = "aeDeleteFileEvent (conn_fd cn) AE_READABLE w1"
  note n = no_more_reads_ok [OF h1(1) cn]
  let ?w3 = "set_job j (job ?w2) ?w2"
  have st: "conn_state cn = PROCESS_REQUEST" using h1(1) cn by (auto simp: in_hand_def)
  have "srv_inv ({c} - {c}) t hand (?w3\<lparr>srv := (srv ?w3)\<lparr>pending_writes := pending_writes (srv ?w3) @ [j], pending_writes_size := pending_writes_size (srv ?w3) + 1\<rparr>\<rparr>)"
    using cn n(3) assms(3,4) h1(5) st by (intro attach_pending [OF set_job_hand [OF in_hand_inv [OF n(2)]]]) (simp_all add: set_job_def)
  then have "fin w1 {} t hand (Option.bind (no_more_reads c w1) (\<lambda>w. Some
    ((set_job j (job w) w)\<lparr>srv := (srv (set_job j (job w) w))\<lparr>pending_writes := pending_writes (srv (set_job j (job w) w)) @ [j],
       pending_writes_size := pending_writes_size (srv (set_job j (job w) w)) + 1\<rparr>\<rparr>)))"
    unfolding n(1) by (simp add: fin_Some)
  then show ?thesis by (rule fin_start [OF h1(2)])
qed

lemma write_fin:
  assumes "in_hand c t hand w"
  shows "fin w {} t hand (spy_handle_write c w)"
proof -
  obtain cn where cn: "get_conn c w = Some cn" by (rule in_handE [OF assms])
  show ?thesis unfolding spy_handle_write_def cn Option.bind.simps Let_def
  proof (intro fin_if fin_bind fin_None, goal_cases)
    case (1 x)
    then obtain sid fid w1 where x: "x = (sid, fid, w1)" "read_inner_header c w = Some (sid, fid, w1)" by (cases x) auto
    note h = inner_header_ok [OF assms x(2)]
    have err: "fin w1 {} t hand (write_request_error c e w1)" for e by (rule write_error_fin [OF in_hand_inv [OF h(1)]])
    have len: "pending_writes_size (srv w1) = of_nat (length (pending_writes (srv w1)))" "length (pending_writes (srv w1)) \<le> 20"
      using in_hand_inv [OF h(1)] by (simp_all add: srv_inv_def jobs_ok_def)
    let ?chunk = "find (has_room (store (srv w1)) (body_len cn - 8 - 2)) (chunks (store (srv w1)))"
    show ?case unfolding x(1) prod.case
    proof (intro fin_start [OF h(2)] fin_if err, goal_cases)
      case 1
      show ?case
      proof (cases ?chunk)
        case None
        then have "pending_writes_size (srv w1) < DEF_MAX_PENDING_WRITES" using 1 by simp
        then have "length (pending_writes (srv w1)) < 20"
          using len by (cases "length (pending_writes (srv w1)) = 20") (simp_all add: DEF_MAX_PENDING_WRITES_def)
        then show ?thesis using None err gen_None [of w1] write_pend_fin [OF h(1)]
          by (auto split: prod.splits option.splits)
      next
        case (Some a)
        then have "a \<in> set (chunks (store (srv w1)))" by (auto simp: find_Some_iff)
        note k = take_chunk_hand [OF h(1) this]
        have t: "same_time w1 (upd_store (take_chunk a) w1)" by simp
        obtain y w2 where g: "spy_gen_io_job (upd_store (take_chunk a) w1) = (y, w2)" by fastforce
        show ?thesis
        proof (cases y)
          case None
          then show ?thesis
            using Some g gen_None [of "upd_store (take_chunk a) w1"] fin_start [OF t write_error_fin [OF in_hand_inv [OF k(1)]]] by simp
        next
          case (Some j)
          let ?job = "\<lambda>u. (io_jobs (srv w2) j)\<lparr>job_file := (job_file (io_jobs (srv w2) j))\<lparr>f_fid := fid, f_ref := 1, f_size := body_len cn - 8 - 2\<rparr>,
            job_conn := c, job_work := WWrite, job_arg := JobOffset (current_offset (chunk_tab (store (srv u)) a)), job_chunk := Some a\<rparr>"
          show ?thesis
            using \<open>?chunk = Some a\<close> fin_start [OF t write_queue_fin [OF k(1) g [unfolded Some] k(2,3), of ?job]] g by (simp add: Some)
        qed
      qed
    qed
  qed
qed

section \<open>Dump requests\<close>

lemma in_hand_dump:
  assumes "in_hand c t hand w" "DumpWork d \<notin> set (works t (srv w))" "next_dump (srv w) \<le> n" "d < n"
  shows "in_hand c t hand (w\<lparr>srv := (srv w)\<lparr>next_dump := n, dump_jobs := (dump_jobs (srv w))(d := x)\<rparr>\<rparr>)"
  using assms(1) set_dump [OF in_hand_inv [OF assms(1)] assms(2-4), of x] by (auto simp: in_hand_def)

lemma dump_queue_fin:
  assumes "in_hand c t hand w" "DumpWork d \<notin> set (works t (srv w))" "d < next_dump (srv w)" "dj_conn dj = c"
  shows "fin w {} t hand (Option.bind (no_more_reads c (w\<lparr>srv := (srv w)\<lparr>dump_jobs := (dump_jobs (srv w))(d \<mapsto> dj)\<rparr>\<rparr>))
    (\<lambda>w. Some (spy_queue_work (DumpWork d) w)))"
proof -
  let ?w1 = "w\<lparr>srv := (srv w)\<lparr>dump_jobs := (dump_jobs (srv w))(d \<mapsto> dj)\<rparr>\<rparr>"
  have h1: "in_hand c t hand ?w1" using in_hand_dump [OF assms(1,2) order.refl assms(3), of "Some dj"] by simp
  obtain cn where cn: "conns (srv ?w1) c = Some cn" "conn_state cn = PROCESS_REQUEST" by (rule in_handE [OF h1])
  let ?w2 = "aeDeleteFileEvent (conn_fd cn) AE_READABLE ?w1"
  note n = no_more_reads_ok [OF h1 cn(1)]
  have "srv_inv ({c} - {c}) (DumpWork d # t) hand ?w2"
    using cn n(3) assms(4) by (intro attach_dump [OF in_hand_inv [OF n(2)]]) simp_all
  then have "srv_inv {} t hand (spy_queue_work (DumpWork d) ?w2)" by (intro inv_queue_work) simp
  then show ?thesis unfolding n(1) by (simp add: fin_Some)
qed

lemma dump_fin:
  assumes "in_hand c t hand w"
  shows "fin w {} t hand (spy_dump_chunk c w)"
proof -
  obtain cn where cn: "get_conn c w = Some cn" "conns (srv w) c = Some cn" "conn_state cn = PROCESS_REQUEST" "aeGetFileEvents (conn_fd cn) w \<in> {0, 1}"
    by (rule in_handE [OF assms])
  let ?d = "next_dump (srv w)" and ?x = "\<lparr>dj_retcode = 0, dj_conn = 0, dj_chunk = None, dj_name = []\<rparr>"
  let ?w1 = "w\<lparr>srv := (srv w)\<lparr>next_dump := ?d + 1, dump_jobs := (dump_jobs (srv w))(?d \<mapsto> ?x)\<rparr>\<rparr>"
  have f: "DumpWork ?d \<notin> set (works t (srv w))" by (rule fresh_dump [OF in_hand_inv [OF assms]]) simp
  have h1: "in_hand c t hand ?w1" using f by (intro in_hand_dump [OF assms]) simp_all
  have t1: "same_time w ?w1" by simp
  have f1: "DumpWork ?d \<notin> set (works t (srv ?w1))" using f by (simp add: works_def qworks_def)
  show ?thesis unfolding spy_dump_chunk_def cn(1) Option.bind.simps Let_def
  proof (intro fin_start [OF t1] fin_if fin_reply [OF in_hand_inv [OF h1]] fin_bind, goal_cases)
    case (1 y)
    obtain req where r: "spy_rw_buffer_read_n (mem (srv ?w1)) (request cn) (unat (body_len cn)) =
        Some (take (unat (body_len cn)) (unread (mem (srv ?w1)) (request cn)), req)"
      "rwb_ok (mem (srv ?w1)) req" "write_side req = write_side (request cn)"
      using read_n_ok [OF inv_rwb(1) [OF in_hand_inv [OF assms] cn(2)]] by auto
    let ?w2 = "put_conn c (cn\<lparr>request := req\<rparr>) ?w1"
    have "srv_inv {c} t hand ?w2" using r inv_rwb(2) [OF in_hand_inv [OF h1], of c cn] cn
      by (intro inv_put_same [OF in_hand_inv [OF h1], of c cn]) (simp_all add: write_side_def)
    then have h2: "in_hand c t hand ?w2" using cn by (auto simp: in_hand_def)
    have t2: "same_time ?w1 ?w2" by simp
    obtain rr w3 where b: "spy_set_blocking (conn_fd cn) True ?w2 = (rr, w3)" by fastforce
    note i3 = inv_blocking [OF in_hand_inv [OF h2] b]
    have h3: "in_hand c t hand w3" using h2 i3 by (auto simp: in_hand_def)
    have "works t (srv w3) = works t (srv ?w1)" using i3(8) by (simp add: works_def qworks_def put_conn_def)
    with f1 have f3: "DumpWork ?d \<notin> set (works t (srv w3))" by simp
    have n3: "?d < next_dump (srv w3)" using i3(7) by (simp add: put_conn_def)
    have y: "y = (take (unat (body_len cn)) (unread (mem (srv ?w1)) (request cn)), req)" using r(1) 1 by simp
    show ?case unfolding y prod.case
    proof (intro fin_if fin_None fin_start [OF t2], goal_cases)
      case 1
      show ?case using fin_reply [OF in_hand_inv [OF h2]] fin_start [OF i3(3) fin_reply [OF in_hand_inv [OF h3]]]
        fin_start [OF i3(3) dump_queue_fin [OF h3 f3 n3]] b by (auto split: option.splits)
    qed
  qed
qed

lemma dispatch_fin:
  assumes "in_hand c t hand w"
  shows "fin w {} t hand (dispatch c opc w)"
  unfolding dispatch_def
  by (intro fin_if write_fin read_fin ping_fin check_fin kill_fin query_fin dump_fin fin_free in_hand_inv assms)

section \<open>Receiving\<close>

text \<open>The loop for room ends after at most one expansion: with a place in the last block, or at the memory limit.\<close>

definition place_ok :: "mem_state \<Rightarrow> rw_buffer \<Rightarrow> area \<times> nat \<Rightarrow> bool" where
  "place_ok m b p \<longleftrightarrow> (\<exists>i. write_block b = Some i \<and> p = ((i, write_pos b - write_base b), write_base b + bsize m i - write_pos b) \<and>
     write_pos b < write_base b + bsize m i \<and> write_base b + bsize m i \<le> cap b)"

lemma next_place:
  assumes "rwb_ok m b" "write_pos b < cap b"
  obtains b' p where "spy_rw_buffer_next_writeable m b = Some (b', Some p)" "rwb_ok m b'" "mem_blocks b' = mem_blocks b" "place_ok m b' p"
proof (rule next_writeable_ok [OF assms])
  fix i base
  let ?b = "b\<lparr>write_block := Some i, write_base := base\<rparr>"
  assume a: "spy_rw_buffer_next_writeable m b = Some (?b, Some ((i, write_pos b - base), base + bsize m i - write_pos b))" "rwb_ok m ?b"
    "write_pos b < base + bsize m i" "base + bsize m i \<le> cap b"
  show ?thesis by (rule that [OF a(1,2)]) (use a in \<open>simp_all add: place_ok_def\<close>)
qed

lemma make_room_ok:
  assumes "rwb_ok m b" "pool_ok m (mem_blocks b @ rest)"
  obtains place b' m' where "make_room b m = Some (place, b', m')" "buf_step m b m' b'" "\<And>p. place = Some p \<Longrightarrow> place_ok m' b' p"
proof (cases "write_pos b < cap b")
  case True
  obtain b' p where n: "spy_rw_buffer_next_writeable m b = Some (b', Some p)" "rwb_ok m b'" "mem_blocks b' = mem_blocks b" "place_ok m b' p"
    by (rule next_place [OF assms(1) True])
  have "make_room b m = Some (Some p, b', m)" by (simp add: make_room.simps [of b] n(1))
  then show ?thesis using n by (intro that [of "Some p" b' m]) (auto simp: buf_step_cursor)
next
  case False
  then have full: "spy_rw_buffer_next_writeable m b = Some (b, None)" using assms(1) by (simp add: spy_rw_buffer_next_writeable_def rwb_ok_def)
  obtain r b1 m1 where e: "spy_rw_buffer_expand b m = Some (r, b1, m1)" by (rule expand_ok [OF assms])
  note s = expand_step [OF assms e]
  show ?thesis
  proof (cases "r < 0")
    case True
    then have "make_room b m = Some (None, b1, m1)" by (simp add: make_room.simps [of b] full e)
    then show ?thesis using s(1) by (intro that [of None b1 m1]) simp_all
  next
    case False
    have r1: "rwb_ok m1 b1" using s(1) by (simp add: buf_step_def)
    obtain b' p where n: "spy_rw_buffer_next_writeable m1 b1 = Some (b', Some p)" "rwb_ok m1 b'" "mem_blocks b' = mem_blocks b1" "place_ok m1 b' p"
      by (rule next_place [OF r1]) (use s(2) False in simp)
    have "make_room b m = Some (Some p, b', m1)" using False by (simp add: make_room.simps [of b] make_room.simps [of b1] full e n(1))
    moreover have "buf_step m b m1 b'" using s(1) n(2,3) by (simp add: buf_step_def)
    ultimately show ?thesis using n(4) by (intro that [of "Some p" b' m1]) simp_all
  qed
qed

text \<open>Bytes from the socket go to that place.\<close>

lemma store_place:
  assumes "rwb_ok m b" "place_ok m b (buf, len)" "length data \<le> len"
  obtains m' where "store_area m buf data = Some m'" "buf_step m b m' (b\<lparr>write_pos := write_pos b + length data\<rparr>)"
    "written m' (b\<lparr>write_pos := write_pos b + length data\<rparr>) = written m b @ data"
proof -
  obtain i where i: "write_block b = Some i" "buf = (i, write_pos b - write_base b)" "len = write_base b + bsize m i - write_pos b"
    "write_pos b < write_base b + bsize m i" "write_base b + bsize m i \<le> cap b" using assms(2) by (auto simp: place_ok_def)
  have le: "write_pos b + length data \<le> write_base b + bsize m i" using assms(3) i(3,4) by simp
  obtain m' where m': "store_area m (i, write_pos b - write_base b) data = Some m'" "rwb_ok m' (advance_write (length data) b)"
    "written m' (advance_write (length data) b) = written m b @ data" "touched b m m'"
    by (rule store_write [OF assms(1) i(1) le i(5)])
  then show ?thesis using buf_step_touched [OF m'(4)] by (intro that [of m']) (simp_all add: i(2) advance_write_def)
qed

text \<open>A connection in hand that its read handler works on.\<close>

definition receiving :: "nat \<Rightarrow> work list \<Rightarrow> nat list \<Rightarrow> world \<Rightarrow> bool" where
  "receiving c t hand w \<longleftrightarrow> srv_inv {c} t hand w \<and> (\<exists>cn. conns (srv w) c = Some cn \<and>
     (conn_state cn \<in> {RECEIVE_HDR, RECEIVE_BODY} \<and> aeGetFileEvents (conn_fd cn) w = 1 \<or>
      conn_state cn = SEND_RSP \<and> aeGetFileEvents (conn_fd cn) w \<in> {2, 3}))"

lemma receiving_release: "receiving c t hand w \<Longrightarrow> srv_inv {} t hand w"
proof -
  assume r: "receiving c t hand w"
  then obtain cn where cn: "srv_inv {c} t hand w" "conns (srv w) c = Some cn"
    "conn_state cn \<in> {RECEIVE_HDR, RECEIVE_BODY} \<and> aeGetFileEvents (conn_fd cn) w = 1 \<or>
      conn_state cn = SEND_RSP \<and> aeGetFileEvents (conn_fd cn) w \<in> {2, 3}" by (auto simp: receiving_def)
  have "c \<notin> set (owners t (srv w))" by (rule inv_cur [OF cn(1) singletonI])
  then have "srv_inv ({c} - {c}) t hand w" using cn(3) by (intro inv_release [OF cn(1,2)]) (auto simp: phase_ok_def)
  then show ?thesis by simp
qed

lemma receiving_put:
  assumes "receiving c t hand w" "conns (srv w) c = Some cn" "srv_inv {c} t hand (put_conn c cn' (set_mem m w))"
    "conn_fd cn' = conn_fd cn" "conn_state cn' = conn_state cn"
  shows "receiving c t hand (put_conn c cn' (set_mem m w))"
  using assms by (auto simp: receiving_def)

lemma receive_header_ok:
  assumes "receive_header m cn = Some cn'" "rwb_ok m (request cn)"
  shows "rwb_ok m (request cn')" "mem_blocks (request cn') = mem_blocks (request cn)" "conn_fd cn' = conn_fd cn" "rsp_body cn' = rsp_body cn"
    "conn_state cn' = conn_state cn \<or> conn_state cn = RECEIVE_HDR \<and> conn_state cn' = RECEIVE_BODY"
proof -
  obtain req where r: "spy_rw_buffer_read_n m (request cn) REQ_HDR_SIZE = Some (take REQ_HDR_SIZE (unread m (request cn)), req)"
    "rwb_ok m req" "write_side req = write_side (request cn)" using read_n_ok [OF assms(2)] by blast
  show "rwb_ok m (request cn')" "mem_blocks (request cn') = mem_blocks (request cn)" "conn_fd cn' = conn_fd cn" "rsp_body cn' = rsp_body cn"
    "conn_state cn' = conn_state cn \<or> conn_state cn = RECEIVE_HDR \<and> conn_state cn' = RECEIVE_BODY"
    using assms r by (auto simp: receive_header_def write_side_def split: if_splits)
qed

lemma receive_body_ok:
  "request (receive_body cn) = request cn" "conn_fd (receive_body cn) = conn_fd cn" "rsp_body (receive_body cn) = rsp_body cn"
  "conn_state (receive_body cn) = conn_state cn \<or> conn_state cn = RECEIVE_BODY \<and> conn_state (receive_body cn) = PROCESS_REQUEST"
  by (simp_all add: receive_body_def)

lemma process_buffer_fin:
  assumes "receiving c t hand w"
  shows "fin w {} t hand (spy_process_receive_buffer c w)"
proof -
  obtain cn where cn: "srv_inv {c} t hand w" "conns (srv w) c = Some cn" "get_conn c w = Some cn"
    "conn_state cn \<in> {RECEIVE_HDR, RECEIVE_BODY} \<and> aeGetFileEvents (conn_fd cn) w = 1 \<or>
      conn_state cn = SEND_RSP \<and> aeGetFileEvents (conn_fd cn) w \<in> {2, 3}" using assms by (auto simp: receiving_def get_conn_def)
  show ?thesis unfolding spy_process_receive_buffer_def cn(3) Option.bind.simps Let_def
  proof (rule fin_bind)
    fix cn1 assume "receive_header (mem (srv w)) cn = Some cn1"
    note h = receive_header_ok [OF this inv_rwb(1) [OF cn(1,2)]] and b = receive_body_ok [of cn1]
    let ?cn = "receive_body cn1" and ?w1 = "put_conn c (receive_body cn1) w"
    have i1: "srv_inv {c} t hand ?w1"
      using h b inv_rwb(2) [OF cn(1,2)] by (intro inv_put_same [OF cn(1,2)]) simp_all
    show "fin w {} t hand (if conn_state ?cn = PROCESS_REQUEST then dispatch c (opcode ?cn) ?w1 else Some ?w1)"
    proof (rule fin_if)
      assume "conn_state ?cn = PROCESS_REQUEST"
      then have "in_hand c t hand ?w1" using i1 h b cn(4) by (auto simp: in_hand_def)
      from dispatch_fin [OF this] show "fin w {} t hand (dispatch c (opcode ?cn) ?w1)" by (rule fin_start [rotated]) simp
    next
      assume "conn_state ?cn \<noteq> PROCESS_REQUEST"
      then have "receiving c t hand ?w1" using i1 h b cn(4) by (auto simp: receiving_def)
      then show "fin w {} t hand (Some ?w1)" by (intro fin_Some receiving_release) simp_all
    qed
  qed
qed

lemma sock_recv_ok:
  assumes "sock_recv fd len w = (r, w')"
  obtains os si where "w' = w\<lparr>srv := (srv w)\<lparr>osys := os, sock_in := si\<rparr>\<rparr>" "\<forall>data. r = Done data \<longrightarrow> length data \<le> len"
proof -
  obtain x s1 where n: "next_resp (osys (srv w)) = (x, s1)" by fastforce
  show ?thesis
  proof (cases "sock_in (srv w) fd = []")
    case True
    then have "w' = w\<lparr>srv := (srv w)\<lparr>osys := s1\<rparr>\<rparr>" "\<forall>data. r = Done data \<longrightarrow> data = []"
      using assms n by (auto simp: sock_recv_def Let_def split: if_splits)
    then show ?thesis by (intro that [of "sock_in (srv w)" s1]) auto
  next
    case False
    show ?thesis
    proof (cases "grant x (min len (length (sock_in (srv w) fd)))")
      case (Fail e)
      then have "w' = w\<lparr>srv := (srv w)\<lparr>osys := s1\<rparr>\<rparr>" "r = Fail e" using assms n False by (auto simp: sock_recv_def Let_def)
      then show ?thesis by (intro that [of "sock_in (srv w)" s1]) simp_all
    next
      case (Done k)
      then have "k \<le> len" by (auto simp: grant_def split: option.splits sysresp.splits)
      moreover have "w' = w\<lparr>srv := (srv w)\<lparr>osys := s1, sock_in := (sock_in (srv w))(fd := drop k (sock_in (srv w) fd))\<rparr>\<rparr>"
        "r = Done (take k (sock_in (srv w) fd))" using assms n False Done by (auto simp: sock_recv_def Let_def)
      ultimately show ?thesis by (intro that [of "(sock_in (srv w))(fd := drop k (sock_in (srv w) fd))" s1]) auto
    qed
  qed
qed

lemma receiving_sock: "receiving c t hand w \<Longrightarrow> receiving c t hand (w\<lparr>srv := (srv w)\<lparr>osys := os, sock_in := si\<rparr>\<rparr>)"
  by (auto simp: receiving_def srv_inv_cong)

lemma receiving_inv: "receiving c t hand w \<Longrightarrow> srv_inv {c} t hand w"
  by (simp add: receiving_def)

lemma read_handler_fin:
  assumes "receiving c t hand w"
  shows "fin w {} t hand (spy_read_handler c w)"
proof -
  obtain cn where cn: "srv_inv {c} t hand w" "conns (srv w) c = Some cn" "get_conn c w = Some cn" using assms by (auto simp: receiving_def get_conn_def)
  obtain rest where p: "pool_ok (mem (srv w)) (conn_blocks cn @ rest)" by (rule inv_pool [OF cn(1,2)])
  obtain place req m where r: "make_room (request cn) (mem (srv w)) = Some (place, req, m)" "buf_step (mem (srv w)) (request cn) m req"
    "\<And>p. place = Some p \<Longrightarrow> place_ok m req p"
    by (rule make_room_ok [OF inv_rwb(1) [OF cn(1,2)], of "mem_blocks (rsp_body cn) @ rest"]) (use p in \<open>simp_all add: conn_blocks_def\<close>)
  let ?cn1 = "cn\<lparr>request := req\<rparr>"
  let ?w1 = "put_conn c ?cn1 (set_mem m w)"
  have "srv_inv {c} t hand ?w1" using r(2) by (intro inv_put_request [OF cn(1,2)]) simp_all
  then have h1: "receiving c t hand ?w1" by (intro receiving_put [OF assms cn(2)]) simp_all
  have t1: "same_time w ?w1" by simp
  have free: "fin w {} t hand (spy_free_client_connection c w')" if "receiving c t hand w'" "same_time w w'" for w'
    by (rule fin_start [OF that(2) fin_free [OF receiving_inv [OF that(1)]]])
  show ?thesis
  proof (cases place)
    case None
    then show ?thesis using free [OF h1 t1] by (simp add: spy_read_handler_def cn(3) r(1) Let_def)
  next
    case (Some pl)
    obtain buf len where pl: "pl = (buf, len)" by fastforce
    obtain x w2 where sr: "sock_recv (conn_fd cn) len ?w1 = (x, w2)" by fastforce
    obtain os si where w2: "w2 = ?w1\<lparr>srv := (srv ?w1)\<lparr>osys := os, sock_in := si\<rparr>\<rparr>" "\<forall>data. x = Done data \<longrightarrow> length data \<le> len"
      by (rule sock_recv_ok [OF sr])
    have h2: "receiving c t hand w2" unfolding w2(1) by (rule receiving_sock [OF h1])
    have t2: "same_time w w2" by (simp add: w2(1))
    have c2: "conns (srv w2) c = Some ?cn1" "mem (srv w2) = m" by (simp_all add: w2(1)) (simp_all add: put_conn_def set_mem_def)
    show ?thesis
    proof (cases x)
      case (Fail e)
      then show ?thesis using free [OF h2 t2] receiving_release [OF h2] t2 Some
        by (simp add: spy_read_handler_def cn(3) r(1) Let_def pl sr fin_Some)
    next
      case (Done data)
      have pk: "rwb_ok m req" "place_ok m req (buf, len)" "length data \<le> len"
        using r(2,3) Some pl w2(2) Done by (simp_all add: buf_step_def)
      obtain m2 where m2: "store_area m buf data = Some m2" "buf_step m req m2 (req\<lparr>write_pos := write_pos req + length data\<rparr>)"
        by (rule store_place [OF pk])
      let ?w3 = "put_conn c (cn\<lparr>request := req\<lparr>write_pos := write_pos req + length data\<rparr>\<rparr>) (set_mem m2 w2)"
      have "srv_inv {c} t hand ?w3" using m2(2) c2(2) by (intro inv_put_request [OF receiving_inv [OF h2] c2(1)]) simp_all
      then have h3: "receiving c t hand ?w3" by (intro receiving_put [OF h2 c2(1)]) simp_all
      have "fin w {} t hand (spy_process_receive_buffer c ?w3)" by (rule fin_start [OF _ process_buffer_fin [OF h3]]) (simp add: t2)
      then show ?thesis using free [OF h2 t2] Done Some m2(1) c2(2) by (simp add: spy_read_handler_def cn(3) r(1) Let_def pl sr)
    qed
  qed
qed

section \<open>Sending\<close>

lemma sock_send_ok:
  assumes "sock_send fd data w = (r, w')"
  obtains os where "w' = w\<lparr>srv := (srv w)\<lparr>osys := os\<rparr>\<rparr>" "\<forall>n. r = Done n \<longrightarrow> n \<le> length data"
proof -
  obtain x s1 where n: "next_resp (osys (srv w)) = (x, s1)" by fastforce
  show ?thesis
  proof (cases "grant x (length data)")
    case (Fail e)
    then show ?thesis using assms n by (intro that [of s1]) (auto simp: sock_send_def sys_send_def)
  next
    case (Done k)
    then have "k \<le> length data" by (auto simp: grant_def split: option.splits sysresp.splits)
    then show ?thesis using assms n Done
      by (intro that [of "s1\<lparr>files := (files s1)(fd := files s1 fd @ take k data)\<rparr>"]) (auto simp: sock_send_def sys_send_def)
  qed
qed

definition sending :: "nat \<Rightarrow> work list \<Rightarrow> nat list \<Rightarrow> world \<Rightarrow> bool" where
  "sending c t hand w \<longleftrightarrow> srv_inv {c} t hand w \<and>
     (\<exists>cn. conns (srv w) c = Some cn \<and> conn_state cn = SEND_RSP \<and> aeGetFileEvents (conn_fd cn) w \<in> {2, 3})"

lemma sending_release: "sending c t hand w \<Longrightarrow> srv_inv {} t hand w"
  by (rule receiving_release [of c]) (auto simp: sending_def receiving_def)

lemma sending_os: "sending c t hand w \<Longrightarrow> sending c t hand (w\<lparr>srv := (srv w)\<lparr>osys := os\<rparr>\<rparr>)"
  by (auto simp: sending_def srv_inv_cong)

lemma sending_put:
  assumes "sending c t hand w" "conns (srv w) c = Some cn" "conn_fd cn' = conn_fd cn" "conn_state cn' = conn_state cn" "request cn' = request cn"
    "rwb_ok (mem (srv w)) (rsp_body cn')" "mem_blocks (rsp_body cn') = mem_blocks (rsp_body cn)"
  shows "sending c t hand (put_conn c cn' w)"
proof -
  have i: "srv_inv {c} t hand w" using assms(1) by (simp add: sending_def)
  have "srv_inv {c} t hand (put_conn c cn' w)" using assms inv_rwb(1) [OF i assms(2)] by (intro inv_put_same [OF i assms(2)]) simp_all
  then show ?thesis using assms by (auto simp: sending_def)
qed

text \<open>What the loop over the response leaves: the response is sent, or the handler is done.\<close>

definition sent_ok :: "nat \<Rightarrow> work list \<Rightarrow> nat list \<Rightarrow> world \<Rightarrow> bool \<times> world \<Rightarrow> bool" where
  "sent_ok c t hand w y \<longleftrightarrow> same_time w (snd y) \<and> (if fst y then sending c t hand (snd y) else srv_inv {} t hand (snd y))"

lemma send_failed_ok:
  assumes "sending c t hand w" "send_failed c e w = Some y"
  shows "sent_ok c t hand w y"
proof (cases "e = EAGAIN")
  case True
  then show ?thesis using assms sending_release [OF assms(1)] by (auto simp: send_failed_def sent_ok_def)
next
  case False
  have "fin w {} t hand (spy_free_client_connection c w)" using assms(1) by (intro fin_free) (simp add: sending_def)
  then show ?thesis using assms(2) False by (auto simp: send_failed_def sent_ok_def fin_def split: bind_splits)
qed

lemma sent_ok_start: "same_time w w1 \<Longrightarrow> sent_ok c t hand w1 y \<Longrightarrow> sent_ok c t hand w y"
  by (auto simp: sent_ok_def intro: same_time_trans)

text \<open>One call of \<open>write\<close> and the rest of the loop.\<close>

lemma send_step:
  assumes "sending c t hand w" "conns (srv w) c = Some cn" "\<And>w1 z. f w1 = Some z \<Longrightarrow> sending c t hand w1 \<Longrightarrow> sent_ok c t hand w1 z"
    and "(case sock_send fd data w of (r, w) \<Rightarrow> (case r of Fail e \<Rightarrow> send_failed c e w
       | Done n \<Rightarrow> if n = 0 then None else f (put_conn c (g n) w))) = Some y"
    and "\<And>n. n \<le> length data \<Longrightarrow> conn_fd (g n) = conn_fd cn \<and> conn_state (g n) = conn_state cn \<and> request (g n) = request cn \<and>
      rwb_ok (mem (srv w)) (rsp_body (g n)) \<and> mem_blocks (rsp_body (g n)) = mem_blocks (rsp_body cn)"
  shows "sent_ok c t hand w y"
proof -
  obtain r w1 where s: "sock_send fd data w = (r, w1)" by fastforce
  obtain os where w1: "w1 = w\<lparr>srv := (srv w)\<lparr>osys := os\<rparr>\<rparr>" "\<forall>n. r = Done n \<longrightarrow> n \<le> length data" by (rule sock_send_ok [OF s])
  have h1: "sending c t hand w1" unfolding w1(1) by (rule sending_os [OF assms(1)])
  have t1: "same_time w w1" by (simp add: w1(1))
  show ?thesis
  proof (cases r)
    case (Fail e)
    then show ?thesis using send_failed_ok [OF h1] assms(4) s sent_ok_start [OF t1] by simp
  next
    case (Done n)
    then have n: "n \<le> length data" "f (put_conn c (g n) w1) = Some y" using w1(2) assms(4) s by (auto split: if_splits)
    have "sending c t hand (put_conn c (g n) w1)"
      using assms(5) [OF n(1)] assms(2) by (intro sending_put [OF h1, of cn]) (simp_all add: w1(1))
    from assms(3) [OF n(2) this] show ?thesis by (rule sent_ok_start [rotated]) (simp add: t1)
  qed
qed

lemma write_loop_inv:
  assumes "write_loop c w = Some y"
  shows "sending c t hand w \<longrightarrow> sent_ok c t hand w y"
proof (rule write_loop.raw_induct [OF _ assms, where P = "\<lambda>c w y. sending c t hand w \<longrightarrow> sent_ok c t hand w y"], intro impI, goal_cases)
  case (1 rec c w y)
  note rc = 1(1) [THEN mp]
  obtain cn where cn: "srv_inv {c} t hand w" "conns (srv w) c = Some cn" "get_conn c w = Some cn" using 1(3) by (auto simp: sending_def get_conn_def)
  note rw = inv_rwb(2) [OF cn(1,2)]
  show ?case
  proof (cases "0 < write_remaining cn")
    case False
    then show ?thesis using 1(2,3) cn(3) by (auto simp: sent_ok_def)
  next
    case rem: True
    show ?thesis
    proof (cases "sentlen cn < int RSP_HDR_SIZE")
      case True
      show ?thesis
        by (rule send_step [OF 1(3) cn(2) rc, where fd = "conn_fd cn" and data = "drop (nat (sentlen cn)) (rsp_header cn)" and g = "\<lambda>n. cn\<lparr>sentlen := sentlen cn + int n\<rparr>"])
          (use 1(2) rem True rw in \<open>simp_all add: cn(3)\<close>)
    next
      case False
      then obtain rsp buf len data where n: "spy_rw_buffer_next_readable (mem (srv w)) (rsp_body cn) = Some (rsp, Some (buf, len))"
        "load_area (mem (srv w)) buf (min len (nat (write_remaining cn))) = Some data"
        using 1(2) rem by (auto simp: cn(3) split: bind_splits)
      have "unread (mem (srv w)) (rsp_body cn) \<noteq> []" using rd.nxt_empty [OF rw] n(1) by auto
      from rd.nxt_data [OF rw this] n have a: "rwb_ok (mem (srv w)) rsp" "write_side rsp = write_side (rsp_body cn)"
        "length data \<le> len" "\<forall>k\<le>len. rwb_ok (mem (srv w)) (advance_read k rsp) \<and> write_side (advance_read k rsp) = write_side (rsp_body cn)" by auto
      let ?cn1 = "cn\<lparr>rsp_body := rsp\<rparr>"
      have h1: "sending c t hand (put_conn c ?cn1 w)" using a(1,2) by (intro sending_put [OF 1(3) cn(2)]) (simp_all add: write_side_def)
      have "sent_ok c t hand (put_conn c ?cn1 w) y"
        by (rule send_step [OF h1 get_conn_put(2) rc, where fd = "conn_fd cn" and data = data and g = "\<lambda>n. cn\<lparr>rsp_body := advance_read n rsp, sentlen := sentlen cn + int n\<rparr>"])
          (use 1(2) rem False n a in \<open>simp_all add: cn(3) write_side_def put_conn_def\<close>)
      then show ?thesis by (rule sent_ok_start [rotated]) simp
    qed
  qed
qed

lemma write_handler_fin:
  assumes "sending c t hand w"
  shows "fin w {} t hand (spy_write_handler c w)"
  unfolding spy_write_handler_def
proof (rule fin_bind)
  fix x assume "write_loop c w = Some x"
  moreover obtain sent w1 where x: "x = (sent, w1)" by fastforce
  ultimately have s: "sent_ok c t hand w (sent, w1)" using write_loop_inv assms by simp
  have t1: "same_time w w1" using s by (simp add: sent_ok_def)
  show "fin w {} t hand (case x of (sent, w) \<Rightarrow> if sent then do {
       cn \<leftarrow> get_conn c w;
       if word_of_int (sentlen cn) = (of_nat RSP_HDR_SIZE + body_len cn :: u32) then spy_reset_client_connection c w else Some w
     } else Some w)"
  proof (cases sent)
    case False
    then show ?thesis using s by (simp add: x sent_ok_def fin_Some)
  next
    case True
    then have h1: "sending c t hand w1" using s by (simp add: sent_ok_def)
    then obtain cn where cn: "srv_inv {c} t hand w1" "conns (srv w1) c = Some cn" "get_conn c w1 = Some cn" by (auto simp: sending_def get_conn_def)
    have "fin w1 {} t hand (spy_reset_client_connection c w1)"
      using reset_conn_ok [OF cn(1,2) singletonI] conn_frame_time by (auto simp: fin_def)
    then show ?thesis using fin_start [OF t1] fin_Some [OF sending_release [OF h1] t1] True by (simp add: x cn(3))
  qed
qed

section \<open>New connections\<close>

text \<open>A descriptor that the server does not use.\<close>

definition unused_fd :: "world \<Rightarrow> nat \<Rightarrow> bool" where
  "unused_fd w fd \<longleftrightarrow> fd \<noteq> 0 \<and> aeGetFileEvents fd w = 0 \<and> Some fd \<notin> range (fd_of (srv w))"

lemma inv_next_conn:
  assumes "srv_inv cur t hand w"
  shows "conns (srv w) (next_conn (srv w)) = None" "next_conn (srv w) \<notin> set (owners t (srv w))" "next_conn (srv w) \<notin> cur"
proof -
  have k: "conns_ok cur t w" using assms by (simp add: srv_inv_def)
  show n: "conns (srv w) (next_conn (srv w)) = None"
    using conns_ok_parts(1) [OF k, of "next_conn (srv w)"] by (cases "conns (srv w) (next_conn (srv w))") (auto simp: conn_ok_def)
  show "next_conn (srv w) \<notin> set (owners t (srv w))" "next_conn (srv w) \<notin> cur" using conns_ok_parts(4,5) [OF k] n by blast+
qed

definition new_connection :: "nat \<Rightarrow> spy_connection" where
  "new_connection fd = \<lparr>conn_fd = fd, request = spy_rw_buffer_init, rsp_body = spy_rw_buffer_init, rsp_header = replicate RSP_HDR_SIZE 0,
     sentlen = 0, opcode = 0, conn_error = 0, body_len = 0, conn_state = RECEIVE_HDR\<rparr>"

lemma new_parts:
  assumes "srv_inv cur t hand w"
    and "s = (srv w)\<lparr>next_conn := next_conn (srv w) + 1, conn_mem := k, conns := (conns (srv w))(next_conn (srv w) \<mapsto> new_connection fd),
      statistic := (statistic (srv w))\<lparr>conn_count := conn_count (statistic (srv w)) + 1\<rparr>\<rparr>"
  shows "jobs_ok t hand s" "store_ok t s" "stats_ok t s" "bufs_ok s" "owners t s = owners t (srv w)"
proof -
  let ?c = "next_conn (srv w)"
  have i: "jobs_ok t hand (srv w)" "store_ok t (srv w)" "stats_ok t (srv w)" "bufs_ok (srv w)" using assms(1) by (auto simp: srv_inv_def)
  note n = inv_next_conn(1) [OF assms(1)]
  show "owners t s = owners t (srv w)" using owners_cong(1) [of s "srv w"] by (simp add: assms(2))
  show "jobs_ok t hand s" using jobs_ok_cong [of s "srv w"] i(1) by (simp add: assms(2))
  show "store_ok t s" using store_ok_cong [of s "srv w"] i(2) by (simp add: assms(2))
  have "dom (conns s) = insert ?c (dom (conns (srv w)))" "?c \<notin> dom (conns (srv w))" using n by (auto simp: assms(2))
  then have "finite (dom (conns s)) \<and> conn_count (statistic s) = of_nat (card (dom (conns s)))"
    using i(3) by (simp add: stats_ok_def) (simp add: assms(2))
  then show "stats_ok t s" using i(3) work_frame [of s "srv w"] qworks_frame [of s "srv w" t] by (simp add: stats_ok_def) (simp add: assms(2))
  define g where "g = (\<lambda>(s :: spy_server) c. case conns s c of None \<Rightarrow> [] | Some cn \<Rightarrow> conn_blocks cn)"
  have g: "owned x = concat (map (g x) [0..<next_conn x])" for x by (simp add: owned_def g_def)
  have "map (g s) [0..<?c] = map (g (srv w)) [0..<?c]" by (simp add: g_def assms(2))
  moreover have "g s ?c = []" by (simp add: g_def assms(2) new_connection_def conn_blocks_def spy_rw_buffer_init_def)
  moreover have "next_conn s = Suc ?c" by (simp add: assms(2))
  ultimately have "owned s = owned (srv w)" by (simp add: g del: map_eq_conv)
  moreover have "rwb_ok m spy_rw_buffer_init" for m by (simp add: rwb_ok_def cursor_ok_def spy_rw_buffer_init_def)
  ultimately show "bufs_ok s" using i(4) by (auto simp: bufs_ok_def assms(2) new_connection_def split: if_splits)
qed

lemma inj_insert: "inj_on f (dom f) \<Longrightarrow> Some d \<notin> range f \<Longrightarrow> inj_on (f(c \<mapsto> d)) (dom (f(c \<mapsto> d)))"
  by (rule inj_onI) (metis domD domI fun_upd_other fun_upd_same inj_onD rangeI)

lemma range_add: "f c = None \<Longrightarrow> Some x \<in> range f \<Longrightarrow> Some x \<in> range (f(c \<mapsto> d))"
  by (metis fun_upd_other imageE option.distinct(1) rangeI)

lemma new_conns_ok:
  assumes "srv_inv cur t hand w" "unused_fd w fd" "fd < setsize w" "setsize w' = setsize w"
    and "events w' = (events w)(fd := add_event AE_READABLE ReadHandler (Some (next_conn (srv w))) (events w fd))"
    and "next_conn s = next_conn (srv w) + 1" "conns s = (conns (srv w))(next_conn (srv w) \<mapsto> new_connection fd)" "owners t s = owners t (srv w)"
  shows "conns_ok cur t (w'\<lparr>srv := s\<rparr>)"
proof -
  let ?c = "next_conn (srv w)"
  have k: "conns_ok cur t w" using assms(1) by (simp add: srv_inv_def)
  note n = inv_next_conn [OF assms(1)]
  have m0: "fe_mask (events w fd) = 0" using assms(2,3) by (simp add: unused_fd_def aeGetFileEvents_def)
  have m: "aeGetFileEvents fd' w' = (if fd' = fd then 1 else aeGetFileEvents fd' w)" for fd'
    using assms(3,4) m0 by (simp add: aeGetFileEvents_def assms(5) add_event_def AE_READABLE_def)
  have e: "fd_of s = (fd_of (srv w))(?c := Some fd)" by (auto simp: fd_of_def assms(7) new_connection_def fun_eq_iff)
  have other: "conn_fd cn \<noteq> fd" if "conns (srv w) c' = Some cn" for c' cn
    using assms(2) that by (auto simp: unused_fd_def fd_of_def image_iff) (metis option.map(2))
  have "conn_ok cur (owners t s) (w'\<lparr>srv := s\<rparr>) c' cn'" if "conns s c' = Some cn'" for c' cn'
  proof (cases "c' = ?c")
    case True
    then have "cn' = new_connection fd" using that assms(7) by simp
    moreover have "fd \<noteq> 0" using assms(2) by (simp add: unused_fd_def)
    ultimately show ?thesis using n(2,3) True m0
      by (simp add: conn_ok_def phase_ok_def reg_ok_def m assms(5,6,8) new_connection_def add_event_def AE_READABLE_def AE_WRITABLE_def)
  next
    case False
    then have c': "conns (srv w) c' = Some cn'" using that assms(7) by simp
    then show ?thesis using conns_ok_parts(1) [OF k c'] other [OF c'] by (simp add: conn_ok_def m assms(5,6,8))
  qed
  moreover have "fds_ok (w'\<lparr>srv := s\<rparr>)"
  proof -
    have f: "fds_ok w" using k by (simp add: conns_ok_def)
    then have "inj_on (fd_of s) (dom (fd_of s))" unfolding e using assms(2) by (intro inj_insert) (simp_all add: fds_ok_def unused_fd_def)
    moreover have "Some fd' \<in> range (fd_of s) \<or> aeGetFileEvents fd' w' = 1 \<and> (rfileProc (events w' fd') = Some AcceptHandler \<or> rfileProc (events w' fd') = Some WqThreadDone)"
      if "aeGetFileEvents fd' w' \<noteq> 0" for fd'
    proof (cases "fd' = fd")
      case False
      have "fd_of (srv w) ?c = None" using n(1) by (simp add: fd_of_def)
      then have "Some fd' \<in> range (fd_of (srv w)) \<Longrightarrow> Some fd' \<in> range (fd_of s)" unfolding e by (rule range_add)
      with f that False show ?thesis unfolding fds_ok_def m assms(5) by auto
    qed (auto simp: e image_iff)
    ultimately show ?thesis by (simp add: fds_ok_def)
  qed
  moreover have "conns s c' \<noteq> None" if "c' \<in> set (owners t s) \<or> c' \<in> cur" for c'
    using that conns_ok_parts(4,5) [OF k, of c'] assms(7,8) by auto
  ultimately show ?thesis using conns_ok_parts(3) [OF k] assms(8) by (simp add: conns_ok_def)
qed

lemma srv_inv_ctl: "srv_inv cur t hand (w\<lparr>ctl_ok := oks\<rparr>) = srv_inv cur t hand w"
  by (simp add: srv_inv_def loop_ok_def conns_ok_def fds_ok_def conn_ok_def aeGetFileEvents_def)

lemma inv_skip_conn:
  assumes "srv_inv cur t hand w"
  shows "srv_inv cur t hand (w\<lparr>srv := (srv w)\<lparr>next_conn := next_conn (srv w) + 1, conn_mem := k\<rparr>\<rparr>)"
proof -
  let ?s = "(srv w)\<lparr>next_conn := next_conn (srv w) + 1, conn_mem := k\<rparr>"
  have i: "conns_ok cur t w" "jobs_ok t hand (srv w)" "store_ok t (srv w)" "stats_ok t (srv w)" "bufs_ok (srv w)" "loop_ok w"
    using assms by (auto simp: srv_inv_def)
  have "fd_of ?s = fd_of (srv w)" by (simp add: fd_of_def fun_eq_iff)
  moreover have "conn_ok cur (owners t (srv w)) (w\<lparr>srv := ?s\<rparr>) c cn" if "conns (srv w) c = Some cn" for c cn
    using conns_ok_parts(1) [OF i(1) that] by (simp add: conn_ok_def)
  moreover have "owners t ?s = owners t (srv w)" by (rule owners_cong) simp_all
  ultimately have "conns_ok cur t (w\<lparr>srv := ?s\<rparr>)" using i(1) by (simp add: conns_ok_def fds_ok_def)
  moreover have "owned ?s = owned (srv w)" using inv_next_conn(1) [OF assms] by (simp add: owned_def)
  then have "bufs_ok ?s" using i(5) by (simp add: bufs_ok_def)
  moreover have "jobs_ok t hand ?s" "store_ok t ?s" "stats_ok t ?s"
    using i jobs_ok_cong [of ?s "srv w"] store_ok_cong [of ?s "srv w"] stats_ok_cong [of ?s "srv w"] by simp_all
  ultimately show ?thesis using i(6) by (simp add: srv_inv_def)
qed

lemma inv_intro:
  assumes "conns_ok cur t (w\<lparr>srv := s\<rparr>)" "jobs_ok t hand s" "store_ok t s" "stats_ok t s" "bufs_ok s" "loop_ok w"
  shows "srv_inv cur t hand (w\<lparr>srv := s\<rparr>)"
  using assms by (simp add: srv_inv_def)

lemma create_conn_ok:
  assumes "srv_inv cur t hand w" "unused_fd w fd"
  shows "srv_inv cur t hand (spy_create_client_connection fd w)" "same_time w (spy_create_client_connection fd w)"
proof -
  let ?c = "next_conn (srv w)" and ?k = "conn_mem (srv w) - 1"
  let ?s1 = "(srv w)\<lparr>next_conn := ?c + 1, conn_mem := ?k, conns := (conns (srv w))(?c \<mapsto> new_connection fd)\<rparr>"
  let ?w1 = "w\<lparr>srv := ?s1\<rparr>"
  obtain r w2 where e: "aeCreateFileEvent fd AE_READABLE ReadHandler (Some ?c) ?w1 = (r, w2)" by fastforce
  have l1: "loop_ok ?w1" using assms(1) by (simp add: srv_inv_def)
  have s2: "srv w2 = ?s1" using srv_create [OF e] by simp
  have t2: "same_time w w2" using same_time_create [OF e] by simp
  have "srv_inv cur t hand (spy_create_client_connection fd w) \<and> same_time w (spy_create_client_connection fd w)"
  proof (cases "conn_mem (srv w) = 0")
    case True
    then show ?thesis using assms(1) by (simp add: spy_create_client_connection_def)
  next
    case False
    let ?f = "\<lambda>st :: spy_statistic. st\<lparr>conn_count := conn_count st + 1\<rparr>"
    have eq: "spy_create_client_connection fd w = (if r = AE_ERR then w2\<lparr>srv := (srv w2)\<lparr>conns := (conns (srv w2))(?c := None)\<rparr>\<rparr> else upd_stat ?f w2)"
      using e False by (simp add: spy_create_client_connection_def Let_def put_conn_def new_connection_def)
    from create_file_event [OF l1 _ e] consider
      (ok) "loop_ok w2" "r = AE_OK" "fd < setsize w"
        "events w2 = (events w)(fd := add_event AE_READABLE ReadHandler (Some ?c) (events w fd))" "setsize w2 = setsize w"
      | (err) oks where "loop_ok w2" "r = AE_ERR" "w2 = ?w1\<lparr>ctl_ok := oks\<rparr>" by (auto simp: AE_READABLE_def)
    then show ?thesis
    proof cases
      case ok
      let ?s = "?s1\<lparr>statistic := ?f (statistic (srv w))\<rparr>"
      have w': "spy_create_client_connection fd w = w2\<lparr>srv := ?s\<rparr>" unfolding eq using ok(2) by (simp add: upd_stat_def s2 AE_OK_def AE_ERR_def)
      have "?s = (srv w)\<lparr>next_conn := ?c + 1, conn_mem := ?k, conns := (conns (srv w))(?c \<mapsto> new_connection fd),
        statistic := (statistic (srv w))\<lparr>conn_count := conn_count (statistic (srv w)) + 1\<rparr>\<rparr>" by simp
      note p = new_parts [OF assms(1) this]
      have "conns_ok cur t (w2\<lparr>srv := ?s\<rparr>)" by (rule new_conns_ok [OF assms ok(3,5,4) _ _ p(5)]) simp_all
      from inv_intro [OF this p(1-4) ok(1)] show ?thesis unfolding w' using t2 by simp
    next
      case err
      let ?s = "(srv w)\<lparr>next_conn := ?c + 1, conn_mem := ?k\<rparr>"
      have "(conns (srv w))(?c := None) = conns (srv w)" using inv_next_conn(1) [OF assms(1)] by (simp add: fun_upd_idem)
      then have w': "spy_create_client_connection fd w = w\<lparr>ctl_ok := oks, srv := ?s\<rparr>" unfolding eq using err(2) by (simp add: s2) (simp add: err(3))
      have "srv_inv cur t hand (w\<lparr>ctl_ok := oks\<rparr>)" using assms(1) by (simp add: srv_inv_ctl)
      from inv_skip_conn [OF this, of ?k] show ?thesis unfolding w' by (simp add: same_time_def)
    qed
  qed
  then show "srv_inv cur t hand (spy_create_client_connection fd w)" "same_time w (spy_create_client_connection fd w)" by blast+
qed

lemma accept_ok:
  assumes "srv_inv cur t hand w" "\<And>fd q. accept_queue (srv w) = fd # q \<Longrightarrow> unused_fd w fd"
  shows "srv_inv cur t hand (spy_accept_handler w) \<and> same_time w (spy_accept_handler w)"
proof (cases "accept_queue (srv w)")
  case (Cons fd q)
  let ?s = "(srv w)\<lparr>accept_queue := q, nonblock := (nonblock (srv w))(fd := True), sock_in := (sock_in (srv w))(fd := []),
    sock_eof := (sock_eof (srv w))(fd := False), osys := (osys (srv w))\<lparr>files := (files (osys (srv w)))(fd := [])\<rparr>\<rparr>"
  have e: "spy_accept_handler w = spy_create_client_connection fd (w\<lparr>srv := ?s\<rparr>)" using Cons by (simp add: spy_accept_handler_def Let_def)
  have "fd_of ?s = fd_of (srv w)" by (simp add: fd_of_def fun_eq_iff)
  then have "unused_fd (w\<lparr>srv := ?s\<rparr>) fd" using assms(2) [OF Cons] by (simp add: unused_fd_def)
  moreover have "srv_inv cur t hand (w\<lparr>srv := ?s\<rparr>)" using assms(1) by (simp add: srv_inv_cong)
  ultimately show ?thesis unfolding e using create_conn_ok [of cur t hand "w\<lparr>srv := ?s\<rparr>" fd] by simp
qed (use assms(1) in \<open>simp add: spy_accept_handler_def\<close>)

end
