(* ===== verification/Spy_Worker.thy ===== *)
theory Spy_Worker
  imports Spy_Request
begin

text \<open>
  The works that the threads of the queue run: each changes one job, the buffers of its connection, and, for a write, its
  chunk, and keeps the invariant of the server.
\<close>

section \<open>What a work changes\<close>

lemma next_readable_cases:
  assumes "rwb_ok m b" "spy_rw_buffer_next_readable m b = Some (b', nxt)"
  obtains "nxt = None" "b' = b"
  | area len where "nxt = Some (area, len)" "0 < len" "rwb_ok m b'" "write_side b' = write_side b"
      "\<forall>k\<le>len. rwb_ok m (advance_read k b') \<and> write_side (advance_read k b') = write_side b"
proof (cases "unread m b = []")
  case True
  then show ?thesis using rd.nxt_empty [OF assms(1)] assms(2) that(1) by simp
next
  case False
  then show ?thesis using rd.nxt_data [OF assms(1) False] assms(2) that(2) by auto
qed

lemma write_body_frame:
  "rwb_ok m b \<Longrightarrow> write_body_loop m fd n b off s = Some (err, n', b', s') \<Longrightarrow> rwb_ok m b' \<and> write_side b' = write_side b"
proof (induction "nat n" arbitrary: n b off s rule: less_induct)
  case less
  show ?case
  proof (cases "n > 0")
    case True
    then obtain b1 nxt where nx: "spy_rw_buffer_next_readable m b = Some (b1, nxt)"
      using less.prems(2) by (auto simp: write_body_loop.simps [of m fd n] split: bind_splits)
    from less.prems(1) nx show ?thesis
    proof (cases rule: next_readable_cases)
      case 1
      then show ?thesis using less.prems nx True by (simp add: write_body_loop.simps [of m fd n])
    next
      case (2 area len)
      define k where "k = min (int len) n"
      have k: "0 < k" "nat k \<le> len" "nat (n - k) < nat n" using True 2(2) by (auto simp: k_def)
      obtain data where d: "load_area m area (nat k) = Some data"
        using less.prems(2) True nx 2(1) by (auto simp: write_body_loop.simps [of m fd n] Let_def k_def split: bind_splits)
      obtain r s1 where p: "spy_pwrite s fd data (unat off) = (r, s1)" by fastforce
      have e: "write_body_loop m fd n b off s = (if r \<noteq> k then Some (True, n, b1, s1)
          else write_body_loop m fd (n - k) (advance_read (nat k) b1) (off + of_int k) s1)"
        using True nx 2(1) d p k(1) by (simp add: write_body_loop.simps [of m fd n] k_def [symmetric] advance_read_def)
      have a: "rwb_ok m (advance_read (nat k) b1)" "write_side (advance_read (nat k) b1) = write_side b"
        using 2(5) k(2) by auto
      show ?thesis
      proof (cases "r = k")
        case True
        then have l: "write_body_loop m fd (n - k) (advance_read (nat k) b1) (off + of_int k) s1 = Some (err, n', b', s')"
          using less.prems(2) e by simp
        show ?thesis using less.hyps [OF k(3) a(1) l] a(2) by simp
      next
        case False
        then show ?thesis using less.prems(2) e 2(3,4) by simp
      qed
    qed
  next
    case False
    then show ?thesis using less.prems by (simp add: write_body_loop.simps [of m fd n])
  qed
qed

lemma read_body_frame:
  assumes "rwb_ok m b" "read_body_loop fd n b off m s = Some (err, b', m', s')"
  shows "rwb_ok m' b' \<and> read_side b' = read_side b \<and> touched b m m'"
  using assms
proof (induction m b n arbitrary: off s rule: wr.produce_induct)
  case (finish m b)
  then show ?case by (simp add: read_body_loop.simps [of fd 0] wr.touch_refl)
next
  case (full m b n)
  then show ?case by (simp add: read_body_loop.simps [of fd n])
next
  case (more m b b1 a k n)
  define l where "l = min n k"
  have l: "0 < l" "l \<le> k" "l \<le> n" using more.hyps(2, 8) by (auto simp: l_def)
  obtain r bs s1 where p: "spy_pread s fd l (unat off) = (r, bs, s1)" by (metis prod_cases3)
  note pr = spy_pread_ok(2) [OF p] and pl = spy_pread_length [OF p]
  obtain m1 where m1: "store_area m a bs = Some m1" "rwb_ok m1 (advance_write (length bs) b1)"
    "read_side (advance_write (length bs) b1) = read_side b" "touched b m m1"
    using more.hyps(10) [of bs] pl l(2) by (meson order.trans)
  have step: "read_body_loop fd n b off m s =
      (if r \<noteq> int l then Some (True, b1, m1, s1)
       else read_body_loop fd (n - l) (advance_write l b1) (off + of_nat l) m1 s1)"
    using more.hyps(2, 3) p m1(1) l
    by (simp add: read_body_loop.simps [of fd n] l_def [symmetric] advance_write_def)
  show ?case
  proof (cases "r = int l")
    case False
    have "rwb_ok m1 b1" using more.hyps(4) same_blocks_ok [OF m1(4) [unfolded touched_def]] by simp
    then show ?thesis using False step more.prems more.hyps(6) m1(4) by simp
  next
    case True
    then have bl: "length bs = l" using pr l(1) by auto
    note m1 = m1 [unfolded bl]
    have "rwb_ok m' b' \<and> read_side b' = read_side (advance_write l b1) \<and> touched (advance_write l b1) m1 m'"
      using more.IH [OF l(1,3) m1(2), of "off + of_nat l" s1] more.prems step True by simp
    then show ?thesis using wr.touch_trans [OF m1(4) _ m1(3)] m1(3) by simp
  qed
qed

lemma adler32_frame:
  assumes "rwb_ok m b" "spy_buffer_adler32 m 0 b len = Some (ck, b')"
  shows "rwb_ok m b'" "write_side b' = write_side b"
proof -
  have "len \<le> write_pos b - read_pos b" using assms(2) by (simp add: spy_buffer_adler32_def split: if_splits)
  moreover have "reduced (halves 0)" by (simp add: halves_def reduced_def BASE_def)
  ultimately show "rwb_ok m b'" "write_side b' = write_side b" using buffer_adler32_ref [OF assms(1)] assms(2) by fastforce+
qed

lemma write_file_frame:
  assumes "rwb_ok m (request cn)" "spy_write_file sync job cn ch m s = Some (job', cn', ch', s')"
  shows "job_conn job' = job_conn job" "job_chunk job' = job_chunk job" "job_work job' = job_work job" "job_arg job' = job_arg job"
    "rwb_ok m (request cn')" "write_side (request cn') = write_side (request cn)"
    "conn_state cn' = conn_state cn" "conn_fd cn' = conn_fd cn" "rsp_body cn' = rsp_body cn"
    "c_chunk_id ch' = c_chunk_id ch"
proof -
  obtain off fm f req where a: "job_arg job = JobOffset off"
    "spy_fill_file_meta (uninit FILE_META_SIZE) (job_file job) (request cn) m s = Some (fm, f, req)"
    using assms(2) by (auto simp: spy_write_file_def split: bind_splits io_arg.splits)
  have r: "rwb_ok m req" "write_side req = write_side (request cn)"
    using a(2) adler32_frame [OF assms(1)] by (auto simp: spy_fill_file_meta_def Let_def split: bind_splits if_splits)
  have "job_conn job' = job_conn job \<and> job_chunk job' = job_chunk job \<and> job_work job' = job_work job \<and> job_arg job' = job_arg job \<and>
    (rwb_ok m (request cn') \<and> write_side (request cn') = write_side (request cn)) \<and>
    conn_state cn' = conn_state cn \<and> conn_fd cn' = conn_fd cn \<and> rsp_body cn' = rsp_body cn \<and>
    c_chunk_id ch' = c_chunk_id ch"
    using assms(2) a r write_body_frame [OF r(1)]
    by (auto simp: spy_write_file_def Let_def split: bind_splits prod.splits if_splits)
  then show "job_conn job' = job_conn job" "job_chunk job' = job_chunk job" "job_work job' = job_work job" "job_arg job' = job_arg job"
    "rwb_ok m (request cn')" "write_side (request cn') = write_side (request cn)"
    "conn_state cn' = conn_state cn" "conn_fd cn' = conn_fd cn" "rsp_body cn' = rsp_body cn"
    "c_chunk_id ch' = c_chunk_id ch" by blast+
qed

lemma read_file_frame:
  assumes "rwb_ok m (rsp_body cn)" "spy_read_file job cn ch m s = Some (job', cn', m', s')"
  shows "job_conn job' = job_conn job" "job_chunk job' = job_chunk job" "job_work job' = job_work job" "job_arg job' = job_arg job"
    "buf_step m (rsp_body cn) m' (rsp_body cn')" "conn_state cn' = conn_state cn" "conn_fd cn' = conn_fd cn" "request cn' = request cn"
proof -
  obtain e where e: "job_arg job = JobEntry e" "unat (e_size e) \<le> cap (rsp_body cn)"
    using assms(2) by (auto simp: spy_read_file_def split: bind_splits io_arg.splits if_splits)
  then obtain err b m1 s1 where l: "read_body_loop (c_fd ch) (unat (e_size e)) (rsp_body cn) (e_offset e) m s = Some (err, b, m1, s1)"
    using assms(2) by (auto simp: spy_read_file_def split: bind_splits)
  note f = read_body_frame [OF assms(1) l]
  have st: "buf_step m (rsp_body cn) m1 b" using f by (intro buf_step_touched) (auto simp: read_side_def)
  have st': "buf_step m (rsp_body cn) m1 b2" if "spy_rw_buffer_read_n m1 b FILE_META_SIZE = Some (x, b1)"
    "spy_buffer_adler32 m1 0 b1 len = Some (ck, b2)" for x b1 len ck b2
  proof -
    have b1: "rwb_ok m1 b1" "write_side b1 = write_side b" using read_n_ok [of m1 b FILE_META_SIZE] f that(1) by auto
    note b2 = adler32_frame [OF b1(1) that(2)]
    show ?thesis by (rule buf_step_trans [OF st buf_step_cursor [OF b2(1)]]) (use b1 b2 in \<open>simp add: write_side_def\<close>)
  qed
  have "job_conn job' = job_conn job \<and> job_chunk job' = job_chunk job \<and> job_work job' = job_work job \<and> job_arg job' = job_arg job \<and>
    buf_step m (rsp_body cn) m' (rsp_body cn') \<and> conn_state cn' = conn_state cn \<and> conn_fd cn' = conn_fd cn \<and> request cn' = request cn"
    using assms(2) e l st st'
    by (auto simp: spy_read_file_def Let_def split: bind_splits prod.splits if_splits)
  then show "job_conn job' = job_conn job" "job_chunk job' = job_chunk job" "job_work job' = job_work job" "job_arg job' = job_arg job"
    "buf_step m (rsp_body cn) m' (rsp_body cn')" "conn_state cn' = conn_state cn" "conn_fd cn' = conn_fd cn" "request cn' = request cn" by blast+
qed

lemma dump_file_frame:
  "spy_dump_chunkfile cn ch s = Some (r, cn', s') \<Longrightarrow> 
   conn_state cn' = conn_state cn \<and> conn_fd cn' = conn_fd cn \<and> request cn' = request cn \<and> rsp_body cn' = rsp_body cn"
  by (auto simp: spy_dump_chunkfile_def Let_def split: bind_splits if_splits)

section \<open>A work keeps the invariant\<close>

lemma inv_os [simp]: "srv_inv cur t hand (set_os s w) = srv_inv cur t hand w"
  unfolding set_os_def by (rule srv_inv_cong) simp_all

lemma inv_rand: "next_rand w = (r, w') \<Longrightarrow> srv_inv cur t hand w' = srv_inv cur t hand w"
  using srv_inv_cong [of "(srv w)\<lparr>rands := rs\<rparr>" w for rs] by (auto simp: next_rand_def split: list.splits)

lemma chunks_ok_same:
  assumes "chunks_ok st" "c_chunk_id ch = c_chunk_id (chunk_tab st a)"
  shows "chunks_ok (st\<lparr>chunk_tab := (chunk_tab st)(a := ch)\<rparr>)"
proof -
  have "c_chunk_id \<circ> (chunk_tab st)(a := ch) = c_chunk_id \<circ> chunk_tab st" using assms(2) by (auto simp: fun_eq_iff)
  moreover have "c_chunk_id (((chunk_tab st)(a := ch)) a') = c_chunk_id (chunk_tab st a')" for a' using assms(2) by simp
  ultimately show ?thesis using assms(1) by (simp add: chunks_ok_def del: fun_upd_apply)
qed

lemma inv_set_chunk:
  assumes "srv_inv cur t hand w" "c_chunk_id ch = c_chunk_id (chunk_tab (store (srv w)) a)"
  shows "srv_inv cur t hand (set_chunk a ch w)"
  unfolding set_chunk_def
  by (rule inv_store [OF assms(1)]) (use inv_store_parts [OF assms(1)] chunks_ok_same assms(2) in simp_all)

lemma inv_set_job:
  assumes "srv_inv cur t hand w" "job_conn job = job_conn (io_jobs (srv w) j)" "job_chunk job = job_chunk (io_jobs (srv w) j)"
    "job_work job = job_work (io_jobs (srv w) j)" "job_arg job = job_arg (io_jobs (srv w) j)"
  shows "srv_inv cur t hand (set_job j job w)"
  unfolding set_job_def
proof (rule inv_view [OF assms(1)])
  let ?s = "(srv w)\<lparr>io_jobs := (io_jobs (srv w))(j := job)\<rparr>"
  have "work_view ?s wk = work_view (srv w) wk" for wk using assms(2-5)
    by (cases wk) (auto simp: work_view_def work_conn_def work_ok_def writes_def reads_def work_chunk_def)
  then show "\<forall>wk\<in>set (works t (srv w)). work_view ?s wk = work_view (srv w) wk" by blast
qed (use assms(1) in \<open>simp_all add: srv_inv_def jobs_ok_def\<close>)

lemma io_put [simp]:
  "io_jobs (srv (put_conn c cn w)) = io_jobs (srv w)" "io_jobs (srv (set_chunk a ch w)) = io_jobs (srv w)"
  "io_jobs (srv (set_os s w)) = io_jobs (srv w)" "io_jobs (srv (set_mem m w)) = io_jobs (srv w)"
  "conns (srv (set_chunk a ch w)) = conns (srv w)" "conns (srv (set_os s w)) = conns (srv w)"
  "mem (srv (set_chunk a ch w)) = mem (srv w)" "mem (srv (set_os s w)) = mem (srv w)" "store (srv (set_os s w)) = store (srv w)"
  by (simp_all add: put_conn_def set_chunk_def set_os_def set_mem_def upd_store_def)

lemma queued_put [simp]:
  "wq_queued (srv (put_conn c cn w)) = wq_queued (srv w)" "wq_queued (srv (set_chunk a ch w)) = wq_queued (srv w)"
  "wq_queued (srv (set_os s w)) = wq_queued (srv w)" "wq_queued (srv (set_mem m w)) = wq_queued (srv w)"
  "wq_queued (srv (set_job j job w)) = wq_queued (srv w)"
  by (simp_all add: put_conn_def set_chunk_def set_os_def set_mem_def upd_store_def set_job_def)

lemma time_put [simp]:
  "same_time w (put_conn c cn w') = same_time w w'" "same_time w (set_chunk a ch w') = same_time w w'"
  "same_time w (set_os s w') = same_time w w'" "same_time w (set_mem m w') = same_time w w'" "same_time w (set_job j job w') = same_time w w'"
  by (simp_all add: put_conn_def set_chunk_def set_os_def set_mem_def upd_store_def set_job_def)

lemma run_io_job_ok:
  assumes "srv_inv cur t hand w" "run_io_job j w = Some w'"
  shows "srv_inv cur t hand w' \<and> same_time w w' \<and> wq_queued (srv w') = wq_queued (srv w)"
proof -
  define job where "job = io_jobs (srv w) j"
  obtain a cn where a: "job_chunk job = Some a" "conns (srv w) (job_conn job) = Some cn"
    using assms(2) by (auto simp: run_io_job_def job_def get_conn_def Let_def split: bind_splits)
  note b = inv_rwb [OF assms(1) a(2)]
  consider "job_work job = WWrite" | "job_work job = WRead" | "job_work job = WCheck"
    using assms(2) a by (cases "job_work job") (simp_all add: run_io_job_def job_def [symmetric] get_conn_def Let_def)
  then show ?thesis
  proof cases
    case 1
    obtain job' cn' ch' s' where
      r: "spy_write_file (cfg_sync (config (srv w)) \<noteq> 0) job cn (chunk_tab (store (srv w)) a) (mem (srv w)) (osys (srv w)) = Some (job', cn', ch', s')"
      "w' = set_job j job' (put_conn (job_conn job) cn' (set_chunk a ch' (set_os s' w)))"
      using assms(2) a 1 by (auto simp: run_io_job_def job_def [symmetric] get_conn_def Let_def split: bind_splits)
    note f = write_file_frame [OF b(1) r(1)]
    have c: "srv_inv cur t hand (set_chunk a ch' (set_os s' w))" by (rule inv_set_chunk) (simp_all add: assms(1) f(10))
    have "srv_inv cur t hand (put_conn (job_conn job) cn' (set_chunk a ch' (set_os s' w)))"
      by (rule inv_put_same [OF c]) (use a b f(5-9) in \<open>simp_all add: write_side_def\<close>)
    then show ?thesis using r(2) f(1-4) by (auto intro!: inv_set_job simp: job_def)
  next
    case 2
    obtain job' cn' m' s' where
      r: "spy_read_file job cn (chunk_tab (store (srv w)) a) (mem (srv w)) (osys (srv w)) = Some (job', cn', m', s')"
      "w' = set_job j job' (put_conn (job_conn job) cn' (set_mem m' (set_os s' w)))"
      using assms(2) a 2 by (auto simp: run_io_job_def job_def [symmetric] get_conn_def Let_def split: bind_splits)
    note f = read_file_frame [OF b(2) r(1)]
    have c: "srv_inv cur t hand (set_os s' w)" using assms(1) by simp
    have "srv_inv cur t hand (put_conn (job_conn job) cn' (set_mem m' (set_os s' w)))"
      by (rule inv_put_rsp [OF c]) (use a f(5-8) in simp_all)
    then show ?thesis using r(2) f(1-4) by (auto intro!: inv_set_job simp: job_def)
  next
    case 3
    obtain rnd w1 where n: "next_rand w = (rnd, w1)" by fastforce
    have w1: "io_jobs (srv w1) = io_jobs (srv w)" "same_time w w1" "wq_queued (srv w1) = wq_queued (srv w)"
      using n by (auto simp: next_rand_def split: list.splits)
    obtain r s' where "w' = set_job j (job\<lparr>retcode := r\<rparr>) (set_os s' w1)"
      using assms(2) a 3 n by (auto simp: run_io_job_def job_def [symmetric] get_conn_def Let_def spy_check_chunk_def split: prod.splits)
    then show ?thesis using inv_rand [OF n] assms(1) w1 by (auto intro!: inv_set_job simp: job_def)
  qed
qed

lemma run_dump_job_ok:
  assumes "srv_inv cur t hand w" "run_dump_job d w = Some w'"
  shows "srv_inv cur t hand w' \<and> same_time w w' \<and> wq_queued (srv w') = wq_queued (srv w)"
proof -
  obtain dj cn r cn' s' where r: "dump_jobs (srv w) d = Some dj" "conns (srv w) (dj_conn dj) = Some cn" 
    "conn_state cn' = conn_state cn \<and> conn_fd cn' = conn_fd cn \<and> request cn' = request cn \<and> rsp_body cn' = rsp_body cn"
    "w' = (let w = put_conn (dj_conn dj) cn' (set_os s' w) in w\<lparr>srv := (srv w)\<lparr>dump_jobs := (dump_jobs (srv w))(d \<mapsto> dj\<lparr>dj_retcode := r\<rparr>)\<rparr>\<rparr>)"
    using assms(2) by (auto simp: run_dump_job_def get_conn_def Let_def dest!: dump_file_frame split: bind_splits)
  define w1 where "w1 = put_conn (dj_conn dj) cn' (set_os s' w)"
  have c: "srv_inv cur t hand (set_os s' w)" using assms(1) by simp
  have w1: "srv_inv cur t hand w1" unfolding w1_def
    by (rule inv_put_same [OF c]) (use r(2,3) inv_rwb [OF assms(1) r(2)] in simp_all)
  have d: "dump_jobs (srv w1) = dump_jobs (srv w)" by (simp add: w1_def put_conn_def set_os_def)
  let ?s = "(srv w1)\<lparr>dump_jobs := (dump_jobs (srv w1))(d \<mapsto> dj\<lparr>dj_retcode := r\<rparr>)\<rparr>"
  have w': "w' = w1\<lparr>srv := ?s\<rparr>" using r(4) by (simp add: w1_def Let_def)
  have v: "work_view ?s wk = work_view (srv w1) wk" for wk using r(1) d
    by (cases wk) (auto simp: work_view_def work_conn_def work_ok_def writes_def reads_def work_chunk_def)
  have "srv_inv cur t hand w'" unfolding w'
    by (rule inv_view [OF w1]) (use v w1 r(1) d in \<open>simp_all add: srv_inv_def jobs_ok_def\<close>)
  then show ?thesis by (simp add: w' w1_def)
qed

lemma run_work_ok:
  assumes "srv_inv cur t hand w" "wk \<in> set (wq_queued (srv w))" "run_work wk w = Some w'"
  shows "srv_inv cur t hand w'" "same_time w w'"
proof -
  obtain w1 where w1: "(case wk of IoWork j \<Rightarrow> run_io_job j w | DumpWork d \<Rightarrow> run_dump_job d w) = Some w1"
    "w' = w1\<lparr>srv := (srv w1)\<lparr>wq_queued := remove1 wk (wq_queued (srv w1)), wq_finished := wq_finished (srv w1) @ [wk]\<rparr>\<rparr>"
    using assms(3) by (auto simp: run_work_def split: bind_splits)
  have i: "srv_inv cur t hand w1 \<and> same_time w w1 \<and> wq_queued (srv w1) = wq_queued (srv w)"
    using w1(1) run_io_job_ok [OF assms(1)] run_dump_job_ok [OF assms(1)] by (cases wk) simp_all
  then show "srv_inv cur t hand w'" using inv_finish [of wk w1] assms(2) w1(2) by simp
  show "same_time w w'" using i w1(2) by simp
qed

end
