(* ===== verification/Spy_Run.thy ===== *)
theory Spy_Run
  imports Spy_Worker
begin

text \<open>
  The running server as a transition system: the handlers of a fired descriptor, the round of the timers, a work run by a
  thread of the queue, and what comes from outside. Its invariant holds from the start on.
\<close>

section \<open>The handlers of a descriptor\<close>

lemma mask_events: "fd < setsize w \<Longrightarrow> aeGetFileEvents fd w = fe_mask (events w fd)"
  by (simp add: aeGetFileEvents_def)

lemma conn_of_fd:
  assumes "srv_inv {} [] [] w" "Some fd \<in> range (fd_of (srv w))"
  obtains c cn where "conns (srv w) c = Some cn" "conn_fd cn = fd" "conn_ok {} (owners [] (srv w)) w c cn"
proof -
  obtain c where "fd_of (srv w) c = Some fd" using assms(2) by (metis imageE)
  then obtain cn where cn: "conns (srv w) c = Some cn" "conn_fd cn = fd" by (auto simp: fd_of_def)
  have "conns_ok {} [] w" using assms(1) by (simp add: srv_inv_def)
  then show ?thesis using that cn conns_ok_parts(1) by blast
qed

lemma readable_cases:
  assumes "srv_inv {} [] [] w" "fd < setsize w" "fe_mask (events w fd) AND AE_READABLE \<noteq> 0"
  obtains c where "receiving c [] [] w" "rfileProc (events w fd) = Some ReadHandler" "clientData (events w fd) = Some c"
  | "rfileProc (events w fd) = Some AcceptHandler" | "rfileProc (events w fd) = Some WqThreadDone"
proof -
  let ?m = "aeGetFileEvents fd w"
  have m: "?m \<noteq> 0" "?m AND AE_READABLE \<noteq> 0" "fds_ok w" using assms by (auto simp: mask_events srv_inv_def conns_ok_def)
  then consider "Some fd \<in> range (fd_of (srv w))" | "rfileProc (events w fd) = Some AcceptHandler" | "rfileProc (events w fd) = Some WqThreadDone"
    unfolding fds_ok_def by blast
  then show ?thesis
  proof cases
    case 1
    then obtain c cn where c: "conns (srv w) c = Some cn" "conn_fd cn = fd" "conn_ok {} (owners [] (srv w)) w c cn"
      by (rule conn_of_fd [OF assms(1)])
    have p: "phase_ok {} (owners [] (srv w)) ?m c (conn_state cn)" "reg_ok ?m c (events w fd)" using c(2,3) by (simp_all add: conn_ok_def)
    have "c \<notin> set (owners [] (srv w))" using p(1) m(1) by (auto simp: phase_ok_def split: spy_conn_state.splits)
    then have "srv_inv {c} [] [] w" by (rule inv_grab [OF assms(1) c(1)])
    then have "receiving c [] [] w" using c(1,2) p(1) m(1) by (auto simp: receiving_def phase_ok_def split: spy_conn_state.splits)
    then show ?thesis using that(1) p(2) m(1,2) by (simp add: reg_ok_def)
  qed (use that in blast)+
qed

lemma writable_conn:
  assumes "srv_inv {} [] [] w" "fd < setsize w" "fe_mask (events w fd) AND AE_WRITABLE \<noteq> 0"
  obtains c where "sending c [] [] w" "wfileProc (events w fd) = Some WriteHandler" "clientData (events w fd) = Some c"
proof -
  let ?m = "aeGetFileEvents fd w"
  have m: "?m \<noteq> 0" "?m AND AE_WRITABLE \<noteq> 0" "fds_ok w" "?m \<noteq> 1" using assms by (auto simp: mask_events srv_inv_def conns_ok_def AE_WRITABLE_def)
  then have "Some fd \<in> range (fd_of (srv w))" unfolding fds_ok_def by blast
  then obtain c cn where c: "conns (srv w) c = Some cn" "conn_fd cn = fd" "conn_ok {} (owners [] (srv w)) w c cn"
    by (rule conn_of_fd [OF assms(1)])
  have p: "phase_ok {} (owners [] (srv w)) ?m c (conn_state cn)" "reg_ok ?m c (events w fd)" using c(2,3) by (simp_all add: conn_ok_def)
  have "c \<notin> set (owners [] (srv w))" using p(1) m(1) by (auto simp: phase_ok_def split: spy_conn_state.splits)
  then have "srv_inv {c} [] [] w" by (rule inv_grab [OF assms(1) c(1)])
  then have "sending c [] [] w" using c(1,2) p(1) m(1,4) by (auto simp: sending_def phase_ok_def split: spy_conn_state.splits)
  then show ?thesis using that p(2) m(1,2) by (simp add: reg_ok_def)
qed

text \<open>\<open>accept4\<close> returns a descriptor that is not open.\<close>

definition accept_fresh :: "world \<Rightarrow> bool" where
  "accept_fresh w \<longleftrightarrow> (case accept_queue (srv w) of [] \<Rightarrow> True | fd # q \<Rightarrow> unused_fd w fd)"

lemma read_event_ok:
  assumes "srv_inv {} [] [] w" "accept_fresh w" "fd < setsize w" "fe_mask (events w fd) AND AE_READABLE \<noteq> 0" "rfileProc (events w fd) = Some p"
  shows "fin w {} [] [] (file_proc spy_code p fd (clientData (events w fd)) msk w)"
  using assms(1,3,4)
proof (cases rule: readable_cases)
  case (1 c)
  then show ?thesis using assms(5) read_handler_fin [OF 1(1)] by (simp add: spy_code_def)
next
  case 2
  have "\<And>fd q. accept_queue (srv w) = fd # q \<Longrightarrow> unused_fd w fd" using assms(2) by (simp add: accept_fresh_def)
  then show ?thesis using 2 assms(5) accept_ok [OF assms(1)] by (simp add: spy_code_def fin_def)
next
  case 3
  then show ?thesis using assms(5) wq_done_ok [OF assms(1)] by (simp add: spy_code_def fin_def)
qed

lemma write_event_ok:
  assumes "srv_inv {} [] [] w" "fd < setsize w" "fe_mask (events w fd) AND AE_WRITABLE \<noteq> 0" "wfileProc (events w fd) = Some p"
  shows "fin w {} [] [] (file_proc spy_code p fd (clientData (events w fd)) msk w)"
  using assms(1-3)
proof (cases rule: writable_conn)
  case (1 c)
  then show ?thesis using assms(4) write_handler_fin [OF 1(1)] by (simp add: spy_code_def)
qed

lemma process_fired_ok:
  assumes "srv_inv {} [] [] w" "accept_fresh w" "fd < setsize w"
  shows "fin w {} [] [] (process_fired spy_code fd msk w)"
  unfolding process_fired_def
proof (rule fin_bind, goal_cases)
  case (1 x)
  obtain r w1 where x: "x = (r, w1)" by fastforce
  have w1: "srv_inv {} [] [] w1 \<and> same_time w w1"
  proof (cases "fe_mask (events w fd) AND msk AND AE_READABLE \<noteq> 0")
    case True
    then obtain p where p: "rfileProc (events w fd) = Some p" "file_proc spy_code p fd (clientData (events w fd)) msk w = Some w1"
      using 1 x by (auto split: bind_splits)
    have "fe_mask (events w fd) AND AE_READABLE \<noteq> 0" using True by (auto simp: and.left_commute and.assoc)
    from read_event_ok [OF assms this p(1), of msk] p(2) show ?thesis by (simp add: fin_def)
  next
    case False
    then show ?thesis using 1 x assms(1) by simp
  qed
  then have s: "fd < setsize w1" using assms(3) by (simp add: same_time_def)
  have f: "fin w {} [] [] (file_proc spy_code p fd (clientData (events w1 fd)) msk w1)"
    if "fe_mask (events w1 fd) AND msk AND AE_WRITABLE \<noteq> 0" "wfileProc (events w1 fd) = Some p" for p
  proof -
    have "fe_mask (events w1 fd) AND AE_WRITABLE \<noteq> 0" using that(1) by (auto simp: and.left_commute and.assoc)
    from write_event_ok [of w1 fd p msk, OF _ s this that(2)] w1 show ?thesis by (auto simp: fin_def intro: same_time_trans)
  qed
  show ?case unfolding x prod.case
    by (intro fin_if fin_bind) (use f w1 in \<open>auto simp: fin_Some\<close>)
qed

section \<open>Steps\<close>

text \<open>
  A step is one fired descriptor, one round of the timers, one work of the queue, or a change from outside: data, connections
  and the answers of the system calls to come.
\<close>

inductive srv_step :: "world \<Rightarrow> world \<Rightarrow> bool" where
  fire: "fd < setsize w \<Longrightarrow> accept_fresh w \<Longrightarrow> process_fired spy_code fd msk w = Some w' \<Longrightarrow> srv_step w w'"
| tick: "processTimeEvents spy_code w = Some (k, w') \<Longrightarrow> srv_step w w'"
| run: "wk \<in> set (wq_queued (srv w)) \<Longrightarrow> run_work wk w = Some w' \<Longrightarrow> srv_step w w'"
| outside: "srv_step w (w\<lparr>ctl_ok := oks, now := t, later := ts,
    srv := (srv w)\<lparr>osys := os, sock_in := inp, sock_eof := eof, accept_queue := q, conn_mem := k, rands := rs\<rparr>\<rparr>)"

abbreviation run_ok :: "world \<Rightarrow> bool" where
  "run_ok \<equiv> timers_ok (srv_inv {} [] []) cron_timer"

lemma fin_run: "run_ok w \<Longrightarrow> fin w {} [] [] (Some w') \<Longrightarrow> run_ok w'"
  by (simp add: timers_ok_def fin_def same_time_def)

lemma run_okD: "run_ok w \<Longrightarrow> srv_inv {} [] [] w"
  by (simp add: timers_ok_def)

lemma outside_inv:
  assumes "srv_inv cur t hand w"
  shows "srv_inv cur t hand (w\<lparr>ctl_ok := oks, now := x, later := ts,
    srv := (srv w)\<lparr>osys := os, sock_in := inp, sock_eof := eof, accept_queue := q, conn_mem := k, rands := rs\<rparr>\<rparr>)"
proof -
  let ?s = "(srv w)\<lparr>osys := os, sock_in := inp, sock_eof := eof, accept_queue := q, conn_mem := k, rands := rs\<rparr>"
  let ?w1 = "w\<lparr>ctl_ok := oks, now := x, later := ts\<rparr>"
  have "srv_inv cur t hand ?w1 = srv_inv cur t hand w"
    by (simp add: srv_inv_def loop_ok_def conns_ok_def fds_ok_def conn_ok_def aeGetFileEvents_def)
  moreover have "srv_inv cur t hand (?w1\<lparr>srv := ?s\<rparr>) = srv_inv cur t hand ?w1" by (rule srv_inv_cong) simp_all
  ultimately show ?thesis using assms by simp
qed

lemma step_run_ok: "run_ok w \<Longrightarrow> srv_step w w' \<Longrightarrow> run_ok w'"
proof -
  assume r: "run_ok w" "srv_step w w'"
  note i = run_okD [OF r(1)]
  from r(2) show ?thesis
  proof cases
    case (fire fd msk)
    with process_fired_ok [OF i fire(2,1), of msk] show ?thesis using fin_run [OF r(1)] by simp
  next
    case (tick k)
    then show ?thesis using cron.process_time_events [OF r(1)] by auto
  next
    case (run wk)
    then show ?thesis using run_work_ok [OF i run] fin_run [OF r(1)] fin_Some by blast
  next
    case (outside oks t ts os inp eof q k rs)
    then show ?thesis using r(1) outside_inv [OF i] by (simp add: timers_ok_def)
  qed
qed

interpretation steps: guarded_system srv_step run_ok
  by unfold_locales (rule step_run_ok)

text \<open>One round of the loop is a run, when \<open>accept4\<close> returns descriptors that are not open.\<close>

lemma process_all_run:
  assumes "process_all spy_code fs w = Some w'" "\<forall>(fd, msk)\<in>set fs. fd < setsize w" "run_ok w"
    and "\<And>fs1 fs2 w1. fs = fs1 @ fs2 \<Longrightarrow> process_all spy_code fs1 w = Some w1 \<Longrightarrow> accept_fresh w1"
  shows "srv_step\<^sup>*\<^sup>* w w'"
  using assms
proof (induction fs arbitrary: w)
  case (Cons x fs)
  obtain fd msk where x: "x = (fd, msk)" by fastforce
  obtain w1 where w1: "process_fired spy_code fd msk w = Some w1" "process_all spy_code fs w1 = Some w'"
    using Cons.prems(1) x by (auto split: bind_splits)
  have a: "accept_fresh w" using Cons.prems(4) [of "[]"] by simp
  have s: "srv_step w w1" using Cons.prems(2) x a w1(1) by (auto intro: srv_step.fire)
  have "setsize w1 = setsize w"
    using process_fired_ok [OF run_okD [OF Cons.prems(3)] a, of fd msk] Cons.prems(2) x w1(1) by (simp add: fin_def same_time_def)
  moreover have "accept_fresh w2" if "fs = fs1 @ fs2" "process_all spy_code fs1 w1 = Some w2" for fs1 fs2 w2
    using Cons.prems(4) [of "(fd, msk) # fs1" fs2 w2] that x w1(1) by simp
  ultimately have "srv_step\<^sup>*\<^sup>* w1 w'"
    using Cons.IH [OF w1(2) _ step_run_ok [OF Cons.prems(3) s]] Cons.prems(2) by simp
  with s show ?case by (rule converse_rtranclp_into_rtranclp)
qed simp

section \<open>The start\<close>

definition own_event :: "(spy_proc, nat) aeFileEvent \<Rightarrow> bool" where
  "own_event fe \<longleftrightarrow> fe_mask fe = 0 \<or> fe_mask fe = 1 \<and> (rfileProc fe = Some AcceptHandler \<or> rfileProc fe = Some WqThreadDone)"

definition own_events :: "world \<Rightarrow> bool" where
  "own_events w \<longleftrightarrow> loop_ok w \<and> (\<forall>fd. fd < setsize w \<longrightarrow> own_event (events w fd))"

lemma own_create:
  assumes "own_events w" "aeCreateFileEvent fd AE_READABLE p None w = (r, w')" "p = AcceptHandler \<or> p = WqThreadDone"
  shows "own_events w'" "srv w' = srv w" "same_time w w'"
    and "r \<noteq> AE_ERR \<Longrightarrow> fd < setsize w \<and> events w' = (events w)(fd := add_event AE_READABLE p None (events w fd))"
proof -
  show "same_time w w'" using assms(2) by simp
  have "loop_ok w" "AE_READABLE \<in> {1, 2, 3}" using assms(1) by (simp_all add: own_events_def AE_READABLE_def)
  note c = create_file_event [OF this assms(2)]
  have e: "own_event (add_event AE_READABLE p None fe)" if "own_event fe" for fe
    using that assms(3) by (auto simp: own_event_def add_event_def AE_READABLE_def)
  have o: "own_event (events w fd')" if "fd' < setsize w" for fd' using assms(1) that by (simp add: own_events_def)
  from c show "srv w' = srv w" by auto
  from c show "r \<noteq> AE_ERR \<Longrightarrow> fd < setsize w \<and> events w' = (events w)(fd := add_event AE_READABLE p None (events w fd))" by auto
  from c have "loop_ok w'" "setsize w' = setsize w" "events w' = events w \<or> fd < setsize w \<and> events w' = (events w)(fd := add_event AE_READABLE p None (events w fd))"
    by auto
  then show "own_events w'" using o e [OF o] by (auto simp: own_events_def)
qed

lemma own_inv:
  assumes "own_events w" "conns (srv w) = Map.empty" "works [] (srv w) = []" "dump_jobs (srv w) = Map.empty"
    and "pending_writes_size (srv w) = 0" "mset (free_io_jobs (srv w)) = mset [0..<DEF_MAX_IO_JOBS]"
    and "chunks_ok (store (srv w))" "index_ok (file_index (store (srv w)))" "pool_ok (mem (srv w)) []"
    and "reading_count (statistic (srv w)) = 0" "writing_count (statistic (srv w)) = 0" "conn_count (statistic (srv w)) = 0"
  shows "srv_inv {} [] [] w"
proof -
  have p: "pending_writes (srv w) = []" "qworks [] (srv w) = []" using assms(3) by (simp_all add: works_def)
  have b: "owners [] (srv w) = []" "busy [] (srv w) = []" "writers [] (srv w) = []" using assms(3) p by (simp_all add: owners_def busy_def writers_def)
  have o: "owned (srv w) = []" using assms(2) by (simp add: owned_def)
  have "distinct (free_io_jobs (srv w))" "set (free_io_jobs (srv w)) = {..<DEF_MAX_IO_JOBS}"
    using mset_eq_imp_distinct_iff [OF assms(6)] mset_eq_setD [OF assms(6)] by (auto simp: atLeast0LessThan)
  then have "jobs_ok [] [] (srv w)" using assms(4,5) p b by (simp add: jobs_ok_def)
  moreover have "conns_ok {} [] w" using assms(1,2) b
    by (auto simp: conns_ok_def own_events_def own_event_def aeGetFileEvents_def fds_ok_def fd_of_def dom_def not_le)
  moreover have "store_ok [] (srv w)" "stats_ok [] (srv w)" "bufs_ok (srv w)" "loop_ok w"
    using assms p b o by (simp_all add: store_ok_def stats_ok_def bufs_ok_def own_events_def)
  ultimately show ?thesis by (simp add: srv_inv_def)
qed

lemma init_jobs_loop_eq:
  "\<exists>js. init_jobs_loop i n s = s\<lparr>io_jobs := js, free_io_jobs := rev [i..<i + n] @ free_io_jobs s\<rparr>"
proof (induction n arbitrary: i s)
  case 0
  show ?case by (intro exI [of _ "io_jobs s"]) simp
next
  case (Suc n)
  have "[i..<i + Suc n] = i # [Suc i..<Suc i + n]" by (simp add: upt_conv_Cons)
  then show ?case using Suc [of "i + 1" "s\<lparr>io_jobs := (io_jobs s)(i := zero_job), free_io_jobs := i # free_io_jobs s\<rparr>"] by auto
qed

lemma init_jobs_conns: "conns (init_jobs_loop i n s) = conns s"
  using init_jobs_loop_eq [of i n s] by auto

lemma fresh_loop:
  fixes el :: "(spy_proc, nat) aeEventLoop" and s :: spy_server
  defines "w \<equiv> aeEventLoop.extend el (world.fields s)"
  assumes "aeCreateEventLoop avail epoll time0 n = Some el"
  shows "own_events w" "srv w = s" "timeEvents w = []" "timeEventNextId w = 0" "later w = []" "ctl_ok w = []" "setsize w = n"
    "fe_mask (events w fd) = 0"
  using assms(2) unfolding w_def
  by (auto simp: aeCreateEventLoop_def own_events_def loop_ok_def max_used_none AE_NONE_def own_event_def
      aeEventLoop.defs world.defs split: if_splits)

lemma listen_ok:
  assumes "spy_setup_listen_events lis avail epoll time0 tmem listen_fd s = Some w"
  shows "own_events w" "srv w = s" "\<forall>te\<in>set (timeEvents w). cron_timer te \<and> te_id te < timeEventNextId w" "distinct (map te_id (timeEvents w))"
    and "setsize w = DEF_MAX_CLIENTS" "listen_fd < DEF_MAX_CLIENTS" "fe_mask (events w listen_fd) = 1"
    "rfileProc (events w listen_fd) = Some AcceptHandler" "fd \<noteq> listen_fd \<Longrightarrow> fe_mask (events w fd) = 0"
proof -
  obtain el :: "(spy_proc, nat) aeEventLoop" where el: "aeCreateEventLoop avail epoll time0 DEF_MAX_CLIENTS = Some el"
    using assms by (auto simp: spy_setup_listen_events_def split: bind_splits if_splits)
  let ?w0 = "aeEventLoop.extend el (world.fields s)"
  note w0 = fresh_loop [OF el, of s]
  obtain r w1 where w1: "aeCreateFileEvent listen_fd AE_READABLE AcceptHandler None ?w0 = (r, w1)" by fastforce
  note c = own_create [OF w0(1) w1]
  have t: "timeEvents w1 = []" "timeEventNextId w1 = 0" "later w1 = []" using c(3) w0 by (simp_all add: same_time_def)
  obtain te where w: "w = w1\<lparr>timeEventNextId := 1, timeEvents := [te]\<rparr>" "cron_timer te" "te_id te = 0"
    using assms el w1 t
    by (auto simp: spy_setup_listen_events_def aeCreateTimeEvent_def aeAddMillisecondsToNow_def aeGetTime_def cron_timer_def Let_def
        split: bind_splits if_splits)
  show "own_events w" using c(1) by (simp add: w(1) own_events_def loop_ok_def aeGetFileEvents_def)
  show "srv w = s" "\<forall>te\<in>set (timeEvents w). cron_timer te \<and> te_id te < timeEventNextId w" "distinct (map te_id (timeEvents w))"
    using w c(2) w0(2) by simp_all
  have "r \<noteq> AE_ERR" using assms el w1 by (auto simp: spy_setup_listen_events_def split: if_splits)
  note e = c(4) [OF _ this]
  show "setsize w = DEF_MAX_CLIENTS" "listen_fd < DEF_MAX_CLIENTS" "fe_mask (events w listen_fd) = 1"
    "rfileProc (events w listen_fd) = Some AcceptHandler" "fd \<noteq> listen_fd \<Longrightarrow> fe_mask (events w fd) = 0"
    using c(3) e w0(7,8) by (simp_all add: w(1) same_time_def add_event_def AE_READABLE_def)
qed

lemma start_parts:
  assumes "start_server cfg m st os0 cmem rnds lis avail epoll time0 tmem listen_fd threads event_fd = Some w"
  obtains w1 r w2 m' s where
    "spy_setup_listen_events lis avail epoll time0 tmem listen_fd ((init_server cfg m os0 cmem rnds)\<lparr>store := st\<rparr>) = Some w1"
    "aeCreateFileEvent event_fd AE_READABLE WqThreadDone None w1 = (r, w2)" "r \<noteq> AE_ERR"
    "spy_setup_mem_blocks (unat (mb_prealloc_count cfg)) (unat (mb_limit cfg)) (mem (srv w2)) = Some m'"
    "s = init_jobs_loop 0 DEF_MAX_IO_JOBS ((srv w2)\<lparr>mem := m'\<rparr>)"
    "w = w2\<lparr>srv := s\<lparr>report_info := (report_info s)\<lparr>ri_lock := spy_atomic_set 0\<rparr>\<rparr>\<rparr>"
  using assms by (auto simp: start_server_def spy_setup_work_queue_def spy_init_io_jobs_def Let_def split: bind_splits prod.splits if_splits)

lemma start_ok:
  assumes "start_server cfg m st os0 cmem rnds lis avail epoll time0 tmem listen_fd threads event_fd = Some w"
    and "chunks_ok st" "index_ok (file_index st)" "unat (mb_prealloc_count cfg) < 2 ^ 32"
  shows "run_ok w"
proof -
  let ?s = "(init_server cfg m os0 cmem rnds)\<lparr>store := st\<rparr>"
  obtain w1 r w2 m' s where w1: "spy_setup_listen_events lis avail epoll time0 tmem listen_fd ?s = Some w1"
    and w2: "aeCreateFileEvent event_fd AE_READABLE WqThreadDone None w1 = (r, w2)"
    and m': "spy_setup_mem_blocks (unat (mb_prealloc_count cfg)) (unat (mb_limit cfg)) (mem (srv w2)) = Some m'"
    and s: "s = init_jobs_loop 0 DEF_MAX_IO_JOBS ((srv w2)\<lparr>mem := m'\<rparr>)"
    and w: "w = w2\<lparr>srv := s\<lparr>report_info := (report_info s)\<lparr>ri_lock := spy_atomic_set 0\<rparr>\<rparr>\<rparr>"
    by (rule start_parts [OF assms(1)])
  note l = listen_ok [OF w1]
  note c = own_create [OF l(1) w2]
  have s2: "srv w2 = ?s" using c(2) l(2) by simp
  obtain js where j: "init_jobs_loop 0 DEF_MAX_IO_JOBS ((srv w2)\<lparr>mem := m'\<rparr>) =
      (srv w2)\<lparr>mem := m', io_jobs := js, free_io_jobs := rev [0..<DEF_MAX_IO_JOBS]\<rparr>"
    using init_jobs_loop_eq [of 0 DEF_MAX_IO_JOBS "(srv w2)\<lparr>mem := m'\<rparr>"] by (auto simp: s2 init_server_def)
  have "mem_blocks_used (mem (srv w2)) = 0" by (simp add: s2 init_server_def)
  then have p: "pool_ok m' []" by (rule setup_mem_blocks_ok(1) [OF m' assms(4)])
  have o: "own_events w" using c(1) by (simp add: w own_events_def loop_ok_def)
  have "srv_inv {} [] [] w"
    by (rule own_inv [OF o]) (use assms(2,3) p in \<open>simp_all add: w s j, simp_all add: s2 init_server_def works_def qworks_def\<close>)
  moreover have "timeEvents w = timeEvents w1" "timeEventNextId w = timeEventNextId w1" using c(3) by (simp_all add: w same_time_def)
  ultimately show ?thesis using l(3,4) by (simp add: timers_ok_def)
qed

text \<open>The states of a server that was started on sound tables.\<close>

inductive srv_reach :: "world \<Rightarrow> bool" where
  start: "start_server cfg m st os0 cmem rnds lis avail epoll time0 tmem listen_fd threads event_fd = Some w \<Longrightarrow>
    chunks_ok st \<Longrightarrow> index_ok (file_index st) \<Longrightarrow> unat (mb_prealloc_count cfg) < 2 ^ 32 \<Longrightarrow> srv_reach w"
| step: "srv_reach w \<Longrightarrow> srv_step w w' \<Longrightarrow> srv_reach w'"

lemma reach_ok: "srv_reach w \<Longrightarrow> run_ok w"
  by (induction rule: srv_reach.induct) (auto intro: start_ok steps.step_inv)

lemmas reach_inv = run_okD [OF reach_ok]

lemma start_events:
  assumes "start_server cfg m st os0 cmem rnds lis avail epoll time0 tmem listen_fd threads event_fd = Some w" "listen_fd \<noteq> event_fd"
  shows "setsize w = DEF_MAX_CLIENTS" "listen_fd < DEF_MAX_CLIENTS" "fe_mask (events w listen_fd) = 1"
    "rfileProc (events w listen_fd) = Some AcceptHandler" "fd \<noteq> listen_fd \<Longrightarrow> fd \<noteq> event_fd \<Longrightarrow> fe_mask (events w fd) = 0"
    "conns (srv w) = Map.empty"
proof -
  let ?s = "(init_server cfg m os0 cmem rnds)\<lparr>store := st\<rparr>"
  obtain w1 r w2 m' s where w1: "spy_setup_listen_events lis avail epoll time0 tmem listen_fd ?s = Some w1"
    and r: "aeCreateFileEvent event_fd AE_READABLE WqThreadDone None w1 = (r, w2)" "r \<noteq> AE_ERR"
    and s: "s = init_jobs_loop 0 DEF_MAX_IO_JOBS ((srv w2)\<lparr>mem := m'\<rparr>)"
    and w: "w = w2\<lparr>srv := s\<lparr>report_info := (report_info s)\<lparr>ri_lock := spy_atomic_set 0\<rparr>\<rparr>\<rparr>"
    by (rule start_parts [OF assms(1)])
  note l = listen_ok [OF w1]
  note c = own_create [OF l(1) r(1)]
  show "setsize w = DEF_MAX_CLIENTS" "listen_fd < DEF_MAX_CLIENTS" "fe_mask (events w listen_fd) = 1"
    "rfileProc (events w listen_fd) = Some AcceptHandler" "fd \<noteq> listen_fd \<Longrightarrow> fd \<noteq> event_fd \<Longrightarrow> fe_mask (events w fd) = 0"
    using l(5-9) c(3) c(4) [OF _ r(2)] assms(2) by (simp_all add: w same_time_def)
  show "conns (srv w) = Map.empty" using c(2) l(2) by (simp add: w s init_jobs_conns init_server_def)
qed

text \<open>The start succeeds when the system provides what it asks for.\<close>

definition demo_start :: "nat \<Rightarrow> world option" where
  "demo_start k = start_server spy_server_init \<lparr>blocks = (\<lambda>_. fresh_block), next_block = 0, calloc_left = 1024, free_mem_blocks = [],
       mem_blocks_alloc = 0, mem_blocks_alloc_limit = 0, mem_blocks_used = 0\<rparr>
     empty_store \<lparr>files = (\<lambda>_. []), fpos = (\<lambda>_. 0), script = [], clock = 0\<rparr> k [] True 10 True (100, 500) True 5 10 6"

lemma demo_queue: "\<exists>q. spy_create_work_queue 10 0 (int DEF_WQ_NR_THRS) = Some (q :: work wq)"
proof -
  have "spy_create_work_queue 10 0 (int DEF_WQ_NR_THRS) \<noteq> (None :: work wq option)"
    by (simp add: spy_create_work_queue_def DEF_WQ_NR_THRS_def eval_nat_numeral spy_create_worker_threads.simps
        spy_atomic_set_def spy_atomic_add_def spy_atomic_read_def)
  then show ?thesis by auto
qed

lemma create_succeeds:
  assumes "loop_ok w" "ctl_ok w = []" "fd < setsize w"
  obtains w' where "aeCreateFileEvent fd msk p data w = (AE_OK, w')" "ctl_ok w' = []"
proof -
  have e: "epset w fd = None \<longleftrightarrow> fe_mask (events w fd) = AE_NONE"
    using loop_okD(2) [of w fd] assms by auto
  have "\<exists>w'. aeCreateFileEvent fd msk p data w = (AE_OK, w') \<and> ctl_ok w' = []"
    using e assms(2,3) by (cases "fe_mask (events w fd) = AE_NONE")
      (auto simp: aeCreateFileEvent_def aeApiAddEvent_def epoll_ctl_def Let_def)
  with that show ?thesis by blast
qed

lemma start_returns:
  assumes "5 \<le> avail" "listen_fd < DEF_MAX_CLIENTS" "event_fd < DEF_MAX_CLIENTS" "unat (mb_prealloc_count cfg) \<le> calloc_left m"
    and "spy_create_work_queue threads (clock os0) (int DEF_WQ_NR_THRS) = Some (q :: work wq)"
  shows "\<exists>w. start_server cfg m st os0 cmem rnds True avail True time0 True listen_fd threads event_fd = Some w"
proof -
  let ?s = "(init_server cfg m os0 cmem rnds)\<lparr>store := st\<rparr>"
  obtain el :: "(spy_proc, nat) aeEventLoop" where el: "aeCreateEventLoop avail True time0 DEF_MAX_CLIENTS = Some el"
  proof -
    have "\<not> avail < 1" "\<not> avail < 3" "\<not> avail - 3 < 1" "\<not> avail - 3 < 2" using assms(1) by linarith+
    then show ?thesis by (intro that) (simp only: aeCreateEventLoop_def aeApiCreate_def if_False simp_thms, simp)
  qed
  let ?w0 = "aeEventLoop.extend el (world.fields ?s)"
  note w0 = fresh_loop [OF el, of ?s]
  obtain w1 where w1: "aeCreateFileEvent listen_fd AE_READABLE AcceptHandler None ?w0 = (AE_OK, w1)" "ctl_ok w1 = []"
    by (rule create_succeeds [OF _ w0(6), of listen_fd AE_READABLE AcceptHandler None]) (use assms(2) w0(1,7) in \<open>simp_all add: own_events_def\<close>)
  note c1 = own_create [OF w0(1) w1(1)]
  have t1: "setsize w1 = DEF_MAX_CLIENTS" "later w1 = []" "timeEventNextId w1 = 0" using c1(3) w0 by (simp_all add: same_time_def)
  obtain tes where l: "spy_setup_listen_events True avail True time0 True listen_fd ?s = Some (w1\<lparr>timeEventNextId := 1, timeEvents := tes\<rparr>)"
    using el w1(1) t1
    by (simp add: spy_setup_listen_events_def aeCreateTimeEvent_def aeAddMillisecondsToNow_def aeGetTime_def AE_OK_def AE_ERR_def)
  let ?w2 = "w1\<lparr>timeEventNextId := 1, timeEvents := tes\<rparr>"
  note l2 = listen_ok(1,2) [OF l]
  obtain w3 where w3: "aeCreateFileEvent event_fd AE_READABLE WqThreadDone None ?w2 = (AE_OK, w3)"
    by (rule create_succeeds [of ?w2 event_fd AE_READABLE WqThreadDone None]) (use l2(1) w1(2) t1 assms(3) in \<open>simp_all add: own_events_def\<close>)
  have s3: "srv w3 = ?s" using own_create(2) [OF l2(1) w3] l2(2) by simp
  have "spy_setup_work_queue threads event_fd ?w2 = Some w3"
    using w3 assms(5) l2(2) by (simp add: spy_setup_work_queue_def init_server_def AE_OK_def AE_ERR_def)
  moreover have "\<exists>m'. spy_setup_mem_blocks (unat (mb_prealloc_count cfg)) (unat (mb_limit cfg)) (mem (srv w3)) = Some m'"
    using assms(4) by (cases "0 < unat (mb_prealloc_count cfg)")
      (simp_all add: spy_setup_mem_blocks_def init_mem_blocks_def s3 init_server_def Let_def not_less)
  ultimately show ?thesis using l by (auto simp add: start_server_def spy_init_io_jobs_def DEF_MAX_IO_JOBS_def)
qed

lemma demo_start_Some: "\<exists>w. demo_start k = Some w"
proof -
  obtain q :: "work wq" where q: "spy_create_work_queue 10 0 (int DEF_WQ_NR_THRS) = Some q" using demo_queue by blast
  show ?thesis unfolding demo_start_def
    by (rule start_returns [where q = q])
      (simp_all add: q DEF_MAX_CLIENTS_def spy_server_init_def PREALLOC_COUNT_def)
qed

text \<open>A client connects.\<close>

lemma accept_connects:
  assumes "fd < setsize w" "ctl_ok w = []" "loop_ok w" "0 < conn_mem (srv w)" "accept_queue (srv w) = [fd]"
  shows "conns (srv (spy_accept_handler w)) (next_conn (srv w)) = Some (new_connection fd)"
proof -
  let ?c = "next_conn (srv w)" and ?s = "(srv w)\<lparr>accept_queue := [], nonblock := (nonblock (srv w))(fd := True),
    sock_in := (sock_in (srv w))(fd := []), sock_eof := (sock_eof (srv w))(fd := False),
    osys := (osys (srv w))\<lparr>files := (files (osys (srv w)))(fd := [])\<rparr>\<rparr>"
  let ?w = "put_conn ?c (new_connection fd) (w\<lparr>srv := ?s\<lparr>next_conn := ?c + 1, conn_mem := conn_mem (srv w) - 1\<rparr>\<rparr>)"
  have l: "loop_ok ?w" "ctl_ok ?w = []" "fd < setsize ?w" using assms(1-3) by (simp_all add: put_conn_def loop_ok_def)
  obtain w2 where w2: "aeCreateFileEvent fd AE_READABLE ReadHandler (Some ?c) ?w = (AE_OK, w2)" by (rule create_succeeds [OF l])
  have "spy_accept_handler w = upd_stat (\<lambda>st. st\<lparr>conn_count := conn_count st + 1\<rparr>) w2"
    using assms(4,5) w2 by (simp add: spy_accept_handler_def spy_create_client_connection_def new_connection_def Let_def AE_OK_def AE_ERR_def)
  then show ?thesis using srv_create [OF w2] by (simp add: upd_stat_def)
qed

lemma demo_connected: "\<exists>w c. srv_reach w \<and> conns (srv w) c = Some (new_connection 9)"
proof -
  obtain w0 where w0: "demo_start 1 = Some w0" using demo_start_Some by blast
  have r0: "srv_reach w0" using w0 unfolding demo_start_def
    by (rule srv_reach.start) (simp_all add: empty_store_ok spy_server_init_def PREALLOC_COUNT_def)
  note e0 = start_events [OF w0 [unfolded demo_start_def], simplified]
  define w1 where "w1 = w0\<lparr>ctl_ok := [], now := now w0, later := later w0, srv := (srv w0)\<lparr>osys := osys (srv w0), sock_in := sock_in (srv w0),
    sock_eof := sock_eof (srv w0), accept_queue := [9], conn_mem := 1, rands := rands (srv w0)\<rparr>\<rparr>"
  have r1: "srv_reach w1" unfolding w1_def by (rule srv_reach.step [OF r0 srv_step.outside])
  have f1: "fe_mask (events w1 5) = 1" "rfileProc (events w1 5) = Some AcceptHandler" "setsize w1 = 10240" "accept_queue (srv w1) = [9]"
    "ctl_ok w1 = []" "fe_mask (events w1 9) = 0" "conn_mem (srv w1) = 1"
    using e0 by (simp_all add: w1_def DEF_MAX_CLIENTS_def)
  have "fd_of (srv w1) c = None" for c using e0(6) by (simp add: w1_def fd_of_def)
  then have a: "accept_fresh w1" using f1 by (auto simp: accept_fresh_def unused_fd_def aeGetFileEvents_def)
  let ?w2 = "spy_accept_handler w1"
  have "process_fired spy_code 5 AE_READABLE w1 = Some ?w2"
    using f1 by (simp add: process_fired_def spy_code_def AE_READABLE_def AE_WRITABLE_def)
  then have "srv_step w1 ?w2" using a f1(3) by (intro srv_step.fire [of 5]) simp_all
  then have "srv_reach ?w2" by (rule srv_reach.step [OF r1])
  moreover have "loop_ok w1" using reach_inv [OF r1] by (simp add: srv_inv_def)
  then have "conns (srv ?w2) (next_conn (srv w1)) = Some (new_connection 9)" using f1 by (intro accept_connects) simp_all
  ultimately show ?thesis by blast
qed

end
