(* ===== verification/Spy_Reply.thy ===== *)
theory Spy_Reply
  imports Spy_Connection
begin

text \<open>
  Sending a response: the loop of \<open>spy_write_handler\<close> seen as a stream. What is left to be sent of a response is the rest of
  its header and the rest of its body; every call sends a first part of it, whatever \<open>write\<close> accepts at a time.
\<close>

section \<open>What is left of a response\<close>

definition body_left :: "spy_connection \<Rightarrow> nat" where
  "body_left cn = unat (body_len cn) - (nat (sentlen cn) - RSP_HDR_SIZE)"

definition to_send :: "mem_state \<Rightarrow> spy_connection \<Rightarrow> bytes" where
  "to_send m cn = drop (nat (sentlen cn)) (rsp_header cn) @ take (body_left cn) (unread m (rsp_body cn))"

text \<open>A response that can be sent: a whole header, and a body that holds the announced number of bytes.\<close>

definition reply_ok :: "mem_state \<Rightarrow> spy_connection \<Rightarrow> bool" where
  "reply_ok m cn \<longleftrightarrow> rwb_ok m (rsp_body cn) \<and> length (rsp_header cn) = RSP_HDR_SIZE \<and>
     0 \<le> sentlen cn \<and> nat (sentlen cn) \<le> RSP_HDR_SIZE + unat (body_len cn) \<and> RSP_HDR_SIZE + unat (body_len cn) < 2 ^ 31 \<and>
     body_left cn \<le> length (unread m (rsp_body cn))"

text \<open>
  \<open>data\<close> was sent from \<open>w\<close> to \<open>w'\<close>: it is appended to the stream of the socket, and together with what is left it is what was
  to be sent before. A connection that is gone was closed after a failed \<open>write\<close>.
\<close>

definition streamed :: "nat \<Rightarrow> spy_connection \<Rightarrow> world \<Rightarrow> bool \<Rightarrow> world \<Rightarrow> bytes \<Rightarrow> bool" where
  "streamed c cn w sent w' data \<longleftrightarrow>
     files (osys (srv w')) (conn_fd cn) = files (osys (srv w)) (conn_fd cn) @ data \<and>
     (case conns (srv w') c of
        None \<Rightarrow> \<not> sent \<and> (\<exists>rest. to_send (mem (srv w)) cn = data @ rest)
      | Some cn' \<Rightarrow> reply_ok (mem (srv w')) cn' \<and> conn_fd cn' = conn_fd cn \<and>
          to_send (mem (srv w)) cn = data @ to_send (mem (srv w')) cn' \<and> (sent \<longleftrightarrow> to_send (mem (srv w')) cn' = [])) \<and>
     ((\<forall>e. SysErr e \<notin> set (script (osys (srv w)))) \<longrightarrow> sent)"

lemma write_remaining_length:
  assumes "reply_ok m cn"
  shows "write_remaining cn = int (length (to_send m cn))"
proof -
  have r: "length (rsp_header cn) = RSP_HDR_SIZE" "0 \<le> sentlen cn" "nat (sentlen cn) \<le> RSP_HDR_SIZE + unat (body_len cn)"
    "RSP_HDR_SIZE + unat (body_len cn) < 2 ^ 31" "body_left cn \<le> length (unread m (rsp_body cn))"
    using assms by (simp_all add: reply_ok_def)
  define k b where "k = nat (sentlen cn)" and "b = unat (body_len cn)"
  have s: "sentlen cn = int k" "uint (body_len cn) = int b" using r(2) by (simp_all add: k_def b_def)
  have k: "k \<le> 6 + b" "6 + b < 2 ^ 31"
    using r(3,4) by (simp_all add: k_def b_def)
  have "length (to_send m cn) = (6 - k) + (b - (k - 6))"
    using r(1,5) by (simp add: to_send_def body_left_def k_def b_def)
  then have l: "length (to_send m cn) = 6 + b - k" using k by linarith
  have "i32 (6 + int b - int k) = 6 + int b - int k" using k by (intro i32_small) simp_all
  then show ?thesis using k l by (simp add: write_remaining_def s of_nat_diff)
qed

section \<open>One call of write\<close>

lemma sock_send_cases:
  assumes "sock_send fd data w = (r, w')"
  obtains (failed) e s where "r = Fail e" "w' = w\<lparr>srv := (srv w)\<lparr>osys := s\<rparr>\<rparr>" "files s = files (osys (srv w))"
      "SysErr e \<in> set (script (osys (srv w)))"
  | (sent) n s where "r = Done n" "w' = w\<lparr>srv := (srv w)\<lparr>osys := s\<rparr>\<rparr>" "n \<le> length data" "data \<noteq> [] \<longrightarrow> 0 < n"
      "files s = (files (osys (srv w)))(fd := files (osys (srv w)) fd @ take n data)"
      "set (script s) \<subseteq> set (script (osys (srv w)))"
proof (cases "script (osys (srv w))")
  case Nil
  then show ?thesis using assms by (intro sent [where s = "osys (srv w')"]) (auto simp: sock_send_def sys_send_def next_resp_def grant_def)
next
  case (Cons x xs)
  show ?thesis
  proof (cases x)
    case (SysErr e)
    then show ?thesis using assms Cons by (intro failed [where s = "osys (srv w')"]) (auto simp: sock_send_def sys_send_def next_resp_def grant_def)
  next
    case (SysN k)
    then show ?thesis using assms Cons by (intro sent [where s = "osys (srv w')"]) (auto simp: sock_send_def sys_send_def next_resp_def grant_def)
  qed
qed

text \<open>After a failure the connection waits, or is closed.\<close>

lemma send_failed_streamed:
  assumes "conns (srv w) c = Some cn" "reply_ok (mem (srv w)) cn" "to_send (mem (srv w)) cn \<noteq> []"
    and "SysErr e \<in> set (script (osys (srv w)))" "files s = files (osys (srv w))"
  shows "\<exists>w'. send_failed c e (w\<lparr>srv := (srv w)\<lparr>osys := s\<rparr>\<rparr>) = Some (False, w') \<and> streamed c cn w False w' []"
proof (cases "e = EAGAIN")
  case True
  then show ?thesis using assms by (auto simp: send_failed_def streamed_def)
next
  case False
  then show ?thesis using assms
    by (auto simp: send_failed_def streamed_def spy_free_client_connection_def get_conn_def set_mem_def upd_stat_def Let_def
        sys_close_def split: prod.splits)
qed

lemma send_streamed:
  assumes "conns (srv w) c = Some cn" "reply_ok (mem (srv w)) cn" "to_send (mem (srv w)) cn = part @ rest" "part \<noteq> []" "conn_fd cn = fd"
    and g: "\<And>n. 0 < n \<Longrightarrow> n \<le> length part \<Longrightarrow> reply_ok (mem (srv w)) (g n) \<and> to_send (mem (srv w)) (g n) = drop n part @ rest \<and> conn_fd (g n) = fd"
    and f: "\<And>n w1. 0 < n \<Longrightarrow> n \<le> length part \<Longrightarrow> mem (srv w1) = mem (srv w) \<Longrightarrow> conns (srv w1) c = Some (g n) \<Longrightarrow>
      \<exists>sent w' data. f w1 = Some (sent, w') \<and> streamed c (g n) w1 sent w' data"
  shows "\<exists>sent w' data. (case sock_send fd part w of (r, w) \<Rightarrow> (case r of Fail e \<Rightarrow> send_failed c e w
      | Done n \<Rightarrow> if n = 0 then None else f (put_conn c (g n) w))) = Some (sent, w') \<and> streamed c cn w sent w' data"
proof -
  obtain r w1 where s: "sock_send fd part w = (r, w1)" by fastforce
  then show ?thesis
  proof (cases rule: sock_send_cases)
    case (failed e s)
    have "to_send (mem (srv w)) cn \<noteq> []" using assms(3,4) by simp
    from send_failed_streamed [OF assms(1,2) this failed(4,3)] show ?thesis using s failed(1,2) by auto
  next
    case (sent n s)
    let ?w = "put_conn c (g n) w1"
    have n: "0 < n" "n \<le> length part" using sent(3,4) assms(4) by simp_all
    have w: "mem (srv ?w) = mem (srv w)" "conns (srv ?w) c = Some (g n)" "osys (srv ?w) = s" by (simp_all add: put_conn_def sent(2))
    obtain b w' data where f': "f ?w = Some (b, w')" "streamed c (g n) ?w b w' data" using f [OF n w(1,2)] by blast
    note g' = g [OF n]
    have t: "to_send (mem (srv w)) cn = take n part @ to_send (mem (srv ?w)) (g n)"
      using assms(3) g' w(1) by simp
    have e: "(\<forall>e. SysErr e \<notin> set (script (osys (srv w)))) \<longrightarrow> b" using f'(2) sent(6) w(3) by (auto simp: streamed_def)
    have "streamed c cn w b w' (take n part @ data)"
      using f'(2) g' t e sent(5) w(3) assms(5) by (auto simp: streamed_def split: option.splits)
    then show ?thesis using s sent(1) n(1) f'(1) by auto
  qed
qed

section \<open>The loop\<close>

lemma header_part:
  assumes "reply_ok m cn" "sentlen cn < int RSP_HDR_SIZE" "part = drop (nat (sentlen cn)) (rsp_header cn)"
  shows "to_send m cn = part @ take (body_left cn) (unread m (rsp_body cn))" "part \<noteq> []"
    and "n \<le> length part \<Longrightarrow> reply_ok m (cn\<lparr>sentlen := sentlen cn + int n\<rparr>) \<and>
      to_send m (cn\<lparr>sentlen := sentlen cn + int n\<rparr>) = drop n part @ take (body_left cn) (unread m (rsp_body cn))"
proof -
  obtain k where k: "sentlen cn = int k" using assms(1) by (metis reply_ok_def nonneg_int_cases)
  have l: "length (rsp_header cn) = 6" "k < 6" using assms(1,2) k by (simp_all add: reply_ok_def)
  show "to_send m cn = part @ take (body_left cn) (unread m (rsp_body cn))" by (simp add: to_send_def assms(3))
  show "part \<noteq> []" using l by (simp add: assms(3) k)
  assume "n \<le> length part"
  then have n: "k + n \<le> 6" using l by (simp add: assms(3) k)
  have i: "int k + int n = int (k + n)" by simp
  have b: "body_left (cn\<lparr>sentlen := sentlen cn + int n\<rparr>) = body_left cn" using n by (simp add: body_left_def k i del: of_nat_add)
  show "reply_ok m (cn\<lparr>sentlen := sentlen cn + int n\<rparr>) \<and>
      to_send m (cn\<lparr>sentlen := sentlen cn + int n\<rparr>) = drop n part @ take (body_left cn) (unread m (rsp_body cn))"
    using assms(1) n b by (simp add: reply_ok_def to_send_def assms(3) k i add.commute del: of_nat_add)
qed

lemma body_part:
  assumes "reply_ok m cn" "\<not> sentlen cn < int RSP_HDR_SIZE" "to_send m cn \<noteq> []"
  obtains b a len part rest where "spy_rw_buffer_next_readable m (rsp_body cn) = Some (b, Some (a, len))"
    "load_area m a (min len (nat (write_remaining cn))) = Some part" "part \<noteq> []"
    "reply_ok m (cn\<lparr>rsp_body := b\<rparr>)" "to_send m (cn\<lparr>rsp_body := b\<rparr>) = part @ rest" "to_send m cn = part @ rest"
    "\<forall>n\<le>length part. reply_ok m (cn\<lparr>rsp_body := advance_read n b, sentlen := sentlen cn + int n\<rparr>) \<and>
      to_send m (cn\<lparr>rsp_body := advance_read n b, sentlen := sentlen cn + int n\<rparr>) = drop n part @ rest"
proof -
  obtain k where k: "sentlen cn = int k" using assms(1) by (metis reply_ok_def nonneg_int_cases)
  have r: "rwb_ok m (rsp_body cn)" "length (rsp_header cn) = 6" "k \<le> 6 + unat (body_len cn)" "6 + unat (body_len cn) < 2 ^ 31"
    "body_left cn \<le> length (unread m (rsp_body cn))" "6 \<le> k"
    using assms(1,2) k by (simp_all add: reply_ok_def)
  let ?u = "unread m (rsp_body cn)"
  have t: "to_send m cn = take (body_left cn) ?u" using r(2,6) by (simp add: to_send_def k)
  have bl: "body_left cn = unat (body_len cn) + 6 - k" using r(6) by (simp add: body_left_def k)
  have rem: "nat (write_remaining cn) = body_left cn" using write_remaining_length [OF assms(1)] t r(5) by simp
  have ne: "?u \<noteq> []" "0 < body_left cn" using assms(3) t by auto
  obtain b a len where b: "spy_rw_buffer_next_readable m (rsp_body cn) = Some (b, Some (a, len))" "rwb_ok m b" "unread m b = ?u"
    "0 < len" "\<forall>n\<le>len. load_area m a n = Some (take n ?u) \<and> rwb_ok m (advance_read n b) \<and> unread m (advance_read n b) = drop n ?u"
    using rd.nxt_data [OF r(1) ne(1)] by blast
  define l where "l = min len (body_left cn)"
  have l: "0 < l" "l \<le> body_left cn" "l \<le> len" "l \<le> length ?u" using ne(2) b(4) r(5) by (auto simp: l_def)
  have s: "int k + int n = int (k + n)" for n by simp
  have n: "reply_ok m (cn\<lparr>rsp_body := advance_read n b, sentlen := sentlen cn + int n\<rparr>) \<and>
      to_send m (cn\<lparr>rsp_body := advance_read n b, sentlen := sentlen cn + int n\<rparr>) = drop n (take (body_left cn) ?u)" if "n \<le> l" for n
  proof -
    have a: "rwb_ok m (advance_read n b)" "unread m (advance_read n b) = drop n ?u" using b(5) that l(3) by simp_all
    have "body_left (cn\<lparr>rsp_body := advance_read n b, sentlen := sentlen cn + int n\<rparr>) = body_left cn - n"
      using r(6) by (simp add: body_left_def k s del: of_nat_add)
    moreover have "k + n \<le> 6 + unat (body_len cn)" "body_left cn - n \<le> length ?u - n" using that l(2) r(3,5) bl by linarith+
    ultimately show ?thesis using a r(2,4,6) by (simp add: reply_ok_def to_send_def k s drop_take del: of_nat_add)
  qed
  show ?thesis
  proof (rule that [OF b(1), of "take l ?u" "drop l (take (body_left cn) ?u)"])
    show "load_area m a (min len (nat (write_remaining cn))) = Some (take l ?u)" using b(5) l(3) by (simp add: rem l_def)
    show "take l ?u \<noteq> []" using ne(1) l(1) by simp
    show "reply_ok m (cn\<lparr>rsp_body := b\<rparr>)" using assms(1) b(2,3) by (simp add: reply_ok_def body_left_def)
    show to: "to_send m cn = take l ?u @ drop l (take (body_left cn) ?u)"
      using l(2,4) append_take_drop_id [of l "take (body_left cn) ?u"] by (simp add: t min_def)
    have "to_send m (cn\<lparr>rsp_body := b\<rparr>) = to_send m cn" using b(3) by (simp add: to_send_def body_left_def)
    then show "to_send m (cn\<lparr>rsp_body := b\<rparr>) = take l ?u @ drop l (take (body_left cn) ?u)" using to by simp
    have e: "drop i (take (body_left cn) ?u) = drop i (take l ?u) @ drop l (take (body_left cn) ?u)" if "i \<le> l" for i
      using that l(2,4) append_take_drop_id [of l "take (body_left cn) ?u"] drop_append [of i "take l ?u" "drop l (take (body_left cn) ?u)"]
      by (simp add: min_def)
    have len: "length (take l ?u) = l" using l(4) by simp
    show "\<forall>i\<le>length (take l ?u). reply_ok m (cn\<lparr>rsp_body := advance_read i b, sentlen := sentlen cn + int i\<rparr>) \<and>
      to_send m (cn\<lparr>rsp_body := advance_read i b, sentlen := sentlen cn + int i\<rparr>) =
        drop i (take l ?u) @ drop l (take (body_left cn) ?u)"
      unfolding len by (metis n e)
  qed
qed

lemma write_loop_streamed:
  "conns (srv w) c = Some cn \<Longrightarrow> reply_ok (mem (srv w)) cn \<Longrightarrow>
   \<exists>sent w' data. write_loop c w = Some (sent, w') \<and> streamed c cn w sent w' data"
proof (induction "length (to_send (mem (srv w)) cn)" arbitrary: w cn rule: less_induct)
  case less
  let ?m = "mem (srv w)"
  have g: "get_conn c w = Some cn" using less.prems(1) by (simp add: get_conn_def)
  note rem = write_remaining_length [OF less.prems(2)]
  show ?case
  proof (cases "to_send ?m cn = []")
    case True
    then have "write_loop c w = Some (True, w)" using rem g by (simp add: write_loop.simps [of c w])
    then show ?thesis using True less.prems by (auto simp: streamed_def)
  next
    case False
    then have pos: "0 < write_remaining cn" using rem by simp
    show ?thesis
    proof (cases "sentlen cn < int RSP_HDR_SIZE")
      case True
      let ?part = "drop (nat (sentlen cn)) (rsp_header cn)"
      note h = header_part [OF less.prems(2) True refl]
      have "write_loop c w = (case sock_send (conn_fd cn) ?part w of (r, w) \<Rightarrow> (case r of Fail e \<Rightarrow> send_failed c e w
          | Done n \<Rightarrow> if n = 0 then None else write_loop c (put_conn c (cn\<lparr>sentlen := sentlen cn + int n\<rparr>) w)))"
        using g pos True by (simp add: write_loop.simps [of c w])
      moreover have "\<exists>sent w' data. \<dots> = Some (sent, w') \<and> streamed c cn w sent w' data"
      proof (rule send_streamed [OF less.prems h(1,2) refl])
        fix n and w1 :: world assume n: "0 < n" "n \<le> length ?part" "mem (srv w1) = ?m" "conns (srv w1) c = Some (cn\<lparr>sentlen := sentlen cn + int n\<rparr>)"
        then show "\<exists>sent w' data. write_loop c w1 = Some (sent, w') \<and> streamed c (cn\<lparr>sentlen := sentlen cn + int n\<rparr>) w1 sent w' data"
          using h(3) [OF n(2)] h(1) by (intro less.hyps) simp_all
      qed (use h(3) in simp)
      ultimately show ?thesis by simp
    next
      case body: False
      obtain b a len part rest where b: "spy_rw_buffer_next_readable ?m (rsp_body cn) = Some (b, Some (a, len))"
        "load_area ?m a (min len (nat (write_remaining cn))) = Some part" "part \<noteq> []"
        "reply_ok ?m (cn\<lparr>rsp_body := b\<rparr>)" "to_send ?m (cn\<lparr>rsp_body := b\<rparr>) = part @ rest" "to_send ?m cn = part @ rest"
        "\<forall>n\<le>length part. reply_ok ?m (cn\<lparr>rsp_body := advance_read n b, sentlen := sentlen cn + int n\<rparr>) \<and>
          to_send ?m (cn\<lparr>rsp_body := advance_read n b, sentlen := sentlen cn + int n\<rparr>) = drop n part @ rest"
        by (rule body_part [OF less.prems(2) body False])
      let ?w = "put_conn c (cn\<lparr>rsp_body := b\<rparr>) w" and ?g = "\<lambda>n. cn\<lparr>rsp_body := advance_read n b, sentlen := sentlen cn + int n\<rparr>"
      have m: "mem (srv ?w) = ?m" "osys (srv ?w) = osys (srv w)" by (simp_all add: put_conn_def)
      have "write_loop c w = (case sock_send (conn_fd cn) part ?w of (r, w) \<Rightarrow> (case r of Fail e \<Rightarrow> send_failed c e w
          | Done n \<Rightarrow> if n = 0 then None else write_loop c (put_conn c (?g n) w)))"
        using g pos body b(1,2) by (simp add: write_loop.simps [of c w])
      moreover have "\<exists>sent w' data. \<dots> = Some (sent, w') \<and> streamed c (cn\<lparr>rsp_body := b\<rparr>) ?w sent w' data"
      proof (rule send_streamed [where rest = rest])
        fix n and w1 :: world assume n: "0 < n" "n \<le> length part" "mem (srv w1) = mem (srv ?w)" "conns (srv w1) c = Some (?g n)"
        have "length (to_send ?m (?g n)) < length (to_send ?m cn)" using b(6,7) n(1,2) by simp
        then show "\<exists>sent w' data. write_loop c w1 = Some (sent, w') \<and> streamed c (?g n) w1 sent w' data"
          using b(7) n m by (intro less.hyps) simp_all
      qed (use b m in simp_all)
      moreover have "streamed c (cn\<lparr>rsp_body := b\<rparr>) ?w sent w' data = streamed c cn w sent w' data" for sent w' data
        by (simp add: streamed_def m b(5,6) split: option.split)
      ultimately show ?thesis by simp
    qed
  qed
qed

section \<open>Property\<close>

text \<open>(C10) Sending a response. When the response of a connection has a whole header and its body holds the announced number of
  bytes, the loop of \<open>spy_write_handler\<close> returns, whatever \<open>write\<close> accepts at a time: it appends to the stream of the socket
  exactly a first part of what was left to be sent, header before body, over all block borders; the connection that remains
  has exactly the rest left, and nothing is left just when the loop reports that everything was sent. The connection is
  closed only after a failed \<open>write\<close>, and without failing calls the whole response is sent.\<close>

theorem response_streamed:
  assumes "get_conn c w = Some cn" "reply_ok (mem (srv w)) cn"
  shows "\<exists>sent w' data. write_loop c w = Some (sent, w') \<and> streamed c cn w sent w' data"
  using write_loop_streamed assms by (simp add: get_conn_def)

definition demo_reply :: spy_connection where
  "demo_reply = \<lparr>conn_fd = 9, request = spy_rw_buffer_init, rsp_body = demo_buffer, rsp_header = [1, 0, 0, 0, 0, 3], sentlen = 0,
     opcode = 1, conn_error = 0, body_len = 3, conn_state = SEND_RSP\<rparr>"

definition demo_server :: "sysresp list \<Rightarrow> world" where
  "demo_server rs = put_conn 4 demo_reply (aeEventLoop.extend (the (aeCreateEventLoop 5 True (100, 500) 16))
     (world.fields ((init_server spy_server_init demo_block \<lparr>files = (\<lambda>_. []), fpos = (\<lambda>_. 0), script = rs, clock = 0\<rparr> 0 [])\<lparr>mem := demo_block\<rparr>)))"

lemma demo_server_simps [simp]:
  "get_conn 4 (demo_server rs) = Some demo_reply" "mem (srv (demo_server rs)) = demo_block" "script (osys (srv (demo_server rs))) = rs"
  "files (osys (srv (demo_server rs))) fd = []"
  by (simp_all add: demo_server_def put_conn_def get_conn_def init_server_def world.defs aeEventLoop.defs)

lemma demo_reply_ok: "reply_ok demo_block demo_reply" "to_send demo_block demo_reply = [1, 0, 0, 0, 0, 3, 97, 98, 99]"
  by (simp_all add: reply_ok_def to_send_def body_left_def demo_reply_def demo_buffer_ok)

text \<open>Two short writes are enough to send a response of nine bytes.\<close>

theorem response_streamed_witness:
  "\<exists>w'. write_loop 4 (demo_server [SysN 3, SysN 0]) = Some (True, w') \<and>
    files (osys (srv w')) 9 = [1, 0, 0, 0, 0, 3, 97, 98, 99]"
proof -
  let ?w = "demo_server [SysN 3, SysN 0]"
  have "\<exists>sent w' data. write_loop 4 ?w = Some (sent, w') \<and> streamed 4 demo_reply ?w sent w' data"
    by (rule response_streamed) (simp_all add: demo_reply_ok)
  then obtain sent w' data where "write_loop 4 ?w = Some (sent, w')" "streamed 4 demo_reply ?w sent w' data" by blast
  moreover have "conn_fd demo_reply = 9" by (simp add: demo_reply_def)
  ultimately show ?thesis by (auto simp: streamed_def demo_reply_ok split: option.splits)
qed

end
