(* ===== verification/Spec2Isabelle.thy ===== *)
theory Spec2Isabelle
  imports Spy_Codec Spy_Hlist Spy_Pool Spy_Startup Spy_Run Spy_Reply
begin

text \<open>
  A model of the chunk server of Speedy, the C program under \<^verbatim>\<open>src/chunkserver\<close>, with the theorems that make it correct. The
  chunk server stores files in large preallocated chunk files. One thread runs an event loop over the connections of the
  clients, a pool of worker threads does the disk transfers, and an agent thread reports to the master.

  \<^bold>\<open>Conventions.\<close> Machine integers are words of their width, or \<open>int\<close> with the cut written out (\<open>i32\<close>). The result
  \<open>None\<close> of an operation means that the C function does not return normally: a failed assertion, a call of \<open>exit\<close>, an
  access outside an object, or a loop that does not end. The operating system is a record \<open>os\<close> with the contents of the
  files, the file positions and a script of answers: short transfers and errors in any order; theorems quantify over
  scripts, \<open>soft\<close> ones have no hard error. Memory that \<open>malloc\<close> may refuse is a counter or a flag. The program is built
  with assertions.

  \<^bold>\<open>Library.\<close> \<open>Spy_Prelude\<close> has the word types, slices of byte lists and the shared lemmas; \<open>Spy_Step\<close> the contracts
  for invariants and termination of interleaved systems (locales \<open>guarded_system\<close>, \<open>terminating_system\<close>), \<open>Spy_Text\<close>
  decimal numbers, \<open>strtol\<close> and \<open>sscanf\<close>.

  \<^bold>\<open>Components\<close>, with the file each one models.

  \<^item> \<open>Spy_Codec\<close> (\<^verbatim>\<open>spy_utils.c\<close>): the integers of the protocol and of the disk format, fixed and variable length; round trips.
  \<^item> \<open>Spy_Io\<close> (\<^verbatim>\<open>spy_utils.c\<close>): \<open>spy_pread\<close> and \<open>spy_pwrite\<close>, complete or failed under every script.
  \<^item> \<open>Spy_Adler32\<close>, \<open>Spy_BufferAdler\<close> (\<^verbatim>\<open>spy_adler32.c\<close>): the unrolled checksum equals the definition of Adler-32, over
    contiguous memory and over linked blocks; detection of changed bytes; \<open>adler32_combine\<close>.
  \<^item> \<open>Spy_List\<close>, \<open>Spy_Hlist\<close> (\<^verbatim>\<open>spy_list.h\<close>): the pointer operations on a heap of nodes, refined to lists (locale
    \<open>intrusive_queue\<close>).
  \<^item> \<open>Spy_RwBuffer\<close>, \<open>Spy_Pool\<close> (\<^verbatim>\<open>spy_mem_block.c\<close>, \<^verbatim>\<open>spy_rw_buffer.c\<close>): linked buffers as byte streams (locales
    \<open>byte_source\<close>, \<open>byte_sink\<close>) and the pool with its counters; blocks are neither lost nor shared.
  \<^item> \<open>Spy_Types\<close> (headers), \<open>Spy_Config\<close> (options of \<open>main\<close> in \<^verbatim>\<open>spy_server.c\<close>).
  \<^item> \<open>Spy_Chunk\<close>, \<open>Spy_Index\<close>, \<open>Spy_Store\<close>, \<open>Spy_Recovery\<close>, \<open>Spy_Startup\<close> (\<^verbatim>\<open>spy_store.c\<close>): superblock and file metadata,
    the tables (locale \<open>unique_index\<close>), the workers that write, read, check and dump, the parser that rebuilds the index,
    and the start over a directory listing. A file that was written is found and read back after a restart.
  \<^item> \<open>Spy_Atomic\<close> (\<^verbatim>\<open>spy_atomic.h\<close>), \<open>Spy_Work\<close> (\<^verbatim>\<open>spy_work.c\<close>): the work queue as an interleaving of the locked
    regions of the main thread and of a changing number of workers; every work is executed and completed once.
  \<^item> \<open>Spy_Event\<close> (\<^verbatim>\<open>spy_event.c\<close>, \<^verbatim>\<open>spy_event_epoll.c\<close>): file events, time events and the rounds of the loop, with epoll's
    interest set and the clock; handlers are a parameter (\<open>procs\<close>), timers a contract (locale \<open>timers\<close>).
  \<^item> \<open>Spy_Agent\<close> (\<^verbatim>\<open>spy_agent.c\<close>, \<^verbatim>\<open>spy_log.c\<close>): the shared report with its spin lock, the texts of the agent.
  \<^item> \<open>Spy_Server\<close> (\<^verbatim>\<open>spy_server.c\<close>, \<^verbatim>\<open>spy_obj_cache.c\<close>): all handlers, the completions, the timer procedure and the start,
    on \<open>world\<close>, the event loop extended by the server.

  \<^bold>\<open>The running server.\<close> \<open>Spy_Invariant\<close> defines the invariant \<open>srv_inv\<close>; its parameters are the connections, works and jobs
  that a handler has in hand, all empty between two handlers. \<open>Spy_Connection\<close>, \<open>Spy_Jobs\<close>, \<open>Spy_Done\<close>, \<open>Spy_Request\<close> and
  \<open>Spy_Worker\<close> show that answers, the work queue, completions, requests and works keep it, and \<open>Spy_Reply\<close> what the write
  handler sends. \<open>Spy_Run\<close> composes them to the step relation \<open>srv_step\<close>: a fired descriptor, a round of the timers, a work run
  by a thread, and changes from outside. One assumption on the system is a guard of the step: \<open>accept4\<close> returns
  a descriptor that is not open (\<open>accept_fresh\<close>). A work is one step here; the finer interleaving of the queue is that of
  \<open>Spy_Work\<close>. The state reached by \<open>spy_create_or_recover_files\<close> enters the start as a store whose tables are sound, as
  its two theorems in \<open>Spy_Startup\<close> provide.

  \<^bold>\<open>Loops.\<close> Loops with a bound are structural or have a termination proof; the others are \<open>partial_function (option)\<close>:
  iteration over rings, the parser loop, the loop over the time events, the write loop, and \<open>make_room\<close>. For these the theorems
  state that they return. There is no fuel; \<open>main_loop\<close> takes one list of ready descriptors for each round.

  \<^bold>\<open>Not modelled.\<close> Process set-up (sockets, \<open>bind\<close>, signals, \<open>fork\<close>, the log file, the usage text): calls into the system
  without state of the program. \<open>aeDeleteEventLoop\<close>, which nothing calls. \<open>spy_parse_data_block\<close>, which nothing calls. The
  macros of the checksum for machines without division, which are not compiled. Log messages of the
  handlers. A \<open>pwrite\<close> that returns zero. Opening the connection to the master. The Go programs (image server, master, tools) and the
  Python driver under \<^verbatim>\<open>src\<close> are clients of the chunk server and other programs.
\<close>

section \<open>Properties of the running server\<close>

text \<open>(C6) The state of the running server is well formed at every moment: after the start on sound tables, whatever
  descriptors fire, timers run, works are executed and data and connections arrive, in any order. Every io job is free or held by one
  work, no two works hold the same connection or write the same chunk, each work's connection is alive, the memory blocks in
  use are those of the buffers of live connections, each in one buffer, the events registered are those of the phase of each
  connection, and the counters of connections, reads and writes are exact. Hence nothing is lost: when no connection is left,
  there is no work, every io job is free again and no memory block is in use.\<close>

theorem server_well_formed:
  assumes "srv_reach w"
  shows "srv_inv {} [] [] w \<and>
    (conns (srv w) = Map.empty \<longrightarrow>
       works [] (srv w) = [] \<and> mset (free_io_jobs (srv w)) = mset [0..<DEF_MAX_IO_JOBS] \<and> mem_blocks_used (mem (srv w)) = 0)"
proof (intro conjI impI)
  show i: "srv_inv {} [] [] w" by (rule reach_inv [OF assms])
  assume e: "conns (srv w) = Map.empty"
  have k: "conns_ok {} [] w" "jobs_ok [] [] (srv w)" "bufs_ok (srv w)" using i by (simp_all add: srv_inv_def)
  show wk: "works [] (srv w) = []" using conns_ok_parts(4) [OF k(1)] e by (cases "works [] (srv w)") (auto simp: owners_def)
  show "mset (free_io_jobs (srv w)) = mset [0..<DEF_MAX_IO_JOBS]"
    using k(2) wk by (intro set_eq_iff_mset_eq_distinct [THEN iffD1]) (simp_all add: jobs_ok_def busy_def atLeast0LessThan)
  have "owned (srv w) = []" using e by (simp add: owned_def)
  then show "mem_blocks_used (mem (srv w)) = 0" using k(3) by (simp add: bufs_ok_def pool_ok_def unat_eq_zero)
qed

theorem server_well_formed_witness:
  "\<exists>w c. srv_reach w \<and> conns (srv w) c = Some (new_connection 9) \<and> srv_inv {} [] [] w"
  using demo_connected server_well_formed by blast

text \<open>(C7) Who may touch a connection. In every reachable state a live connection is held by at most one work, and it is held
  by one exactly while its request is processed; then its descriptor is not in the interest set of the kernel, so no event can
  close or change the connection under the work. While a request is received only reading is registered, while a response is
  sent writing is. No other connection has the same descriptor, and the handlers registered for the descriptor get this
  connection.\<close>

theorem connection_ownership:
  assumes "srv_reach w" "conns (srv w) c = Some cn"
  shows "(conn_state cn = PROCESS_REQUEST \<longleftrightarrow> c \<in> set (owners [] (srv w))) \<and> count_list (owners [] (srv w)) c \<le> 1 \<and>
    (conn_state cn = PROCESS_REQUEST \<longrightarrow> epset w (conn_fd cn) = None) \<and>
    (conn_state cn \<in> {RECEIVE_HDR, RECEIVE_BODY} \<longrightarrow> aeGetFileEvents (conn_fd cn) w = AE_READABLE) \<and>
    (conn_state cn = SEND_RSP \<longrightarrow> aeGetFileEvents (conn_fd cn) w AND AE_WRITABLE \<noteq> 0) \<and>
    (\<forall>c' cn'. conns (srv w) c' = Some cn' \<and> conn_fd cn' = conn_fd cn \<longrightarrow> c' = c) \<and>
    (aeGetFileEvents (conn_fd cn) w \<noteq> 0 \<longrightarrow> clientData (events w (conn_fd cn)) = Some c)"
proof -
  let ?m = "aeGetFileEvents (conn_fd cn) w" and ?o = "owners [] (srv w)"
  have k: "conns_ok {} [] w" "loop_ok w" using reach_inv [OF assms(1)] by (simp_all add: srv_inv_def)
  have p: "phase_ok {} ?o ?m c (conn_state cn)" "reg_ok ?m c (events w (conn_fd cn))" "fds_ok w" "distinct ?o"
    using conns_ok_parts(1) [OF k(1) assms(2)] k(1) by (simp_all add: conn_ok_def conns_ok_def)
  have "epset w (conn_fd cn) = None" if "?m = 0"
    using loop_okD(2) [OF k(2), of "conn_fd cn"] that by (auto simp: aeGetFileEvents_def AE_NONE_def split: if_splits)
  moreover have "c' = c" if "conns (srv w) c' = Some cn'" "conn_fd cn' = conn_fd cn" for c' cn'
    using p(3) that assms(2) by (auto simp: fds_ok_def fd_of_def dom_def intro!: inj_onD [of "fd_of (srv w)" _ c' c])
  moreover have "count_list ?o c \<le> 1" using p(4) by (simp add: distinct_count_atmost_1 flip: count_mset)
  ultimately show ?thesis using p(1,2)
    by (cases "conn_state cn") (auto simp: phase_ok_def reg_ok_def AE_READABLE_def AE_WRITABLE_def)
qed

theorem connection_ownership_witness:
  "\<exists>w c. srv_reach w \<and> conns (srv w) c = Some (new_connection 9) \<and> c \<notin> set (owners [] (srv w)) \<and>
    aeGetFileEvents 9 w = AE_READABLE \<and> clientData (events w 9) = Some c"
proof -
  obtain w c where w: "srv_reach w" "conns (srv w) c = Some (new_connection 9)" using demo_connected by blast
  from connection_ownership [OF this] w show ?thesis by (auto simp: new_connection_def AE_READABLE_def)
qed

text \<open>(C11) The round of the timers terminates: in every reachable state \<open>processTimeEvents\<close>, which starts again from the head of
  the list after each event it handles, returns, and the state is again well formed; when the clock does not advance during the round, no event that was there at its start is due
  any more.\<close>

theorem timer_round_terminates:
  assumes "srv_reach w"
  shows "\<exists>k w'. processTimeEvents spy_code w = Some (k, w') \<and> srv_inv {} [] [] w' \<and>
    (later w = [] \<longrightarrow> due_events (timeEventNextId w - 1) w' = [])"
  using cron.process_time_events [OF reach_ok [OF assms]] run_okD by blast

theorem timer_round_terminates_witness:
  "\<exists>w c k w'. srv_reach w \<and> conns (srv w) c = Some (new_connection 9) \<and> processTimeEvents spy_code w = Some (k, w')"
  using demo_connected timer_round_terminates by blast

end
